(* ===== verification/Prelude.thy ===== *)
theory Prelude
  imports Main "HOL-Library.Word" "HOL-Library.Multiset"
begin

text \<open>
  Shared vocabulary of the development.

  \<^item> \<open>db_error\<close> and \<open>result\<close>: the source's \<open>glaredb_error::Result\<close>. A \<open>DbError\<close> is
    an error value the code returns; a \<open>Panic\<close> is an \<open>assert!\<close>, \<open>unwrap\<close>, index or
    arithmetic failure that would abort the thread.
  \<^item> \<open>bind_result\<close>, \<open>collect_results\<close>: the \<open>?\<close> operator and
    \<open>iter().map(f).collect::<Result<Vec<_>>>()\<close>; \<open>fold_results\<close>: a \<open>for\<close> loop over a
    mutable state whose body may leave with \<open>?\<close>.
  \<^item> \<open>vec_get\<close>, \<open>vec_set\<close>: \<open>Vec\<close> indexing with its bounds check.
  \<^item> the locale \<open>invariant_system\<close>: a step relation with an inductive invariant. Every
    state machine of the development is an interpretation of it.
\<close>

named_theorems result_simps \<open>rewriting of results\<close>

section \<open>Results\<close>

datatype db_error = DbError string | Panic string

type_synonym 'a result = "db_error + 'a"

definition bind_result :: "'a result \<Rightarrow> ('a \<Rightarrow> 'b result) \<Rightarrow> 'b result" where
  "bind_result r f = (case r of Inl e \<Rightarrow> Inl e | Inr a \<Rightarrow> f a)"

lemma bind_result_simps [simp, result_simps]:
  "bind_result (Inl e) f = Inl e"
  "bind_result (Inr a) f = f a"
  by (simp_all add: bind_result_def)

lemma bind_result_eq_Inr [result_simps]:
  "bind_result r f = Inr b \<longleftrightarrow> (\<exists>a. r = Inr a \<and> f a = Inr b)"
  by (cases r) auto

lemma bind_result_eq_Inl [result_simps]:
  "bind_result r f = Inl e \<longleftrightarrow> r = Inl e \<or> (\<exists>a. r = Inr a \<and> f a = Inl e)"
  by (cases r) auto

lemma bind_result_assoc: "bind_result (bind_result r f) g = bind_result r (\<lambda>a. bind_result (f a) g)"
  by (cases r) auto

lemma bind_result_cong [fundef_cong]:
  "r = r' \<Longrightarrow> (\<And>a. r' = Inr a \<Longrightarrow> f a = f' a) \<Longrightarrow> bind_result r f = bind_result r' f'"
  by (cases r') auto

fun collect_results :: "('a \<Rightarrow> 'b result) \<Rightarrow> 'a list \<Rightarrow> 'b list result" where
  "collect_results f [] = Inr []"
| "collect_results f (x # xs) =
     bind_result (f x) (\<lambda>y. bind_result (collect_results f xs) (\<lambda>ys. Inr (y # ys)))"

lemma collect_results_cong [fundef_cong]:
  "xs = ys \<Longrightarrow> (\<And>x. x \<in> set ys \<Longrightarrow> f x = g x) \<Longrightarrow> collect_results f xs = collect_results g ys"
  by (induction ys arbitrary: xs) (auto intro!: bind_result_cong)

lemma collect_results_Inr [simp]: "collect_results (\<lambda>x. Inr (f x)) xs = Inr (map f xs)"
  by (induction xs) auto

lemma collect_results_length: "collect_results f xs = Inr ys \<Longrightarrow> length ys = length xs"
  by (induction xs arbitrary: ys) (auto simp: bind_result_eq_Inr)

lemma collect_results_list_all2:
  "collect_results f xs = Inr ys \<longleftrightarrow> list_all2 (\<lambda>x y. f x = Inr y) xs ys"
proof (induction xs arbitrary: ys)
  case (Cons x xs)
  then show ?case by (cases ys) (auto simp: bind_result_eq_Inr)
qed auto

lemma collect_results_nth:
  "collect_results f xs = Inr ys \<Longrightarrow> i < length xs \<Longrightarrow> f (xs ! i) = Inr (ys ! i)"
  by (auto simp: collect_results_list_all2 list_all2_conv_all_nth)

lemma collect_results_Inl: "(\<exists>e. collect_results f xs = Inl e) \<longleftrightarrow> (\<exists>x \<in> set xs. \<exists>e. f x = Inl e)"
proof (induction xs)
  case (Cons x xs)
  then show ?case by (cases "f x"; cases "collect_results f xs") auto
qed simp

lemma collect_results_map: "collect_results f (map g xs) = collect_results (\<lambda>x. f (g x)) xs"
  by (induction xs) auto

lemma collect_results_snoc:
  "collect_results f (xs @ [x]) =
     bind_result (collect_results f xs) (\<lambda>ys. bind_result (f x) (\<lambda>y. Inr (ys @ [y])))"
proof (induction xs)
  case (Cons y ys)
  then show ?case by (cases "f y"; cases "collect_results f ys"; cases "f x") auto
qed (cases "f x"; simp)

fun fold_results :: "('a \<Rightarrow> 's \<Rightarrow> 's result) \<Rightarrow> 'a list \<Rightarrow> 's \<Rightarrow> 's result" where
  "fold_results f [] s = Inr s"
| "fold_results f (x # xs) s = bind_result (f x s) (fold_results f xs)"

lemma fold_results_cong [fundef_cong]:
  "xs = ys \<Longrightarrow> s = t \<Longrightarrow> (\<And>x u. x \<in> set ys \<Longrightarrow> f x u = g x u)
    \<Longrightarrow> fold_results f xs s = fold_results g ys t"
  by (induction ys arbitrary: xs s t) (auto intro!: bind_result_cong)

lemma fold_results_append:
  "fold_results f (xs @ ys) s = bind_result (fold_results f xs s) (fold_results f ys)"
proof (induction xs arbitrary: s)
  case (Cons x xs)
  then show ?case by (cases "f x s") auto
qed simp

lemma fold_results_single [simp]: "fold_results f [x] = f x"
proof (rule ext)
  show "fold_results f [x] s = f x s" for s by (cases "f x s") auto
qed

lemma fold_results_Inr [simp]: "fold_results (\<lambda>x s. Inr (f x s)) xs s = Inr (fold f xs s)"
  by (induction xs arbitrary: s) auto

lemma fold_results_map: "fold_results f (map g xs) s = fold_results (\<lambda>x. f (g x)) xs s"
  by (induction xs arbitrary: s) (auto intro!: bind_result_cong)

lemma enumerate_map_upt: "List.enumerate 0 xs = map (\<lambda>i. (i, xs ! i)) [0..<length xs]"
  by (rule nth_equalityI) (simp_all add: nth_enumerate_eq)

lemma replicate_update_same [simp]: "(replicate n x)[i := x] = replicate n x"
  by (metis list_update_beyond list_update_id not_le_imp_less nth_replicate length_replicate)

definition is_panic :: "'a result \<Rightarrow> bool" where
  "is_panic r \<longleftrightarrow> (case r of Inl (Panic _) \<Rightarrow> True | _ \<Rightarrow> False)"

lemma is_panic_simps [simp, result_simps]:
  "\<not> is_panic (Inr a)" "\<not> is_panic (Inl (DbError m))" "is_panic (Inl (Panic m))"
  by (simp_all add: is_panic_def)

lemma is_panic_Inl [result_simps]: "is_panic (Inl e) \<longleftrightarrow> (\<exists>m. e = Panic m)"
  by (cases e) auto

lemma is_panic_bind [result_simps]:
  "is_panic (bind_result r f) \<longleftrightarrow> is_panic r \<or> (\<exists>a. r = Inr a \<and> is_panic (f a))"
  by (cases r) (auto simp: is_panic_def)

section \<open>Sorting\<close>

text \<open>
  What \<open>sort_unstable_by\<close> promises: some permutation of its input, in order. The order of
  elements that compare equal is not specified, so an operation that sorts this way takes the
  sorting function as an argument.
\<close>

definition sorts :: "(('a \<Rightarrow> 'k::linorder) \<Rightarrow> 'a list \<Rightarrow> 'a list) \<Rightarrow> bool" where
  "sorts sort_by \<longleftrightarrow> (\<forall>key xs. mset (sort_by key xs) = mset xs \<and> sorted (map key (sort_by key xs)))"

lemma sorts_mset: "sorts sort_by \<Longrightarrow> mset (sort_by key xs) = mset xs"
  by (simp add: sorts_def)

lemma sorts_sorted: "sorts sort_by \<Longrightarrow> sorted (map key (sort_by key xs))"
  by (simp add: sorts_def)

lemma sorts_sort_key: "sorts sort_key"
  by (simp add: sorts_def)

section \<open>Bounds-checked vectors\<close>

definition vec_get :: "'a list \<Rightarrow> nat \<Rightarrow> 'a result" where
  "vec_get xs i = (if i < length xs then Inr (xs ! i) else Inl (Panic ''index out of bounds''))"

definition vec_set :: "'a list \<Rightarrow> nat \<Rightarrow> 'a \<Rightarrow> 'a list result" where
  "vec_set xs i v = (if i < length xs then Inr (xs[i := v]) else Inl (Panic ''index out of bounds''))"

lemma vec_get_ok [simp]: "i < length xs \<Longrightarrow> vec_get xs i = Inr (xs ! i)"
  by (simp add: vec_get_def)

lemma vec_set_ok [simp]: "i < length xs \<Longrightarrow> vec_set xs i v = Inr (xs[i := v])"
  by (simp add: vec_set_def)

lemma vec_get_eq_Inr: "vec_get xs i = Inr x \<longleftrightarrow> i < length xs \<and> xs ! i = x"
  by (auto simp: vec_get_def)

lemma vec_set_eq_Inr: "vec_set xs i v = Inr ys \<longleftrightarrow> i < length xs \<and> ys = xs[i := v]"
  by (auto simp: vec_set_def)

section \<open>Conversions between word lengths\<close>

lemma sint_scast_up:
  "LENGTH('a::len) \<le> LENGTH('b::len) \<Longrightarrow> sint (scast (i :: 'a word) :: 'b word) = sint i"
  by transfer (simp add: min_def)

lemma sint_ucast_up:
  "LENGTH('a::len) < LENGTH('b::len) \<Longrightarrow> sint (ucast (i :: 'a word) :: 'b word) = uint i"
  by transfer (simp add: signed_take_bit_take_bit)

lemma signed_take_bit_id_iff:
  "signed_take_bit n k = (k :: int) \<longleftrightarrow> - (2 ^ n) \<le> k \<and> k < 2 ^ n"
  using signed_take_bit_int_eq_self_iff [of n k] by simp

section \<open>Invariants of step relations\<close>

locale invariant_system =
  fixes initial :: "'s \<Rightarrow> bool"
    and step :: "'s \<Rightarrow> 's \<Rightarrow> bool"
    and inv :: "'s \<Rightarrow> bool"
  assumes initial_inv: "initial s \<Longrightarrow> inv s"
    and step_inv: "inv s \<Longrightarrow> step s t \<Longrightarrow> inv t"
begin

lemma steps_inv: "step\<^sup>*\<^sup>* s t \<Longrightarrow> inv s \<Longrightarrow> inv t"
  by (induction rule: rtranclp_induct) (auto intro: step_inv)

lemma reachable_inv: "initial s \<Longrightarrow> step\<^sup>*\<^sup>* s t \<Longrightarrow> inv t"
  by (blast intro: steps_inv initial_inv)

end

end
