(* ===== verification/Exec_Stack.thy ===== *)
theory Exec_Stack
  imports Prelude
begin

text \<open>
  The instruction stack that drives one partition of a pipeline
  (\<open>execution/execution_stack.rs\<close>). A pipeline is a vector of operators: operator 0 is the
  source, the last one the sink. The stack decides which operator is polled next; the polls
  themselves are calls to an \<open>Effects\<close> implementation, which is a parameter here.

  The \<open>Vec<Instruction>\<close> is a list whose head is the top of the stack (the last element of
  the vector).
\<close>

section \<open>Polls, instructions, effects\<close>

datatype poll_execute =
    PollExecute_Ready | PollExecute_Pending | PollExecute_NeedsMore
  | PollExecute_HasMore | PollExecute_Exhausted

datatype poll_finalize = PollFinalize_Finalized | PollFinalize_NeedsDrain | PollFinalize_Pending

datatype stack_control_flow = Flow_Continue | Flow_Finished | Flow_Pending

datatype instruction =
    ExecuteOperator (operator_idx: nat) (is_pipeline_start: bool)
  | FinalizeOperator (operator_idx: nat)

record execution_stack =
  num_operators :: nat
  instructions :: "instruction list"

record 'e effects =
  handle_execute :: "'e \<Rightarrow> nat \<Rightarrow> poll_execute result \<times> 'e"
  handle_finalize :: "'e \<Rightarrow> nat \<Rightarrow> poll_finalize result \<times> 'e"

definition execution_stack_new :: "nat \<Rightarrow> execution_stack result" where
  "execution_stack_new n =
     (if n = 0 then Inl (Panic ''assertion failed: 0 != num_operators'')
      else Inr \<lparr>num_operators = n, instructions = [ExecuteOperator 0 True]\<rparr>)"

section \<open>One instruction\<close>

text \<open>
  What the stack becomes after the poll of an \<open>ExecuteOperator\<close> instruction: \<open>n\<close> operators,
  \<open>rest\<close> the stack below the popped instruction, \<open>idx\<close> and \<open>start\<close> its fields.
\<close>

fun after_execute ::
  "nat \<Rightarrow> instruction list \<Rightarrow> nat \<Rightarrow> bool \<Rightarrow> poll_execute \<Rightarrow>
     instruction list \<times> stack_control_flow result" where
  "after_execute n rest idx start PollExecute_Ready =
     (let rest1 = (if start then ExecuteOperator idx start # rest else rest);
          rest2 = (if idx \<noteq> n - 1 then ExecuteOperator (idx + 1) False # rest1 else rest1)
      in (rest2, Inr Flow_Continue))"
| "after_execute n rest idx start PollExecute_Pending =
     (ExecuteOperator idx start # rest, Inr Flow_Pending)"
| "after_execute n rest idx start PollExecute_NeedsMore = (rest, Inr Flow_Continue)"
| "after_execute n rest idx start PollExecute_HasMore =
     (let rest1 = ExecuteOperator idx start # rest
      in if idx \<noteq> n - 1 then (ExecuteOperator (idx + 1) False # rest1, Inr Flow_Continue)
         else (rest1, Inl (DbError ''Last operator returned HasMore'')))"
| "after_execute n rest idx start PollExecute_Exhausted =
     (if idx = n - 1 then ([], Inl (DbError ''Last operator returned Exhausted''))
      else ([ExecuteOperator (idx + 1) False, FinalizeOperator (idx + 1)], Inr Flow_Continue))"

fun after_finalize ::
  "nat \<Rightarrow> instruction list \<Rightarrow> nat \<Rightarrow> poll_finalize \<Rightarrow>
     instruction list \<times> stack_control_flow result" where
  "after_finalize n rest idx PollFinalize_Finalized =
     (if idx = n - 1 then (rest, Inr Flow_Finished)
      else (FinalizeOperator (idx + 1) # rest, Inr Flow_Continue))"
| "after_finalize n rest idx PollFinalize_NeedsDrain =
     (if idx = n - 1 then (rest, Inl (DbError ''Last operator returned NeedsDrain''))
      else (ExecuteOperator idx True # rest, Inr Flow_Continue))"
| "after_finalize n rest idx PollFinalize_Pending =
     (FinalizeOperator idx # rest, Inr Flow_Pending)"

definition pop_next ::
  "'e effects \<Rightarrow> execution_stack \<Rightarrow> 'e \<Rightarrow> stack_control_flow result \<times> execution_stack \<times> 'e" where
  "pop_next eff s e =
     (case instructions s of
        [] \<Rightarrow> (Inr Flow_Finished, s, e)
      | ExecuteOperator idx start # rest \<Rightarrow>
          (case handle_execute eff e idx of
             (Inl err, e') \<Rightarrow> (Inl err, s\<lparr>instructions := rest\<rparr>, e')
           | (Inr poll, e') \<Rightarrow>
               (case after_execute (num_operators s) rest idx start poll of
                  (is, r) \<Rightarrow> (r, s\<lparr>instructions := is\<rparr>, e')))
      | FinalizeOperator idx # rest \<Rightarrow>
          (if idx = 0
           then (Inl (Panic ''attempted to finalize operator at index 0''),
                 s\<lparr>instructions := rest\<rparr>, e)
           else (case handle_finalize eff e idx of
                   (Inl err, e') \<Rightarrow> (Inl err, s\<lparr>instructions := rest\<rparr>, e')
                 | (Inr poll, e') \<Rightarrow>
                     (case after_finalize (num_operators s) rest idx poll of
                        (is, r) \<Rightarrow> (r, s\<lparr>instructions := is\<rparr>, e')))))"

section \<open>The stack as a state machine\<close>

text \<open>
  The effects enter a step only through the poll they answer with. \<open>stack_step\<close> is the
  transition relation with the poll left open: one rule per kind of instruction, labelled
  with the call made (the operator, and for an execution whether it was the start of the
  pipeline) and its answer.
\<close>

datatype stack_event = Executed nat bool poll_execute | Finalized nat poll_finalize

inductive stack_step :: "execution_stack \<Rightarrow> stack_event \<Rightarrow> execution_stack \<Rightarrow> bool" where
  execute: "instructions s = ExecuteOperator idx start # rest \<Longrightarrow>
     after_execute (num_operators s) rest idx start p = (is, Inr cf) \<Longrightarrow>
     stack_step s (Executed idx start p) (s\<lparr>instructions := is\<rparr>)"
| finalize: "instructions s = FinalizeOperator idx # rest \<Longrightarrow> idx \<noteq> 0 \<Longrightarrow>
     after_finalize (num_operators s) rest idx p = (is, Inr cf) \<Longrightarrow>
     stack_step s (Finalized idx p) (s\<lparr>instructions := is\<rparr>)"

inductive stack_run :: "execution_stack \<Rightarrow> stack_event list \<Rightarrow> execution_stack \<Rightarrow> bool" where
  run_nil: "stack_run s [] s"
| run_snoc: "stack_run s evs t \<Longrightarrow> stack_step t ev u \<Longrightarrow> stack_run s (evs @ [ev]) u"

inductive_cases stack_stepE: "stack_step s ev t"
inductive_cases stack_run_NilE [elim!]: "stack_run s [] t"

lemma pop_next_step:
  assumes "pop_next eff s e = (Inr cf, t, e')" and "instructions s \<noteq> []"
  shows "\<exists>ev. stack_step s ev t"
proof (cases "hd (instructions s)")
  case (ExecuteOperator idx start)
  with assms show ?thesis
    by (cases "instructions s")
      (auto simp: pop_next_def split: prod.splits sum.splits intro!: stack_step.execute)
next
  case (FinalizeOperator idx)
  with assms show ?thesis
    by (cases "instructions s")
      (auto simp: pop_next_def split: prod.splits sum.splits if_splits intro!: stack_step.finalize)
qed

lemma stack_step_num_operators: "stack_step s ev t \<Longrightarrow> num_operators t = num_operators s"
  by (auto elim: stack_stepE)

lemma stack_run_num_operators: "stack_run s evs t \<Longrightarrow> num_operators t = num_operators s"
  by (induction rule: stack_run.induct) (auto simp: stack_step_num_operators)

subsection \<open>Well-formed stacks\<close>

text \<open>
  From the top of a well-formed stack down, the operator indices strictly decrease. Only the
  bottom instruction is either a pipeline start or the pending finalization; everything above
  is the execution of an operator further down the pipeline.
\<close>

fun stack_wf :: "nat \<Rightarrow> instruction list \<Rightarrow> bool" where
  "stack_wf n [] = True"
| "stack_wf n [FinalizeOperator i] = (0 < i \<and> i < n)"
| "stack_wf n [ExecuteOperator i st] = (st \<and> i < n)"
| "stack_wf n (ExecuteOperator i st # FinalizeOperator j # rest) =
     (\<not> st \<and> j \<le> i \<and> i < n \<and> stack_wf n (FinalizeOperator j # rest))"
| "stack_wf n (ExecuteOperator i st # ExecuteOperator j st' # rest) =
     (\<not> st \<and> j < i \<and> i < n \<and> stack_wf n (ExecuteOperator j st' # rest))"
| "stack_wf n (FinalizeOperator i # _ # rest) = False"

lemma stack_wf_top: "stack_wf n (x # rest) \<Longrightarrow> operator_idx x < n"
  by (induction n "x # rest" rule: stack_wf.induct) auto

lemma stack_wf_tl: "stack_wf n (x # rest) \<Longrightarrow> stack_wf n rest"
  by (induction n "x # rest" rule: stack_wf.induct) auto

lemma stack_wf_base: "stack_wf n is \<Longrightarrow> is \<noteq> [] \<Longrightarrow> operator_idx (last is) \<le> operator_idx (hd is)"
  by (induction n "is" rule: stack_wf.induct) auto

lemma stack_wf_push:
  assumes "stack_wf n (x # rest)" and "operator_idx x < i" and "i < n"
  shows "stack_wf n (ExecuteOperator i False # x # rest)"
  using assms by (cases x) auto

lemma stack_wf_advance:
  assumes "stack_wf n (ExecuteOperator j False # rest)" and "j < i" and "i < n"
  shows "stack_wf n (ExecuteOperator i False # rest)"
proof (cases rest)
  case (Cons x xs)
  with assms show ?thesis by (cases x) auto
qed (use assms in auto)

lemma stack_wf_start: "stack_wf n (ExecuteOperator i True # rest) \<Longrightarrow> rest = [] \<and> i < n"
  by (induction n "ExecuteOperator i True # rest" rule: stack_wf.induct) auto

lemma stack_wf_finalize: "stack_wf n (FinalizeOperator i # rest) \<Longrightarrow> rest = [] \<and> 0 < i \<and> i < n"
  by (induction n "FinalizeOperator i # rest" rule: stack_wf.induct) auto

lemma after_execute_wf:
  assumes wf: "stack_wf n (ExecuteOperator i st # rest)"
    and step: "after_execute n rest i st p = (is, Inr cf)"
  shows "stack_wf n is"
proof (cases st)
  case True
  then have "rest = []" and "i < n" using wf stack_wf_start [of n i rest] by simp_all
  then show ?thesis using step True by (cases p) (auto simp: Let_def split: if_splits)
next
  case False
  have i: "i < n" using stack_wf_top [OF wf] by simp
  have rest: "stack_wf n rest" using stack_wf_tl [OF wf] .
  have adv: "stack_wf n (ExecuteOperator (Suc i) False # rest)" if "i \<noteq> n - 1"
    using that wf i False stack_wf_advance [of n i rest "Suc i"] by simp
  have push: "stack_wf n (ExecuteOperator (Suc i) False # ExecuteOperator i False # rest)"
    if "i \<noteq> n - 1"
    using that i False wf stack_wf_push [of n "ExecuteOperator i False" rest "Suc i"] by simp
  have single: "stack_wf n [ExecuteOperator (Suc i) False, FinalizeOperator (Suc i)]" if "i \<noteq> n - 1"
    using that i by auto
  show ?thesis using step False adv push single wf rest
    by (cases p) (auto simp: Let_def split: if_splits)
qed

lemma after_finalize_wf:
  assumes "stack_wf n (FinalizeOperator i # rest)"
    and "after_finalize n rest i p = (is, Inr cf)"
  shows "stack_wf n is"
  using assms stack_wf_finalize [OF assms(1)] by (cases p) (auto split: if_splits)

lemma stack_step_wf:
  assumes "stack_step s ev t" and "stack_wf (num_operators s) (instructions s)"
  shows "stack_wf (num_operators s) (instructions t)"
  using assms(1)
proof (cases rule: stack_step.cases)
  case (execute idx start rest p is' cf)
  then show ?thesis using assms(2) after_execute_wf [OF _ execute(4)] by simp
next
  case (finalize idx rest p is' cf)
  then show ?thesis using assms(2) after_finalize_wf [OF _ finalize(5)] by simp
qed

text \<open>The start state of \<open>ExecutionStack::new\<close> and the well-formedness of every later state.\<close>

definition stack_initial :: "execution_stack \<Rightarrow> bool" where
  "stack_initial s \<longleftrightarrow> execution_stack_new (num_operators s) = Inr s"

lemma stack_initial_iff:
  "stack_initial s \<longleftrightarrow> 0 < num_operators s \<and> instructions s = [ExecuteOperator 0 True]"
  by (cases s) (auto simp: stack_initial_def execution_stack_new_def)

definition stack_inv :: "execution_stack \<Rightarrow> bool" where
  "stack_inv s \<longleftrightarrow> 0 < num_operators s \<and> stack_wf (num_operators s) (instructions s)"

interpretation stack_system: invariant_system stack_initial "\<lambda>s t. \<exists>ev. stack_step s ev t" stack_inv
proof unfold_locales
  fix s assume "stack_initial s"
  then show "stack_inv s" by (auto simp: stack_initial_iff stack_inv_def)
next
  fix s t assume "stack_inv s" and "\<exists>ev. stack_step s ev t"
  then obtain ev where step: "stack_step s ev t" and inv: "stack_inv s" by blast
  then show "stack_inv t"
    using stack_step_wf [OF step] stack_step_num_operators [OF step] by (auto simp: stack_inv_def)
qed

lemma stack_run_rtranclp: "stack_run s evs t \<Longrightarrow> (\<lambda>s t. \<exists>ev. stack_step s ev t)\<^sup>*\<^sup>* s t"
  by (induction rule: stack_run.induct) (auto intro: rtranclp.rtrancl_into_rtrancl)

lemma stack_run_inv: "stack_initial s \<Longrightarrow> stack_run s evs t \<Longrightarrow> stack_inv t"
  using stack_system.reachable_inv stack_run_rtranclp by blast

section \<open>What a run has polled\<close>

text \<open>
  \<open>run_log_ok\<close> links the calls made so far to the bottom of the stack: operators that were
  exhausted or finalized lie strictly below the bottom instruction, and an operator that asked
  to be drained is at or below it, at it only while it is the pipeline start.
\<close>

definition bottom_idx :: "instruction list \<Rightarrow> nat" where
  "bottom_idx is = operator_idx (last is)"

fun event_idx :: "stack_event \<Rightarrow> nat" where
  "event_idx (Executed i _ _) = i"
| "event_idx (Finalized i _) = i"

fun settles :: "stack_event \<Rightarrow> bool" where
  "settles (Executed i st p) \<longleftrightarrow> p = PollExecute_Exhausted"
| "settles (Finalized i p) \<longleftrightarrow> p = PollFinalize_Finalized"

fun drains :: "stack_event \<Rightarrow> bool" where
  "drains (Executed i st p) \<longleftrightarrow> False"
| "drains (Finalized i p) \<longleftrightarrow> p = PollFinalize_NeedsDrain"

definition run_log_ok :: "instruction list \<Rightarrow> stack_event list \<Rightarrow> bool" where
  "run_log_ok is evs \<longleftrightarrow> (is \<noteq> [] \<longrightarrow>
     (\<forall>ev \<in> set evs. settles ev \<longrightarrow> event_idx ev < bottom_idx is) \<and>
     (\<forall>ev \<in> set evs. drains ev \<longrightarrow>
        event_idx ev < bottom_idx is \<or> last is = ExecuteOperator (event_idx ev) True))"

lemma run_log_ok_keep:
  assumes "run_log_ok is evs" and "is \<noteq> []" and "last is' = last is"
    and "\<not> settles ev" and "\<not> drains ev"
  shows "run_log_ok is' (evs @ [ev])"
  using assms by (auto simp: run_log_ok_def bottom_idx_def)

lemma run_log_ok_raise:
  assumes "run_log_ok is evs" and "is \<noteq> []" and "bottom_idx is \<le> event_idx ev"
    and "bottom_idx is' = event_idx ev + 1"
  shows "run_log_ok is' (evs @ [ev])"
proof -
  have "event_idx e < bottom_idx is'" if "e \<in> set evs" and "settles e" for e
    using that assms by (fastforce simp: run_log_ok_def)
  moreover have "event_idx e < bottom_idx is'" if "e \<in> set evs" and "drains e" for e
  proof -
    have "event_idx e < bottom_idx is \<or> last is = ExecuteOperator (event_idx e) True"
      using that assms(1,2) by (auto simp: run_log_ok_def)
    then have "event_idx e \<le> bottom_idx is" by (auto simp: bottom_idx_def)
    then show ?thesis using assms(3,4) by linarith
  qed
  ultimately show ?thesis using assms(4) by (auto simp: run_log_ok_def)
qed

text \<open>A step at index \<open>i\<close> either keeps the bottom instruction or replaces the whole stack.\<close>

lemma after_execute_bottom:
  assumes "stack_wf n (ExecuteOperator i st # rest)"
    and "after_execute n rest i st p = (is, Inr cf)" and "is \<noteq> []"
  shows "if p = PollExecute_Exhausted then bottom_idx is = i + 1
         else last is = last (ExecuteOperator i st # rest)"
proof (cases st)
  case True
  then have "rest = []" using assms(1) stack_wf_start [of n i rest] by simp
  then show ?thesis using assms(2,3) True
    by (cases p) (auto simp: bottom_idx_def Let_def split: if_splits)
next
  case False
  then have "rest \<noteq> []" using assms(1) by (cases rest) auto
  then show ?thesis using assms(2,3) False
    by (cases p) (auto simp: bottom_idx_def Let_def split: if_splits)
qed

lemma after_finalize_bottom:
  assumes "stack_wf n (FinalizeOperator i # rest)"
    and "after_finalize n rest i p = (is, Inr cf)" and "is \<noteq> []"
  shows "case p of PollFinalize_Finalized \<Rightarrow> bottom_idx is = i + 1
    | PollFinalize_NeedsDrain \<Rightarrow> last is = ExecuteOperator i True
    | PollFinalize_Pending \<Rightarrow> last is = FinalizeOperator i"
  using assms stack_wf_finalize [OF assms(1)]
  by (cases p) (auto simp: bottom_idx_def split: if_splits)

lemma bottom_le_top:
  "stack_wf n (x # rest) \<Longrightarrow> bottom_idx (x # rest) \<le> operator_idx x"
  using stack_wf_base [of n "x # rest"] by (auto simp: bottom_idx_def)

lemma run_log_ok_execute:
  assumes wf: "stack_wf n (ExecuteOperator i st # rest)"
    and step: "after_execute n rest i st p = (is, Inr cf)"
    and ok: "run_log_ok (ExecuteOperator i st # rest) evs"
  shows "run_log_ok is (evs @ [Executed i st p])"
proof (cases "is = []")
  case True
  then show ?thesis by (simp add: run_log_ok_def)
next
  case False
  note bot = after_execute_bottom [OF wf step False]
  show ?thesis
  proof (cases "p = PollExecute_Exhausted")
    case True
    then show ?thesis using bot bottom_le_top [OF wf] by (intro run_log_ok_raise [OF ok]) auto
  next
    case False
    then show ?thesis using bot by (intro run_log_ok_keep [OF ok]) auto
  qed
qed

lemma run_log_ok_finalize:
  assumes wf: "stack_wf n (FinalizeOperator i # rest)"
    and step: "after_finalize n rest i p = (is, Inr cf)"
    and ok: "run_log_ok (FinalizeOperator i # rest) evs"
  shows "run_log_ok is (evs @ [Finalized i p])"
proof (cases "is = []")
  case True
  then show ?thesis by (simp add: run_log_ok_def)
next
  case False
  note bot = after_finalize_bottom [OF wf step False]
  have rest: "rest = []" using stack_wf_finalize [OF wf] by simp
  show ?thesis
  proof (cases p)
    case PollFinalize_Finalized
    then show ?thesis using bot rest by (intro run_log_ok_raise [OF ok]) (auto simp: bottom_idx_def)
  next
    case PollFinalize_NeedsDrain
    then have "last is = ExecuteOperator i True" using bot by simp
    then show ?thesis using ok rest PollFinalize_NeedsDrain
      by (auto simp: run_log_ok_def bottom_idx_def)
  next
    case PollFinalize_Pending
    then show ?thesis using bot rest by (intro run_log_ok_keep [OF ok]) auto
  qed
qed

lemma stack_run_log_ok:
  assumes "stack_run s evs t" and "stack_initial s"
  shows "run_log_ok (instructions t) evs"
  using assms
proof (induction rule: stack_run.induct)
  case (run_nil s)
  then show ?case by (simp add: run_log_ok_def)
next
  case (run_snoc s evs t ev u)
  have inv: "stack_wf (num_operators t) (instructions t)"
    using stack_run_inv [OF run_snoc.prems run_snoc.hyps(1)] by (simp add: stack_inv_def)
  from run_snoc.hyps(2) show ?case
  proof (cases rule: stack_step.cases)
    case (execute idx start rest p is' cf)
    then show ?thesis
      using run_snoc.IH [OF run_snoc.prems] inv run_log_ok_execute [OF _ execute(4)] by simp
  next
    case (finalize idx rest p is' cf)
    then show ?thesis
      using run_snoc.IH [OF run_snoc.prems] inv run_log_ok_finalize [OF _ finalize(5)] by simp
  qed
qed

lemma stack_step_idx:
  assumes "stack_step s ev t" and "stack_inv s"
  shows "event_idx ev < num_operators s" and "bottom_idx (instructions s) \<le> event_idx ev"
    and "instructions s \<noteq> []"
proof -
  obtain x rest where top: "instructions s = x # rest" and idx: "operator_idx x = event_idx ev"
    using assms(1) by (cases rule: stack_step.cases) auto
  have wf: "stack_wf (num_operators s) (x # rest)" using assms(2) top by (simp add: stack_inv_def)
  show "event_idx ev < num_operators s" using stack_wf_top [OF wf] idx by simp
  show "bottom_idx (instructions s) \<le> event_idx ev" using bottom_le_top [OF wf] top idx by simp
  show "instructions s \<noteq> []" using top by simp
qed

lemma stack_run_snocD:
  assumes "stack_run s (evs @ [ev]) t"
  shows "\<exists>u. stack_run s evs u \<and> stack_step u ev t"
  using assms by (cases rule: stack_run.cases) auto

lemma stack_run_append_Cons:
  "stack_run s (evs @ ev # evs') t \<Longrightarrow> \<exists>u v. stack_run s evs u \<and> stack_step u ev v"
proof (induction evs' arbitrary: t rule: rev_induct)
  case Nil
  then show ?case using stack_run_snocD by blast
next
  case (snoc x xs)
  from snoc.prems have "\<exists>w. stack_run s (evs @ ev # xs) w"
    using stack_run_snocD [of s "evs @ ev # xs" x t] by auto
  then show ?case using snoc.IH by blast
qed

lemma stack_run_settled:
  assumes "stack_initial s" and "stack_run s (evs @ ev # evs') t" and "e \<in> set evs"
  shows "settles e \<Longrightarrow> event_idx e < event_idx ev" and "drains e \<Longrightarrow> event_idx e \<le> event_idx ev"
proof -
  obtain u v where run: "stack_run s evs u" and step: "stack_step u ev v"
    using stack_run_append_Cons assms(2) by blast
  have ok: "run_log_ok (instructions u) evs" using stack_run_log_ok run assms(1) .
  have inv: "stack_inv u" using stack_run_inv assms(1) run .
  note idx = stack_step_idx [OF step inv]
  show "settles e \<Longrightarrow> event_idx e < event_idx ev"
    using ok idx assms(3) by (fastforce simp: run_log_ok_def)
  assume "drains e"
  then have "event_idx e < bottom_idx (instructions u) \<or>
      last (instructions u) = ExecuteOperator (event_idx e) True"
    using ok idx(3) assms(3) by (auto simp: run_log_ok_def)
  then have "event_idx e \<le> bottom_idx (instructions u)" by (auto simp: bottom_idx_def)
  then show "event_idx e \<le> event_idx ev" using idx(2) by linarith
qed



lemma after_execute_no_panic: "\<not> is_panic (snd (after_execute n rest i st p))"
  by (cases p) (auto simp: Let_def)

lemma after_finalize_no_panic: "\<not> is_panic (snd (after_finalize n rest i p))"
  by (cases p) auto

lemma pop_next_no_panic:
  assumes "stack_inv t"
    and "\<And>i. i < num_operators t \<Longrightarrow> \<not> is_panic (fst (handle_execute eff e i))"
    and "\<And>i. i < num_operators t \<Longrightarrow> \<not> is_panic (fst (handle_finalize eff e i))"
  shows "\<not> is_panic (fst (pop_next eff t e))"
proof (cases "instructions t")
  case Nil
  then show ?thesis by (simp add: pop_next_def)
next
  case (Cons x rest)
  then have wf: "stack_wf (num_operators t) (x # rest)" using assms(1) by (simp add: stack_inv_def)
  have idx: "operator_idx x < num_operators t" using stack_wf_top [OF wf] .
  show ?thesis
  proof (cases x)
    case (ExecuteOperator i st)
    obtain r e' where h: "handle_execute eff e i = (r, e')" by fastforce
    then have "\<not> is_panic r" using assms(2) [of i] idx ExecuteOperator by simp
    then show ?thesis
      using Cons ExecuteOperator h after_execute_no_panic [of "num_operators t" rest i st]
      by (cases r) (auto simp: pop_next_def is_panic_Inl case_prod_beta)
  next
    case (FinalizeOperator i)
    then have "0 < i" using wf stack_wf_finalize by blast
    obtain r e' where h: "handle_finalize eff e i = (r, e')" by fastforce
    then have "\<not> is_panic r" using assms(3) [of i] idx FinalizeOperator by simp
    then show ?thesis
      using Cons FinalizeOperator h \<open>0 < i\<close> after_finalize_no_panic [of "num_operators t" rest i]
      by (cases r) (auto simp: pop_next_def is_panic_Inl case_prod_beta)
  qed
qed

section \<open>Properties of the execution stack\<close>

text \<open>
  C1. Every poll the stack asks for is in range. On every run from \<open>ExecutionStack::new\<close> the
  effects are only called at an operator index below the number of operators and operator 0 is
  never finalized, and from every reached stack \<open>pop_next\<close> (its \<open>assert_ne!\<close> included)
  panics only if the effects do.
\<close>

theorem pop_next_safe:
  assumes "stack_initial s" and "stack_run s evs t"
  shows "(\<forall>ev \<in> set evs. event_idx ev < num_operators s \<and> (\<forall>p. ev \<noteq> Finalized 0 p)) \<and>
    (\<forall>eff e. (\<forall>i < num_operators s. \<not> is_panic (fst (handle_execute eff e i)) \<and>
                \<not> is_panic (fst (handle_finalize eff e i))) \<longrightarrow>
       \<not> is_panic (fst (pop_next eff t e)))"
proof -
  have "event_idx ev < num_operators s \<and> (\<forall>p. ev \<noteq> Finalized 0 p)" if ev: "ev \<in> set evs" for ev
  proof -
    obtain xs ys where "evs = xs @ ev # ys" using ev by (meson split_list)
    then obtain u v where run: "stack_run s xs u" and step: "stack_step u ev v"
      using stack_run_append_Cons assms(2) by blast
    have inv: "stack_inv u" using stack_run_inv assms(1) run .
    have "ev \<noteq> Finalized 0 p" for p using step by (auto elim: stack_stepE)
    then show ?thesis
      using stack_step_idx(1) [OF step inv] stack_run_num_operators [OF run] by simp
  qed
  moreover have "stack_inv t" using stack_run_inv assms .
  ultimately show ?thesis
    using pop_next_no_panic stack_run_num_operators [OF assms(2)] by metis
qed

theorem pop_next_safe_witness:
  "let s = \<lparr>num_operators = 2, instructions = [ExecuteOperator 0 True]\<rparr>;
       evs = [Executed 0 True PollExecute_Exhausted]
   in \<exists>t. stack_initial s \<and> stack_run s evs t \<and>
        (\<forall>ev \<in> set evs. event_idx ev < num_operators s \<and> (\<forall>p. ev \<noteq> Finalized 0 p))"
proof -
  let ?s = "\<lparr>num_operators = 2, instructions = [ExecuteOperator 0 True]\<rparr>"
  let ?t = "?s\<lparr>instructions := [ExecuteOperator 1 False, FinalizeOperator 1]\<rparr>"
  have init: "stack_initial ?s" by (simp add: stack_initial_iff)
  have "stack_step ?s (Executed 0 True PollExecute_Exhausted) ?t"
    by (rule stack_step.execute) auto
  then have run: "stack_run ?s ([] @ [Executed 0 True PollExecute_Exhausted]) ?t"
    by (rule stack_run.run_snoc [OF stack_run.run_nil])
  show ?thesis using init run pop_next_safe [OF init run] by (auto simp: Let_def)
qed

text \<open>
  C2. The documented contracts of \<open>PollExecute::Exhausted\<close> and \<open>PollFinalize::Finalized\<close>:
  once an operator has answered with either, neither it nor any operator before it in the
  pipeline is polled again in the rest of the run; an operator that asked to be drained may be
  polled again, but nothing before it is.
\<close>

theorem settled_operators_not_polled:
  assumes "stack_initial s" and "stack_run s (evs @ ev # evs') t" and "e \<in> set evs"
  shows "(settles e \<longrightarrow> event_idx e < event_idx ev) \<and> (drains e \<longrightarrow> event_idx e \<le> event_idx ev)"
  using stack_run_settled [OF assms] by blast

theorem settled_operators_not_polled_witness:
  "let s = \<lparr>num_operators = 2, instructions = [ExecuteOperator 0 True]\<rparr>;
       e = Executed 0 True PollExecute_Exhausted; ev = Executed 1 False PollExecute_NeedsMore
   in \<exists>t. stack_initial s \<and> stack_run s ([e] @ ev # []) t \<and> settles e \<and> event_idx e < event_idx ev"
proof -
  let ?s = "\<lparr>num_operators = 2, instructions = [ExecuteOperator 0 True]\<rparr>"
  let ?t = "?s\<lparr>instructions := [ExecuteOperator 1 False, FinalizeOperator 1]\<rparr>"
  let ?u = "?t\<lparr>instructions := [FinalizeOperator 1]\<rparr>"
  let ?e = "Executed 0 True PollExecute_Exhausted"
  let ?ev = "Executed 1 False PollExecute_NeedsMore"
  have init: "stack_initial ?s" by (simp add: stack_initial_iff)
  have st: "stack_step ?s ?e ?t" by (rule stack_step.execute) auto
  have tu: "stack_step ?t ?ev ?u" by (rule stack_step.execute) auto
  have "stack_run ?s (([] @ [?e]) @ [?ev]) ?u"
    by (rule stack_run.run_snoc [OF stack_run.run_snoc [OF stack_run.run_nil st] tu])
  then have run: "stack_run ?s ([?e] @ ?ev # []) ?u" by simp
  show ?thesis using init run settled_operators_not_polled [OF init run, of ?e] by (auto simp: Let_def)
qed




end
