(* ===== verification/Datatypes.thy ===== *)
theory Datatypes
  imports Prelude
begin

text \<open>
  Data types and scalar values (\<open>arrays/datatype.rs\<close>, \<open>arrays/scalar/mod.rs\<close>,
  \<open>arrays/scalar/decimal.rs\<close>).

  Integers are machine words of the source's width, read with \<open>sint\<close> where the Rust type is
  signed and with \<open>uint\<close> where it is not; floats are their bit patterns. The lemmas are about
  the conversions of a scalar to a Rust integer, the decimal precision check, and the data
  type that an implicit cast targets.
\<close>

section \<open>Data types\<close>

datatype data_type_id =
    AnyT | TableT | NullT | BooleanT
  | Int8T | Int16T | Int32T | Int64T | Int128T
  | UInt8T | UInt16T | UInt32T | UInt64T | UInt128T
  | Float16T | Float32T | Float64T
  | Decimal64T | Decimal128T
  | TimestampT | Date32T | Date64T | IntervalT
  | Utf8T | BinaryT | StructT | ListT

record decimal_meta =
  dm_precision :: nat
  dm_scale :: int

datatype time_unit = Second | Millisecond | Microsecond | Nanosecond

datatype data_type = DataType (type_id: data_type_id) (type_meta: data_type_meta)
and data_type_meta =
    MetaDecimal decimal_meta
  | MetaTimestamp time_unit
  | MetaStruct "field list"
  | MetaList data_type
  | MetaNone
and field = Field (field_name: string) (field_datatype: data_type) (field_nullable: bool)

definition new_primitive :: "data_type_id \<Rightarrow> data_type" where
  "new_primitive i = DataType i MetaNone"

definition list_type :: "data_type \<Rightarrow> data_type" where
  "list_type element_type = DataType ListT (MetaList element_type)"

definition struct_type :: "field list \<Rightarrow> data_type" where
  "struct_type fs = DataType StructT (MetaStruct fs)"

definition decimal64_type :: "decimal_meta \<Rightarrow> data_type" where
  "decimal64_type m = DataType Decimal64T (MetaDecimal m)"

definition decimal128_type :: "decimal_meta \<Rightarrow> data_type" where
  "decimal128_type m = DataType Decimal128T (MetaDecimal m)"

definition timestamp_type :: "time_unit \<Rightarrow> data_type" where
  "timestamp_type u = DataType TimestampT (MetaTimestamp u)"

abbreviation boolean_type :: data_type where
  "boolean_type \<equiv> new_primitive BooleanT"

text \<open>\<open>DecimalTypeMeta::new_for_datatype_id\<close>.\<close>

fun new_for_datatype_id :: "data_type_id \<Rightarrow> decimal_meta option" where
  "new_for_datatype_id BooleanT = Some \<lparr>dm_precision = 1, dm_scale = 0\<rparr>"
| "new_for_datatype_id Int8T = Some \<lparr>dm_precision = 3, dm_scale = 0\<rparr>"
| "new_for_datatype_id Int16T = Some \<lparr>dm_precision = 5, dm_scale = 0\<rparr>"
| "new_for_datatype_id Int32T = Some \<lparr>dm_precision = 10, dm_scale = 0\<rparr>"
| "new_for_datatype_id Int64T = Some \<lparr>dm_precision = 19, dm_scale = 0\<rparr>"
| "new_for_datatype_id Int128T = Some \<lparr>dm_precision = 38, dm_scale = 0\<rparr>"
| "new_for_datatype_id UInt8T = Some \<lparr>dm_precision = 3, dm_scale = 0\<rparr>"
| "new_for_datatype_id UInt16T = Some \<lparr>dm_precision = 5, dm_scale = 0\<rparr>"
| "new_for_datatype_id UInt32T = Some \<lparr>dm_precision = 10, dm_scale = 0\<rparr>"
| "new_for_datatype_id UInt64T = Some \<lparr>dm_precision = 19, dm_scale = 0\<rparr>"
| "new_for_datatype_id UInt128T = Some \<lparr>dm_precision = 38, dm_scale = 0\<rparr>"
| "new_for_datatype_id _ = None"

section \<open>Decimals\<close>

text \<open>
  The two implementations of \<open>DecimalType\<close> differ in the width of the primitive and in the
  maximal precision.
\<close>

datatype decimal_kind = Decimal64K | Decimal128K

fun max_precision :: "decimal_kind \<Rightarrow> nat" where
  "max_precision Decimal64K = 18"
| "max_precision Decimal128K = 38"

fun default_scale :: "decimal_kind \<Rightarrow> int" where
  "default_scale Decimal64K = 3"
| "default_scale Decimal128K = 9"

fun decimal_width :: "decimal_kind \<Rightarrow> nat" where
  "decimal_width Decimal64K = 64"
| "decimal_width Decimal128K = 128"

fun datatype_from_decimal_meta :: "decimal_kind \<Rightarrow> decimal_meta \<Rightarrow> data_type" where
  "datatype_from_decimal_meta Decimal64K m = decimal64_type m"
| "datatype_from_decimal_meta Decimal128K m = decimal128_type m"

definition decimal_meta_opt :: "data_type \<Rightarrow> decimal_meta option" where
  "decimal_meta_opt t = (case type_meta t of MetaDecimal m \<Rightarrow> Some m | _ \<Rightarrow> None)"

definition try_decimal_meta :: "data_type \<Rightarrow> decimal_meta result" where
  "try_decimal_meta t = (case decimal_meta_opt t of
      Some m \<Rightarrow> Inr m
    | None \<Rightarrow> Inl (DbError ''Failed to unwrap decimal type meta''))"

text \<open>The base 10 logarithm, rounded down, of a positive number.\<close>

fun ilog10 :: "nat \<Rightarrow> nat" where
  "ilog10 n = (if n < 10 then 0 else Suc (ilog10 (n div 10)))"

declare ilog10.simps [simp del]

text \<open>
  \<open>abs\<close> overflows on the smallest value of the primitive; the source panics there.
\<close>

definition validate_precision :: "decimal_kind \<Rightarrow> int \<Rightarrow> nat \<Rightarrow> unit result" where
  "validate_precision k value precision =
     (if precision > max_precision k then Inl (DbError ''Precision is greater than max precision'')
      else if value = 0 then Inr ()
      else if value = - (2 ^ (decimal_width k - 1)) then Inl (Panic ''attempt to negate with overflow'')
      else let digits = ilog10 (nat \<bar>value\<bar>) + 1
           in if digits > precision then Inl (DbError ''value cannot be stored'')
              else Inr ())"

section \<open>Cast targets and physical types\<close>

definition decimal_cast_type :: "decimal_kind \<Rightarrow> data_type_id \<Rightarrow> data_type_id \<Rightarrow> data_type result" where
  "decimal_cast_type k from_id to =
     (case new_for_datatype_id from_id of
        None \<Rightarrow> Inl (DbError ''Cannot create decimal datatype for cast'')
      | Some meta \<Rightarrow> bind_result (validate_precision k 0 (dm_precision meta))
          (\<lambda>_. Inr (DataType to (MetaDecimal meta))))"

fun try_generate_cast_datatype :: "data_type \<Rightarrow> data_type_id \<Rightarrow> data_type result" where
  "try_generate_cast_datatype from AnyT = Inl (DbError ''Cannot cast to Any'')"
| "try_generate_cast_datatype from TableT = Inl (DbError ''Cannot cast to Table'')"
| "try_generate_cast_datatype from Decimal64T =
     (case type_id from of
        Decimal64T \<Rightarrow> Inr from
      | other \<Rightarrow> decimal_cast_type Decimal64K other Decimal64T)"
| "try_generate_cast_datatype from Decimal128T =
     (case type_id from of
        Decimal64T \<Rightarrow> Inr (DataType Decimal128T (type_meta from))
      | Decimal128T \<Rightarrow> Inr (DataType Decimal128T (type_meta from))
      | other \<Rightarrow> decimal_cast_type Decimal128K other Decimal128T)"
| "try_generate_cast_datatype from TimestampT = Inr (timestamp_type Microsecond)"
| "try_generate_cast_datatype from StructT = Inl (DbError ''Cannot create a default Struct datatype'')"
| "try_generate_cast_datatype from ListT = Inl (DbError ''Cannot create a default List datatype'')"
| "try_generate_cast_datatype from to = Inr (new_primitive to)"

datatype physical_type =
    PhysUntypedNull | PhysBoolean
  | PhysInt8 | PhysInt16 | PhysInt32 | PhysInt64 | PhysInt128
  | PhysUInt8 | PhysUInt16 | PhysUInt32 | PhysUInt64 | PhysUInt128
  | PhysFloat16 | PhysFloat32 | PhysFloat64
  | PhysInterval | PhysUtf8 | PhysBinary | PhysList | PhysStruct

fun physical_type_of :: "data_type_id \<Rightarrow> physical_type result" where
  "physical_type_of NullT = Inr PhysUntypedNull"
| "physical_type_of BooleanT = Inr PhysBoolean"
| "physical_type_of Int8T = Inr PhysInt8"
| "physical_type_of Int16T = Inr PhysInt16"
| "physical_type_of Int32T = Inr PhysInt32"
| "physical_type_of Int64T = Inr PhysInt64"
| "physical_type_of Int128T = Inr PhysInt128"
| "physical_type_of UInt8T = Inr PhysUInt8"
| "physical_type_of UInt16T = Inr PhysUInt16"
| "physical_type_of UInt32T = Inr PhysUInt32"
| "physical_type_of UInt64T = Inr PhysUInt64"
| "physical_type_of UInt128T = Inr PhysUInt128"
| "physical_type_of Float16T = Inr PhysFloat16"
| "physical_type_of Float32T = Inr PhysFloat32"
| "physical_type_of Float64T = Inr PhysFloat64"
| "physical_type_of Decimal64T = Inr PhysInt64"
| "physical_type_of Decimal128T = Inr PhysInt128"
| "physical_type_of TimestampT = Inr PhysInt64"
| "physical_type_of Date32T = Inr PhysInt32"
| "physical_type_of Date64T = Inr PhysInt64"
| "physical_type_of IntervalT = Inr PhysInterval"
| "physical_type_of Utf8T = Inr PhysUtf8"
| "physical_type_of BinaryT = Inr PhysBinary"
| "physical_type_of StructT = Inr PhysStruct"
| "physical_type_of ListT = Inr PhysList"
| "physical_type_of _ = Inl (DbError ''Cannot get physical type'')"

fun is_numeric :: "data_type_id \<Rightarrow> bool" where
  "is_numeric Int8T = True" | "is_numeric Int16T = True" | "is_numeric Int32T = True"
| "is_numeric Int64T = True" | "is_numeric Int128T = True"
| "is_numeric UInt8T = True" | "is_numeric UInt16T = True" | "is_numeric UInt32T = True"
| "is_numeric UInt64T = True" | "is_numeric UInt128T = True"
| "is_numeric Float32T = True" | "is_numeric Float64T = True"
| "is_numeric Decimal64T = True" | "is_numeric Decimal128T = True"
| "is_numeric _ = False"

definition try_get_list_type_meta :: "data_type \<Rightarrow> data_type result" where
  "try_get_list_type_meta t = (case type_meta t of
      MetaList e \<Rightarrow> Inr e
    | _ \<Rightarrow> Inl (DbError ''Cannot get list type meta from metadata''))"

section \<open>Scalar values\<close>

record decimal_scalar =
  ds_precision :: nat
  ds_scale :: int
  ds_value :: int

record timestamp_scalar =
  ts_unit :: time_unit
  ts_value :: "64 word"

record interval =
  iv_months :: "32 word"
  iv_days :: "32 word"
  iv_nanos :: "64 word"

datatype scalar_value =
    SvNull
  | SvBoolean bool
  | SvFloat16 "16 word" | SvFloat32 "32 word" | SvFloat64 "64 word"
  | SvInt8 "8 word" | SvInt16 "16 word" | SvInt32 "32 word" | SvInt64 "64 word" | SvInt128 "128 word"
  | SvUInt8 "8 word" | SvUInt16 "16 word" | SvUInt32 "32 word" | SvUInt64 "64 word" | SvUInt128 "128 word"
  | SvDecimal64 decimal_scalar | SvDecimal128 decimal_scalar
  | SvDate32 "32 word" | SvDate64 "64 word"
  | SvTimestamp timestamp_scalar
  | SvInterval interval
  | SvUtf8 string
  | SvBinary "8 word list"
  | SvStruct "scalar_value list"
  | SvList "scalar_value list"

fun scalar_datatype :: "scalar_value \<Rightarrow> data_type result" where
  "scalar_datatype SvNull = Inr (new_primitive NullT)"
| "scalar_datatype (SvBoolean _) = Inr (new_primitive BooleanT)"
| "scalar_datatype (SvFloat16 _) = Inr (new_primitive Float16T)"
| "scalar_datatype (SvFloat32 _) = Inr (new_primitive Float32T)"
| "scalar_datatype (SvFloat64 _) = Inr (new_primitive Float64T)"
| "scalar_datatype (SvInt8 _) = Inr (new_primitive Int8T)"
| "scalar_datatype (SvInt16 _) = Inr (new_primitive Int16T)"
| "scalar_datatype (SvInt32 _) = Inr (new_primitive Int32T)"
| "scalar_datatype (SvInt64 _) = Inr (new_primitive Int64T)"
| "scalar_datatype (SvInt128 _) = Inr (new_primitive Int128T)"
| "scalar_datatype (SvUInt8 _) = Inr (new_primitive UInt8T)"
| "scalar_datatype (SvUInt16 _) = Inr (new_primitive UInt16T)"
| "scalar_datatype (SvUInt32 _) = Inr (new_primitive UInt32T)"
| "scalar_datatype (SvUInt64 _) = Inr (new_primitive UInt64T)"
| "scalar_datatype (SvUInt128 _) = Inr (new_primitive UInt128T)"
| "scalar_datatype (SvDecimal64 v) =
     Inr (decimal64_type \<lparr>dm_precision = ds_precision v, dm_scale = ds_scale v\<rparr>)"
| "scalar_datatype (SvDecimal128 v) =
     Inr (decimal128_type \<lparr>dm_precision = ds_precision v, dm_scale = ds_scale v\<rparr>)"
| "scalar_datatype (SvDate32 _) = Inr (new_primitive Date32T)"
| "scalar_datatype (SvDate64 _) = Inr (new_primitive Date64T)"
| "scalar_datatype (SvTimestamp v) = Inr (timestamp_type (ts_unit v))"
| "scalar_datatype (SvInterval _) = Inr (new_primitive IntervalT)"
| "scalar_datatype (SvUtf8 _) = Inr (new_primitive Utf8T)"
| "scalar_datatype (SvBinary _) = Inr (new_primitive BinaryT)"
| "scalar_datatype (SvStruct _) = Inl (Panic ''not implemented'')"
| "scalar_datatype (SvList []) = Inr (list_type (new_primitive NullT))"
| "scalar_datatype (SvList (first # _)) =
     bind_result (scalar_datatype first) (\<lambda>t. Inr (list_type t))"

definition scalar_is_null :: "scalar_value \<Rightarrow> bool" where
  "scalar_is_null v \<longleftrightarrow> v = SvNull"

fun try_as_bool :: "scalar_value \<Rightarrow> bool result" where
  "try_as_bool (SvBoolean b) = Inr b"
| "try_as_bool _ = Inl (DbError ''Not a bool'')"

text \<open>\<open>usize::try_from\<close> fails on negative values; \<open>usize\<close> has 64 bits.\<close>

definition usize_of_int :: "int \<Rightarrow> 64 word result" where
  "usize_of_int i =
     (if i < 0 then Inl (DbError ''out of range integral type conversion attempted'')
      else Inr (word_of_int i))"

fun try_as_usize :: "scalar_value \<Rightarrow> 64 word result" where
  "try_as_usize (SvInt8 i) = usize_of_int (sint i)"
| "try_as_usize (SvInt16 i) = usize_of_int (sint i)"
| "try_as_usize (SvInt32 i) = usize_of_int (sint i)"
| "try_as_usize (SvInt64 i) = usize_of_int (sint i)"
| "try_as_usize (SvUInt8 i) = Inr (ucast i)"
| "try_as_usize (SvUInt16 i) = Inr (ucast i)"
| "try_as_usize (SvUInt32 i) = Inr (ucast i)"
| "try_as_usize (SvUInt64 i) = Inr i"
| "try_as_usize _ = Inl (DbError ''Not an integer'')"

fun try_as_i64 :: "scalar_value \<Rightarrow> 64 word result" where
  "try_as_i64 (SvInt8 i) = Inr (scast i)"
| "try_as_i64 (SvInt16 i) = Inr (scast i)"
| "try_as_i64 (SvInt32 i) = Inr (scast i)"
| "try_as_i64 (SvInt64 i) = Inr i"
| "try_as_i64 (SvUInt8 i) = Inr (ucast i)"
| "try_as_i64 (SvUInt16 i) = Inr (ucast i)"
| "try_as_i64 (SvUInt32 i) = Inr (ucast i)"
| "try_as_i64 (SvUInt64 i) =
     (if uint i < 2 ^ 63 - 1 then Inr i else Inl (DbError ''u64 too large to fit into an i64''))"
| "try_as_i64 _ = Inl (DbError ''Not an integer'')"

fun try_as_i32 :: "scalar_value \<Rightarrow> 32 word result" where
  "try_as_i32 (SvInt8 i) = Inr (scast i)"
| "try_as_i32 (SvInt16 i) = Inr (scast i)"
| "try_as_i32 (SvInt32 i) = Inr i"
| "try_as_i32 (SvInt64 i) =
     (if sint i < 2 ^ 31 - 1 then Inr (ucast i) else Inl (DbError ''i64 too large to fit into an i32''))"
| "try_as_i32 (SvUInt8 i) = Inr (ucast i)"
| "try_as_i32 (SvUInt16 i) = Inr (ucast i)"
| "try_as_i32 (SvUInt32 i) =
     (if uint i < 2 ^ 31 - 1 then Inr i else Inl (DbError ''u32 too large to fit into an i32''))"
| "try_as_i32 (SvUInt64 i) =
     (if uint i < 2 ^ 31 - 1 then Inr (ucast i) else Inl (DbError ''u64 too large to fit into an i32''))"
| "try_as_i32 _ = Inl (DbError ''Not an integer'')"

fun try_into_string :: "scalar_value \<Rightarrow> string result" where
  "try_into_string (SvUtf8 v) = Inr v"
| "try_into_string _ = Inl (DbError ''Not a string'')"

section \<open>Lemmas\<close>

subsection \<open>Decimal precision\<close>

lemma ilog10_less: "0 < n \<Longrightarrow> ilog10 n < p \<longleftrightarrow> n < 10 ^ p"
proof (induction p arbitrary: n)
  case (Suc p)
  show ?case
  proof (cases "n < 10")
    case True
    moreover have "10 \<le> 10 * (10 :: nat) ^ p" by simp
    ultimately have "n < 10 * 10 ^ p" by linarith
    then show ?thesis using True by (simp add: ilog10.simps [of n])
  next
    case False
    then have "ilog10 n < Suc p \<longleftrightarrow> n div 10 < 10 ^ p"
      using Suc.IH [of "n div 10"] by (simp add: ilog10.simps [of n])
    then show ?thesis by (simp add: div_less_iff_less_mult mult.commute)
  qed
qed simp

lemma validate_precision_ok:
  "validate_precision k v p = Inr () \<longleftrightarrow>
     p \<le> max_precision k \<and> v \<noteq> - (2 ^ (decimal_width k - 1)) \<and> \<bar>v\<bar> < 10 ^ p"
proof (cases "v = 0")
  case True
  then show ?thesis by (cases k) (auto simp: validate_precision_def)
next
  case False
  then have "ilog10 (nat \<bar>v\<bar>) < p \<longleftrightarrow> nat \<bar>v\<bar> < 10 ^ p" by (intro ilog10_less) simp
  also have "\<dots> \<longleftrightarrow> \<bar>v\<bar> < 10 ^ p" by (simp add: nat_less_iff)
  finally show ?thesis using False by (auto simp: validate_precision_def Let_def not_less)
qed

text \<open>The smallest value of the primitive has more digits than any allowed precision.\<close>

lemma smallest_not_storable:
  assumes "p \<le> max_precision k"
  shows "\<not> \<bar>- (2 ^ (decimal_width k - 1)) :: int\<bar> < 10 ^ p"
proof -
  have "(10 :: int) ^ p \<le> 10 ^ max_precision k" using assms by (intro power_increasing) simp_all
  moreover have "(10 :: int) ^ max_precision k \<le> 2 ^ (decimal_width k - 1)" by (cases k) simp_all
  ultimately have "(10 :: int) ^ p \<le> 2 ^ (decimal_width k - 1)" by (rule order_trans)
  then show ?thesis by simp
qed

lemma validate_precision_panics:
  "is_panic (validate_precision k v p) \<longleftrightarrow> p \<le> max_precision k \<and> v = - (2 ^ (decimal_width k - 1))"
  by (auto simp: validate_precision_def Let_def)

subsection \<open>Integer conversions\<close>

text \<open>The integer a scalar denotes, for the types the conversions accept.\<close>

fun scalar_int :: "scalar_value \<Rightarrow> int option" where
  "scalar_int (SvInt8 i) = Some (sint i)"
| "scalar_int (SvInt16 i) = Some (sint i)"
| "scalar_int (SvInt32 i) = Some (sint i)"
| "scalar_int (SvInt64 i) = Some (sint i)"
| "scalar_int (SvUInt8 i) = Some (uint i)"
| "scalar_int (SvUInt16 i) = Some (uint i)"
| "scalar_int (SvUInt32 i) = Some (uint i)"
| "scalar_int (SvUInt64 i) = Some (uint i)"
| "scalar_int _ = None"

lemmas word_conversions = sint_scast_up sint_ucast_up

lemma sint_small_unsigned: "uint (i :: 64 word) < 2 ^ 63 \<Longrightarrow> sint i = uint i"
  by (simp add: sint_uint signed_take_bit_id_iff order_trans [of "- _" 0])

lemma sint_small_unsigned32: "uint (i :: 32 word) < 2 ^ 31 \<Longrightarrow> sint i = uint i"
  by (simp add: sint_uint signed_take_bit_id_iff order_trans [of "- _" 0])

lemma sint_narrow: "sint (ucast (i :: 64 word) :: 32 word) = signed_take_bit 31 (sint i)"
  by transfer (simp add: signed_take_bit_take_bit)

lemma above_i32_min [simp]:
  "- 2147483648 \<le> sint (i8 :: 8 word)" "- 2147483648 \<le> sint (i16 :: 16 word)"
  "- 2147483648 \<le> sint (i32 :: 32 word)" "- 2147483648 \<le> uint (u :: 'a::len word)"
  using sint_ge [of i8] sint_ge [of i16] sint_ge [of i32] order_trans [of "- 2147483648" 0 "uint u"]
  by simp_all

section \<open>Properties\<close>

text \<open>
  C18. A decimal value passes the precision check exactly when the precision is allowed for the
  type and the value has at most that many decimal digits. The check panics exactly when the
  precision is allowed and the value is the smallest one of the primitive, whose absolute value
  overflows; every other value is answered by \<open>Ok\<close> or by an error value.
\<close>

theorem validate_precision_digits:
  "(validate_precision k v p = Inr () \<longleftrightarrow> p \<le> max_precision k \<and> \<bar>v\<bar> < 10 ^ p) \<and>
   (is_panic (validate_precision k v p) \<longleftrightarrow> p \<le> max_precision k \<and> v = - (2 ^ (decimal_width k - 1)))"
  using validate_precision_ok [of k v p] smallest_not_storable [of p k] validate_precision_panics [of k v p]
  by auto

text \<open>
  C19. A conversion to \<open>i64\<close> that succeeds is exact: the word denotes the integer of the scalar,
  for every signed and unsigned source type.
\<close>

theorem try_as_i64_exact:
  assumes "try_as_i64 v = Inr w"
  shows "scalar_int v = Some (sint w)"
  using assms by (cases v) (auto simp: word_conversions sint_small_unsigned split: if_splits)

theorem try_as_i64_exact_witness:
  "try_as_i64 (SvUInt64 5) = Inr 5 \<and> scalar_int (SvUInt64 5) = Some (sint (5 :: 64 word))"
  using try_as_i64_exact [of "SvUInt64 5" 5] by simp

text \<open>
  C20. A conversion to \<open>i32\<close> that succeeds is exact if and only if the integer is not below the
  smallest \<open>i32\<close>. The source checks only the upper bound of an \<open>Int64\<close>, so smaller values are
  truncated silently.
\<close>

theorem try_as_i32_exact_iff:
  assumes "try_as_i32 v = Inr w" and "scalar_int v = Some i"
  shows "sint w = i \<longleftrightarrow> - (2 ^ 31) \<le> i"
  using assms
  by (cases v) (auto simp: word_conversions sint_small_unsigned sint_small_unsigned32 sint_narrow
      signed_take_bit_id_iff split: if_splits)

theorem try_as_i32_exact_iff_witness:
  "try_as_i32 (SvInt64 (- 3000000000)) = Inr (ucast (- 3000000000 :: 64 word)) \<and>
   sint (ucast (- 3000000000 :: 64 word) :: 32 word) \<noteq> - 3000000000"
  using try_as_i32_exact_iff [of "SvInt64 (- 3000000000)" "ucast (- 3000000000 :: 64 word)" "- 3000000000"]
  by simp

text \<open>The values of an integer type.\<close>

fun int_range :: "data_type_id \<Rightarrow> int set" where
  "int_range BooleanT = {0..1}"
| "int_range Int8T = {- (2 ^ 7)..<2 ^ 7}"
| "int_range Int16T = {- (2 ^ 15)..<2 ^ 15}"
| "int_range Int32T = {- (2 ^ 31)..<2 ^ 31}"
| "int_range Int64T = {- (2 ^ 63)..<2 ^ 63}"
| "int_range Int128T = {- (2 ^ 127)..<2 ^ 127}"
| "int_range UInt8T = {0..<2 ^ 8}"
| "int_range UInt16T = {0..<2 ^ 16}"
| "int_range UInt32T = {0..<2 ^ 32}"
| "int_range UInt64T = {0..<2 ^ 64}"
| "int_range UInt128T = {0..<2 ^ 128}"
| "int_range _ = {}"

text \<open>
  C21. The decimal that \<open>new_for_datatype_id\<close> chooses for an integer type can represent every
  value of that type, except for the two 128-bit types (as the source documents) and for
  \<open>UInt64\<close>, whose largest value has 20 digits while the chosen precision is 19.
\<close>

theorem decimal_for_integer_type:
  assumes "new_for_datatype_id t = Some m"
  shows "(\<forall>i \<in> int_range t. \<bar>i\<bar> < 10 ^ dm_precision m) \<longleftrightarrow> t \<notin> {UInt64T, Int128T, UInt128T}"
proof -
  have "\<exists>i \<in> int_range UInt64T. \<not> \<bar>i\<bar> < 10 ^ 19" by (rule bexI [of _ "2 ^ 64 - 1"]) simp_all
  moreover have "\<exists>i \<in> int_range Int128T. \<not> \<bar>i\<bar> < 10 ^ 38" by (rule bexI [of _ "2 ^ 127 - 1"]) simp_all
  moreover have "\<exists>i \<in> int_range UInt128T. \<not> \<bar>i\<bar> < 10 ^ 38" by (rule bexI [of _ "2 ^ 128 - 1"]) simp_all
  ultimately show ?thesis using assms by (cases t) auto
qed

theorem decimal_for_integer_type_witness:
  "new_for_datatype_id UInt64T = Some \<lparr>dm_precision = 19, dm_scale = 0\<rparr> \<and>
   (\<exists>i \<in> int_range UInt64T. \<not> \<bar>i\<bar> < 10 ^ 19)"
  using decimal_for_integer_type [of UInt64T "\<lparr>dm_precision = 19, dm_scale = 0\<rparr>"]
  by (simp del: int_range.simps)

text \<open>
  The metadata of a type fits its id: a decimal carries decimal metadata within the maximal
  precision of its kind, a timestamp a unit, a struct its fields, a list its element type, and
  every other type nothing.
\<close>

definition type_ok :: "data_type \<Rightarrow> bool" where
  "type_ok t \<longleftrightarrow>
     (case type_meta t of
        MetaDecimal m \<Rightarrow> type_id t = Decimal64T \<and> dm_precision m \<le> max_precision Decimal64K \<or>
          type_id t = Decimal128T \<and> dm_precision m \<le> max_precision Decimal128K
      | MetaTimestamp _ \<Rightarrow> type_id t = TimestampT
      | MetaStruct _ \<Rightarrow> type_id t = StructT
      | MetaList _ \<Rightarrow> type_id t = ListT
      | MetaNone \<Rightarrow> type_id t \<notin> {Decimal64T, Decimal128T, TimestampT, StructT, ListT})"

lemma decimal_cast_datatype:
  "try_generate_cast_datatype from Decimal64T =
     (if type_id from = Decimal64T then Inr from else decimal_cast_type Decimal64K (type_id from) Decimal64T)"
  "try_generate_cast_datatype from Decimal128T =
     (if type_id from \<in> {Decimal64T, Decimal128T} then Inr (DataType Decimal128T (type_meta from))
      else decimal_cast_type Decimal128K (type_id from) Decimal128T)"
  by (cases "type_id from"; simp)+

declare try_generate_cast_datatype.simps(3,4) [simp del]

lemma decimal_cast_type_ok:
  "decimal_cast_type k i to = Inr t \<Longrightarrow>
     type_id t = to \<and> (\<exists>m. type_meta t = MetaDecimal m \<and> dm_precision m \<le> max_precision k)"
  by (auto simp: decimal_cast_type_def bind_result_eq_Inr validate_precision_def split: option.splits if_splits)

lemma cast_datatype_id:
  assumes "try_generate_cast_datatype from to = Inr t"
  shows "type_id t = to"
proof (cases "to \<in> {Decimal64T, Decimal128T}")
  case True
  then show ?thesis
    using assms decimal_cast_type_ok [of Decimal64K "type_id from" Decimal64T t]
      decimal_cast_type_ok [of Decimal128K "type_id from" Decimal128T t]
    by (auto simp: decimal_cast_datatype split: if_splits)
next
  case False
  then show ?thesis using assms by (cases to) (auto simp: new_primitive_def timestamp_type_def)
qed

lemma decimal_cast_datatype_ok:
  assumes "try_generate_cast_datatype from to = Inr t" and "type_ok from" and "to \<in> {Decimal64T, Decimal128T}"
  shows "type_ok t"
  using assms decimal_cast_type_ok [of Decimal64K "type_id from" Decimal64T t]
    decimal_cast_type_ok [of Decimal128K "type_id from" Decimal128T t]
  by (cases "type_meta from") (auto simp: decimal_cast_datatype type_ok_def split: if_splits)

lemma plain_cast_datatype_ok:
  "try_generate_cast_datatype from to = Inr t \<Longrightarrow> to \<notin> {Decimal64T, Decimal128T} \<Longrightarrow> type_ok t"
  by (cases to) (auto simp: type_ok_def new_primitive_def timestamp_type_def)

text \<open>
  C22. When a data type for an implicit cast can be generated, it has the requested type id and
  its metadata fits that id (for a decimal: decimal metadata with a precision the target can
  store), provided the metadata of the source type fits its id.
\<close>

theorem cast_datatype_matches:
  assumes "try_generate_cast_datatype from to = Inr t" and "type_ok from"
  shows "type_id t = to \<and> type_ok t"
  using cast_datatype_id [OF assms(1)] decimal_cast_datatype_ok [OF assms] plain_cast_datatype_ok [OF assms(1)]
  by blast

theorem cast_datatype_matches_witness:
  "try_generate_cast_datatype (decimal64_type \<lparr>dm_precision = 12, dm_scale = 2\<rparr>) Decimal128T =
     Inr (decimal128_type \<lparr>dm_precision = 12, dm_scale = 2\<rparr>) \<and>
   type_ok (decimal64_type \<lparr>dm_precision = 12, dm_scale = 2\<rparr>) \<and>
   type_id (decimal128_type \<lparr>dm_precision = 12, dm_scale = 2\<rparr>) = Decimal128T \<and>
   type_ok (decimal128_type \<lparr>dm_precision = 12, dm_scale = 2\<rparr>)"
  using cast_datatype_matches [of "decimal64_type \<lparr>dm_precision = 12, dm_scale = 2\<rparr>" Decimal128T
      "decimal128_type \<lparr>dm_precision = 12, dm_scale = 2\<rparr>"]
  by (simp add: decimal_cast_datatype decimal64_type_def decimal128_type_def type_ok_def)

end
