(* ===== verification/Expr.thy ===== *)
theory Expr
  imports Datatypes
begin

text \<open>
  Logical expressions (\<open>expr/mod.rs\<close> and the expression structs beside it): the sixteen
  variants, the visitor \<open>for_each_child\<close>, the queries and rewrites built on it, and the
  operator tables.

  Rust walks a mutable tree with a closure; here \<open>children\<close> is the list of the visited
  children in the visiting order and \<open>map_children\<close>, \<open>try_map_children\<close> rebuild the node from the
  results of the closure. A planned function is its name, return type and volatility, which
  is what the source's \<open>PartialEq\<close> compares besides the inputs. The bound query inside a
  subquery expression is not modelled; the subquery is known by its bind scope.
\<close>

section \<open>Operators and leaves\<close>

datatype conjunction_operator = ConjAnd | ConjOr

datatype comparison_operator =
    CmpEq | CmpNotEq | CmpLt | CmpLtEq | CmpGt | CmpGtEq | CmpIsDistinctFrom | CmpIsNotDistinctFrom

datatype arith_operator = ArithAdd | ArithSub | ArithDiv | ArithMul | ArithMod

datatype is_operator = IsTrue | IsFalse | IsNull | IsNotNull

datatype negate_operator = NegNot | NegNegate

fun conjunction_function_set :: "conjunction_operator \<Rightarrow> string" where
  "conjunction_function_set ConjAnd = ''and''"
| "conjunction_function_set ConjOr = ''or''"

fun comparison_function_set :: "comparison_operator \<Rightarrow> string" where
  "comparison_function_set CmpEq = ''=''"
| "comparison_function_set CmpNotEq = ''!=''"
| "comparison_function_set CmpLt = ''<''"
| "comparison_function_set CmpLtEq = ''<=''"
| "comparison_function_set CmpGt = ''>''"
| "comparison_function_set CmpGtEq = ''>=''"
| "comparison_function_set CmpIsDistinctFrom = ''is_distinct_from''"
| "comparison_function_set CmpIsNotDistinctFrom = ''is_not_distinct_from''"

fun arith_function_set :: "arith_operator \<Rightarrow> string" where
  "arith_function_set ArithAdd = ''+''"
| "arith_function_set ArithSub = ''-''"
| "arith_function_set ArithDiv = ''/''"
| "arith_function_set ArithMul = ''*''"
| "arith_function_set ArithMod = ''%''"

fun negate_function_set :: "negate_operator \<Rightarrow> string" where
  "negate_function_set NegNot = ''not''"
| "negate_function_set NegNegate = ''negate''"

text \<open>\<open>ComparisonOperator::flip\<close> and \<open>ComparisonOperator::negate\<close>, as written.\<close>

fun flip :: "comparison_operator \<Rightarrow> comparison_operator" where
  "flip CmpEq = CmpEq"
| "flip CmpNotEq = CmpNotEq"
| "flip CmpLt = CmpGt"
| "flip CmpLtEq = CmpGtEq"
| "flip CmpGt = CmpLt"
| "flip CmpGtEq = CmpLtEq"
| "flip CmpIsDistinctFrom = CmpIsDistinctFrom"
| "flip CmpIsNotDistinctFrom = CmpIsDistinctFrom"

fun negate_comparison :: "comparison_operator \<Rightarrow> comparison_operator" where
  "negate_comparison CmpEq = CmpNotEq"
| "negate_comparison CmpNotEq = CmpEq"
| "negate_comparison CmpLt = CmpGtEq"
| "negate_comparison CmpLtEq = CmpGt"
| "negate_comparison CmpGt = CmpLtEq"
| "negate_comparison CmpGtEq = CmpLt"
| "negate_comparison CmpIsDistinctFrom = CmpIsNotDistinctFrom"
| "negate_comparison CmpIsNotDistinctFrom = CmpIsDistinctFrom"

type_synonym table_ref = nat

datatype column_reference = ColumnReference (table_scope: table_ref) (column: nat)

datatype column_expr = ColumnExpr (reference: column_reference) (col_datatype: data_type)

datatype function_volatility = Volatile | Consistent

record planned_function =
  pf_name :: string
  pf_return_type :: data_type
  pf_volatility :: function_volatility

record planned_aggregate =
  pa_name :: string
  pa_return_type :: data_type

record planned_cast =
  pc_name :: string
  pc_src :: data_type_id

datatype window_frame_unit = FrameRows | FrameRange | FrameGroups

datatype window_frame_exclusion =
  ExcludeCurrentRow | ExcludeGroup | ExcludeTies | ExcludeNoOthers

datatype window_frame_bound =
    UnboundedPreceding window_frame_unit
  | Preceding window_frame_unit int
  | UnboundedFollowing window_frame_unit
  | Following window_frame_unit int
  | CurrentRow window_frame_unit

record window_frame =
  wf_start :: window_frame_bound
  wf_end :: window_frame_bound
  wf_exclude :: window_frame_exclusion

datatype 'e subquery_type =
    SubqueryScalar
  | SubqueryExists bool
  | SubqueryAny 'e comparison_operator

datatype 'e order_by_expr = OrderByExpr (order_expr: 'e) (order_desc: bool) (order_nulls_first: bool)

datatype 'e when_then = WhenThen (wt_when: 'e) (wt_then: 'e)

section \<open>Expressions\<close>

datatype expression =
    Aggregate planned_aggregate "expression list" "expression option" bool
  | Arith arith_operator expression expression data_type
  | Between expression expression expression
  | CaseE "expression when_then list" expression data_type
  | Cast data_type expression planned_cast
  | Column column_expr
  | Comparison comparison_operator expression expression
  | Conjunction conjunction_operator "expression list"
  | Is is_operator expression
  | Literal scalar_value
  | Negate negate_operator expression
  | ScalarFunction planned_function "expression list"
  | Subquery nat "expression subquery_type" data_type
  | Window planned_aggregate "expression list" "expression list" "expression order_by_expr list" window_frame
  | Unnest expression
  | GroupingSet "expression list"

text \<open>\<open>Expression::for_each_child\<close>: a subquery has no visited children.\<close>

fun children :: "expression \<Rightarrow> expression list" where
  "children (Aggregate agg inputs filt dist) =
     inputs @ (case filt of None \<Rightarrow> [] | Some f \<Rightarrow> [f])"
| "children (Arith op l r t) = [l, r]"
| "children (Between lower upper input) = [lower, upper, input]"
| "children (CaseE cases else_expr t) = concat (map (\<lambda>c. [wt_when c, wt_then c]) cases) @ [else_expr]"
| "children (Cast to e c) = [e]"
| "children (Column c) = []"
| "children (Comparison op l r) = [l, r]"
| "children (Conjunction op es) = es"
| "children (Is op e) = [e]"
| "children (Literal v) = []"
| "children (Negate op e) = [e]"
| "children (ScalarFunction f inputs) = inputs"
| "children (Subquery b s t) = []"
| "children (Window agg inputs partition_by order_by frame) =
     inputs @ partition_by @ map order_expr order_by"
| "children (Unnest e) = [e]"
| "children (GroupingSet inputs) = inputs"

text \<open>\<open>Expression::for_each_child_mut\<close> with a closure that cannot fail.\<close>

fun map_children :: "(expression \<Rightarrow> expression) \<Rightarrow> expression \<Rightarrow> expression" where
  "map_children f (Aggregate agg inputs filt dist) = Aggregate agg (map f inputs) (map_option f filt) dist"
| "map_children f (Arith op l r t) = Arith op (f l) (f r) t"
| "map_children f (Between lower upper input) = Between (f lower) (f upper) (f input)"
| "map_children f (CaseE cases else_expr t) =
     CaseE (map (\<lambda>c. WhenThen (f (wt_when c)) (f (wt_then c))) cases) (f else_expr) t"
| "map_children f (Cast to e c) = Cast to (f e) c"
| "map_children f (Column c) = Column c"
| "map_children f (Comparison op l r) = Comparison op (f l) (f r)"
| "map_children f (Conjunction op es) = Conjunction op (map f es)"
| "map_children f (Is op e) = Is op (f e)"
| "map_children f (Literal v) = Literal v"
| "map_children f (Negate op e) = Negate op (f e)"
| "map_children f (ScalarFunction fn inputs) = ScalarFunction fn (map f inputs)"
| "map_children f (Subquery b s t) = Subquery b s t"
| "map_children f (Window agg inputs partition_by order_by frame) =
     Window agg (map f inputs) (map f partition_by)
       (map (\<lambda>ob. OrderByExpr (f (order_expr ob)) (order_desc ob) (order_nulls_first ob)) order_by) frame"
| "map_children f (Unnest e) = Unnest (f e)"
| "map_children f (GroupingSet inputs) = GroupingSet (map f inputs)"

text \<open>
  Put a list of new children, in visiting order, back into a node; with it a closure that can
  fail runs over the children left to right and stops at the first error.
\<close>

definition with_children :: "expression \<Rightarrow> expression list \<Rightarrow> expression" where
  "with_children e cs =
     (case e of
        Aggregate agg inputs filt dist \<Rightarrow>
          Aggregate agg (take (length inputs) cs) (map_option (\<lambda>_. last cs) filt) dist
      | Arith op l r t \<Rightarrow> Arith op (cs ! 0) (cs ! 1) t
      | Between lower upper input \<Rightarrow> Between (cs ! 0) (cs ! 1) (cs ! 2)
      | CaseE cases else_expr t \<Rightarrow>
          CaseE (map (\<lambda>i. WhenThen (cs ! (2 * i)) (cs ! (2 * i + 1))) [0..<length cases]) (last cs) t
      | Cast to e c \<Rightarrow> Cast to (cs ! 0) c
      | Comparison op l r \<Rightarrow> Comparison op (cs ! 0) (cs ! 1)
      | Conjunction op es \<Rightarrow> Conjunction op cs
      | Is op e \<Rightarrow> Is op (cs ! 0)
      | Negate op e \<Rightarrow> Negate op (cs ! 0)
      | ScalarFunction fn inputs \<Rightarrow> ScalarFunction fn cs
      | Window agg inputs partition_by order_by frame \<Rightarrow>
          Window agg (take (length inputs) cs)
            (take (length partition_by) (drop (length inputs) cs))
            (map2 (\<lambda>ob c. OrderByExpr c (order_desc ob) (order_nulls_first ob)) order_by
              (drop (length inputs + length partition_by) cs)) frame
      | Unnest e \<Rightarrow> Unnest (cs ! 0)
      | GroupingSet inputs \<Rightarrow> GroupingSet cs
      | leaf \<Rightarrow> leaf)"

definition try_map_children :: "(expression \<Rightarrow> expression result) \<Rightarrow> expression \<Rightarrow> expression result" where
  "try_map_children f e = bind_result (collect_results f (children e)) (\<lambda>cs. Inr (with_children e cs))"

subsection \<open>Laws of the visitor\<close>

lemma size_list_in: "x \<in> set xs \<Longrightarrow> size x < Suc (size_list size xs)"
  using size_list_estimation' [of x xs "size x" size] by simp

lemma children_size: "c \<in> set (children e) \<Longrightarrow> size c < size e"
proof (cases e)
  case (CaseE cases else_expr t)
  assume "c \<in> set (children e)"
  moreover have "size (wt_when w) < size_list (size_when_then size) cases"
    "size (wt_then w) < size_list (size_when_then size) cases" if "w \<in> set cases" for w
    using size_list_estimation' [OF that, of "size (wt_when w)" "size_when_then size"]
      size_list_estimation' [OF that, of "size (wt_then w)" "size_when_then size"]
      size_list_estimation' [OF that, of "size_when_then size w" "size_when_then size"]
    by (cases w; simp)+
  ultimately show ?thesis using CaseE by fastforce
next
  case (Window agg inputs partition_by order_by frame)
  assume "c \<in> set (children e)"
  moreover have "size (order_expr w) < size_list (size_order_by_expr size) order_by" if "w \<in> set order_by" for w
    using size_list_estimation' [OF that, of "size_order_by_expr size w" "size_order_by_expr size"]
    by (cases w; simp)
  ultimately show ?thesis using Window by (fastforce dest: size_list_in)
qed (auto dest: size_list_in split: option.splits)

lemma map_children_cong [fundef_cong]:
  "e = e' \<Longrightarrow> (\<And>c. c \<in> set (children e') \<Longrightarrow> f c = g c) \<Longrightarrow> map_children f e = map_children g e'"
  by (cases e') (simp_all add: map_option_case split: option.splits, blast)

lemma try_map_children_cong [fundef_cong]:
  "e = e' \<Longrightarrow> (\<And>c. c \<in> set (children e') \<Longrightarrow> f c = g c) \<Longrightarrow> try_map_children f e = try_map_children g e'"
  unfolding try_map_children_def by (auto cong: collect_results_cong)

lemma children_map_children: "children (map_children f e) = map f (children e)"
  by (cases e) (auto simp: map_concat comp_def split: option.splits)

lemma nth_pairs:
  "i < length xs \<Longrightarrow> (concat (map (\<lambda>c. [f c, g c]) xs) @ ys) ! (2 * i) = f (xs ! i)"
  "i < length xs \<Longrightarrow> (concat (map (\<lambda>c. [f c, g c]) xs) @ ys) ! Suc (2 * i) = g (xs ! i)"
proof (induction xs arbitrary: i)
  case (Cons x xs)
  {
    case 1
    then show ?case using Cons.IH(1) [of "i - 1"] by (cases i) simp_all
  next
    case 2
    then show ?case using Cons.IH(2) [of "i - 1"] by (cases i) simp_all
  }
qed simp_all

lemma with_children_map: "with_children e (map f (children e)) = map_children f e"
proof (cases e)
  case (CaseE cases else_expr t)
  let ?cs = "concat (map (\<lambda>c. [f (wt_when c), f (wt_then c)]) cases) @ [f else_expr]"
  have "map f (children e) = ?cs"
    using CaseE by (simp add: map_concat comp_def)
  moreover have "map (\<lambda>i. WhenThen (?cs ! (2 * i)) (?cs ! Suc (2 * i))) [0..<length cases] =
      map (\<lambda>c. WhenThen (f (wt_when c)) (f (wt_then c))) cases"
    by (rule nth_equalityI) (simp_all only: length_map length_upt nth_map nth_upt nth_pairs, simp_all)
  ultimately show ?thesis using CaseE by (simp add: with_children_def)
next
  case (Window agg inputs partition_by order_by frame)
  have "map2 (\<lambda>ob c. OrderByExpr c (order_desc ob) (order_nulls_first ob)) order_by
      (map (\<lambda>ob. f (order_expr ob)) order_by) =
    map (\<lambda>ob. OrderByExpr (f (order_expr ob)) (order_desc ob) (order_nulls_first ob)) order_by"
    by (rule nth_equalityI) simp_all
  then show ?thesis using Window by (simp add: with_children_def comp_def)
qed (auto simp: with_children_def split: option.splits)

lemma try_map_children_Inr:
  "(\<And>c. c \<in> set (children e) \<Longrightarrow> f c = Inr (g c)) \<Longrightarrow> try_map_children f e = Inr (map_children g e)"
  using collect_results_cong [of "children e" "children e" f "\<lambda>c. Inr (g c)"]
  by (simp add: try_map_children_def with_children_map)

lemma try_map_children_eq_Inr:
  assumes "try_map_children f e = Inr e'"
  shows "\<exists>g. e' = map_children g e \<and> (\<forall>c \<in> set (children e). f c = Inr (g c))"
proof -
  obtain cs where cs: "collect_results f (children e) = Inr cs" "e' = with_children e cs"
    using assms by (auto simp: try_map_children_def bind_result_eq_Inr)
  let ?g = "\<lambda>c. case f c of Inr d \<Rightarrow> d | Inl _ \<Rightarrow> c"
  have "list_all2 (\<lambda>x y. f x = Inr y) (children e) cs"
    using cs(1) by (simp add: collect_results_list_all2)
  then have g: "cs = map ?g (children e)" "\<forall>c \<in> set (children e). f c = Inr (?g c)"
    by (induction rule: list_all2_induct) auto
  have "e' = map_children ?g e" unfolding cs(2) g(1) by (rule with_children_map)
  then show ?thesis using g(2) by (intro exI [of _ ?g] conjI)
qed

section \<open>Types and queries\<close>

fun expr_datatype :: "expression \<Rightarrow> data_type result" where
  "expr_datatype (Aggregate agg inputs filt dist) = Inr (pa_return_type agg)"
| "expr_datatype (Arith op l r t) = Inr t"
| "expr_datatype (Between lower upper input) = Inr boolean_type"
| "expr_datatype (CaseE cases else_expr t) = Inr t"
| "expr_datatype (Cast to e c) = Inr to"
| "expr_datatype (Column c) = Inr (col_datatype c)"
| "expr_datatype (Comparison op l r) = Inr boolean_type"
| "expr_datatype (Conjunction op es) = Inr boolean_type"
| "expr_datatype (Is op e) = Inr boolean_type"
| "expr_datatype (Literal v) = scalar_datatype v"
| "expr_datatype (Negate NegNot e) = Inr boolean_type"
| "expr_datatype (Negate NegNegate e) = expr_datatype e"
| "expr_datatype (ScalarFunction f inputs) = Inr (pf_return_type f)"
| "expr_datatype (Subquery b s t) = Inr t"
| "expr_datatype (Window agg inputs partition_by order_by frame) = Inr (pa_return_type agg)"
| "expr_datatype (Unnest e) =
     bind_result (expr_datatype e) (\<lambda>t.
       case type_id t of
         NullT \<Rightarrow> Inr (new_primitive NullT)
       | ListT \<Rightarrow> try_get_list_type_meta t
       | _ \<Rightarrow> Inl (DbError ''Unsupported datatype for UNNEST''))"
| "expr_datatype (GroupingSet inputs) = Inr (new_primitive Int64T)"

function contains_subquery :: "expression \<Rightarrow> bool" where
  "contains_subquery e =
     (case e of Subquery _ _ _ \<Rightarrow> True | _ \<Rightarrow> list_ex contains_subquery (children e))"
  by pat_completeness auto
termination by (relation "measure size", rule wf_measure, unfold in_measure, (erule children_size)+)

function contains_unnest :: "expression \<Rightarrow> bool" where
  "contains_unnest e =
     (case e of Unnest _ \<Rightarrow> True | _ \<Rightarrow> list_ex contains_unnest (children e))"
  by pat_completeness auto
termination by (relation "measure size", rule wf_measure, unfold in_measure, (erule children_size)+)

function contains_window :: "expression \<Rightarrow> bool" where
  "contains_window e =
     (case e of Window _ _ _ _ _ \<Rightarrow> True | _ \<Rightarrow> list_ex contains_window (children e))"
  by pat_completeness auto
termination by (relation "measure size", rule wf_measure, unfold in_measure, (erule children_size)+)

text \<open>A scalar function answers for itself, without looking at its inputs.\<close>

function is_volatile :: "expression \<Rightarrow> bool" where
  "is_volatile e =
     (case e of
        ScalarFunction f inputs \<Rightarrow> pf_volatility f = Volatile
      | _ \<Rightarrow> list_ex is_volatile (children e))"
  by pat_completeness auto
termination by (relation "measure size", rule wf_measure, unfold in_measure, (erule children_size)+)

function is_const_foldable_with_column_check :: "(column_expr \<Rightarrow> bool) \<Rightarrow> expression \<Rightarrow> bool" where
  "is_const_foldable_with_column_check check_col e =
     (case e of
        Literal v \<Rightarrow> v \<noteq> SvNull
      | Column c \<Rightarrow> check_col c
      | Aggregate _ _ _ _ \<Rightarrow> False
      | Window _ _ _ _ _ \<Rightarrow> False
      | Subquery _ _ _ \<Rightarrow> False
      | ScalarFunction f inputs \<Rightarrow>
          if pf_volatility f = Volatile then False
          else list_all (is_const_foldable_with_column_check check_col) (children e)
      | _ \<Rightarrow> list_all (is_const_foldable_with_column_check check_col) (children e))"
  by pat_completeness auto
termination by (relation "measure (\<lambda>(_, e). size e)", rule wf_measure, unfold in_measure prod.case, (erule children_size)+)

definition is_const_foldable :: "expression \<Rightarrow> bool" where
  "is_const_foldable e = is_const_foldable_with_column_check (\<lambda>_. False) e"

definition is_const_foldable_with_fixed_column :: "column_reference \<Rightarrow> expression \<Rightarrow> bool" where
  "is_const_foldable_with_fixed_column fixed e =
     is_const_foldable_with_column_check (\<lambda>c. reference c = fixed) e"

function replace_column :: "column_reference \<Rightarrow> column_expr \<Rightarrow> expression \<Rightarrow> expression" where
  "replace_column from to e =
     (case e of
        Column c \<Rightarrow> if reference c = from then Column to else Column c
      | _ \<Rightarrow> map_children (replace_column from to) e)"
  by pat_completeness auto
termination by (relation "measure (\<lambda>(_, _, e). size e)", rule wf_measure, unfold in_measure prod.case, (erule children_size)+)

function get_column_references :: "expression \<Rightarrow> column_reference list" where
  "get_column_references e =
     (case e of
        Column c \<Rightarrow> [reference c]
      | _ \<Rightarrow> concat (map get_column_references (children e)))"
  by pat_completeness auto
termination by (relation "measure size", rule wf_measure, unfold in_measure, (erule children_size)+)

function get_table_references :: "expression \<Rightarrow> table_ref set" where
  "get_table_references e =
     (case e of
        Column c \<Rightarrow> {table_scope (reference c)}
      | _ \<Rightarrow> \<Union> (get_table_references ` set (children e)))"
  by pat_completeness auto
termination by (relation "measure size", rule wf_measure, unfold in_measure, (erule children_size)+)

fun try_into_scalar :: "expression \<Rightarrow> scalar_value result" where
  "try_into_scalar (Literal v) = Inr v"
| "try_into_scalar _ = Inl (DbError ''Not a literal'')"

declare contains_subquery.simps [simp del] contains_unnest.simps [simp del]
  contains_window.simps [simp del] is_volatile.simps [simp del]
  is_const_foldable_with_column_check.simps [simp del] replace_column.simps [simp del]
  get_column_references.simps [simp del] get_table_references.simps [simp del]

lemma children_induct [case_names node]:
  assumes "\<And>e. (\<And>c. c \<in> set (children e) \<Longrightarrow> P c) \<Longrightarrow> P e"
  shows "P e"
  by (induction e rule: measure_induct_rule [of size]) (auto intro: assms dest: children_size)

lemma get_column_references_Column [simp]: "get_column_references (Column c) = [reference c]"
  by (simp add: get_column_references.simps)

lemma get_column_references_node:
  "\<forall>c. e \<noteq> Column c \<Longrightarrow> get_column_references e = concat (map get_column_references (children e))"
  by (subst get_column_references.simps) (cases e; simp)

lemma get_table_references_Column [simp]: "get_table_references (Column c) = {table_scope (reference c)}"
  by (simp add: get_table_references.simps)

lemma get_table_references_node:
  "\<forall>c. e \<noteq> Column c \<Longrightarrow> get_table_references e = \<Union> (get_table_references ` set (children e))"
  by (subst get_table_references.simps) (cases e; simp)

lemma replace_column_Column:
  "replace_column from to (Column c) = (if reference c = from then Column to else Column c)"
  by (simp add: replace_column.simps)

lemma replace_column_node:
  "\<forall>c. e \<noteq> Column c \<Longrightarrow> replace_column from to e = map_children (replace_column from to) e"
  by (subst replace_column.simps) (cases e; simp)

lemma const_foldable_Column [simp]:
  "is_const_foldable_with_column_check P (Column c) = P c"
  by (simp add: is_const_foldable_with_column_check.simps)

lemma const_foldable_Literal [simp]:
  "is_const_foldable_with_column_check P (Literal v) \<longleftrightarrow> v \<noteq> SvNull"
  by (simp add: is_const_foldable_with_column_check.simps)

lemma const_foldable_children:
  "is_const_foldable_with_column_check P e \<Longrightarrow> c \<in> set (children e)
    \<Longrightarrow> is_const_foldable_with_column_check P c"
  by (subst (asm) is_const_foldable_with_column_check.simps)
    (cases e; auto simp: list_all_iff split: if_splits)

lemma map_children_not_Column: "\<forall>c. e \<noteq> Column c \<Longrightarrow> map_children f e \<noteq> Column c"
  by (cases e) simp_all

lemma table_references_columns: "get_table_references e = table_scope ` set (get_column_references e)"
proof (induction e rule: children_induct)
  case (node e)
  show ?case
  proof (cases "\<exists>c. e = Column c")
    case False
    then show ?thesis
      using node by (auto simp: get_table_references_node get_column_references_node)
  qed auto
qed

lemma column_references_replace:
  "get_column_references (replace_column from to e) =
     map (\<lambda>r. if r = from then reference to else r) (get_column_references e)"
proof (induction e rule: children_induct)
  case (node e)
  show ?case
  proof (cases "\<exists>c. e = Column c")
    case False
    then have "get_column_references (replace_column from to e) =
        concat (map (\<lambda>c. get_column_references (replace_column from to c)) (children e))"
      by (simp add: replace_column_node get_column_references_node map_children_not_Column
          children_map_children comp_def)
    also have "\<dots> = concat (map (\<lambda>c. map (\<lambda>r. if r = from then reference to else r)
        (get_column_references c)) (children e))"
      using node by (simp cong: map_cong)
    also have "\<dots> = map (\<lambda>r. if r = from then reference to else r) (get_column_references e)"
      using False by (simp add: get_column_references_node map_concat comp_def)
    finally show ?thesis .
  qed (auto simp: replace_column_Column)
qed

lemma const_foldable_references:
  "is_const_foldable_with_column_check (\<lambda>c. reference c \<in> R) e \<Longrightarrow> set (get_column_references e) \<subseteq> R"
proof (induction e rule: children_induct)
  case (node e)
  show ?case
  proof (cases "\<exists>c. e = Column c")
    case False
    then show ?thesis
      using node.IH const_foldable_children [OF node.prems] by (auto simp: get_column_references_node)
  qed (use node.prems in auto)
qed

section \<open>Comparison semantics\<close>

text \<open>
  The comparisons of \<open>functions/scalar/builtin/comparison.rs\<close> on one row. The ordinary
  comparisons go through the binary executor, which answers NULL when an input is NULL; the
  two distinctness comparisons look at the NULLs themselves.
\<close>

fun compare_non_null :: "comparison_operator \<Rightarrow> 'a::linorder \<Rightarrow> 'a \<Rightarrow> bool" where
  "compare_non_null CmpEq a b \<longleftrightarrow> a = b"
| "compare_non_null CmpNotEq a b \<longleftrightarrow> a \<noteq> b"
| "compare_non_null CmpLt a b \<longleftrightarrow> a < b"
| "compare_non_null CmpLtEq a b \<longleftrightarrow> a \<le> b"
| "compare_non_null CmpGt a b \<longleftrightarrow> b < a"
| "compare_non_null CmpGtEq a b \<longleftrightarrow> b \<le> a"
| "compare_non_null CmpIsDistinctFrom a b \<longleftrightarrow> a \<noteq> b"
| "compare_non_null CmpIsNotDistinctFrom a b \<longleftrightarrow> a = b"

fun is_distinct_from :: "'a option \<Rightarrow> 'a option \<Rightarrow> bool" where
  "is_distinct_from (Some a) (Some b) \<longleftrightarrow> a \<noteq> b"
| "is_distinct_from (Some a) None = True"
| "is_distinct_from None (Some b) = True"
| "is_distinct_from None None = False"

fun is_not_distinct_from :: "'a option \<Rightarrow> 'a option \<Rightarrow> bool" where
  "is_not_distinct_from (Some a) (Some b) \<longleftrightarrow> a = b"
| "is_not_distinct_from (Some a) None = False"
| "is_not_distinct_from None (Some b) = False"
| "is_not_distinct_from None None = True"

definition compare_rows :: "comparison_operator \<Rightarrow> 'a::linorder option \<Rightarrow> 'a option \<Rightarrow> bool option" where
  "compare_rows op a b =
     (case op of
        CmpIsDistinctFrom \<Rightarrow> Some (is_distinct_from a b)
      | CmpIsNotDistinctFrom \<Rightarrow> Some (is_not_distinct_from a b)
      | _ \<Rightarrow> (case (a, b) of (Some x, Some y) \<Rightarrow> Some (compare_non_null op x y) | _ \<Rightarrow> None))"

section \<open>Properties\<close>

text \<open>
  C16. Replacing a column in an expression replaces exactly its occurrences: the references of the
  result are those of the expression, in the same order, with every occurrence of the replaced
  column renamed.
\<close>

theorem replace_column_references:
  "get_column_references (replace_column from to e) =
     map (\<lambda>r. if r = from then reference to else r) (get_column_references e)"
  by (rule column_references_replace)

text \<open>
  C17. An expression that the optimizer considers foldable with one fixed column refers to no other
  column, at any depth; an expression it considers foldable refers to no column and to no table.
\<close>

theorem const_foldable_closed:
  "(is_const_foldable_with_fixed_column r e \<longrightarrow> set (get_column_references e) \<subseteq> {r}) \<and>
   (is_const_foldable e \<longrightarrow> get_column_references e = [] \<and> get_table_references e = {})"
  using const_foldable_references [of "{r}" e] const_foldable_references [of "{}" e]
  by (auto simp: is_const_foldable_with_fixed_column_def is_const_foldable_def table_references_columns)

theorem const_foldable_closed_witness:
  "is_const_foldable (Negate NegNot (Literal (SvBoolean True))) \<and>
   get_column_references (Negate NegNot (Literal (SvBoolean True))) = []"
  using const_foldable_closed [of "ColumnReference 0 0" "Negate NegNot (Literal (SvBoolean True))"]
  by (simp add: is_const_foldable_def is_const_foldable_with_column_check.simps)

text \<open>
  \<open>ComparisonOperator::negate\<close> is the negation of every comparison, on NULLs too, and
  \<open>ComparisonOperator::flip\<close> exchanges the operands of every comparison but one: flipping
  \<open>IS NOT DISTINCT FROM\<close> gives its opposite, on all operands.
\<close>

lemma flip_negate_comparisons:
  "compare_rows (negate_comparison op) a b = map_option Not (compare_rows op a b) \<and>
   compare_rows (flip op) b a =
     (if op = CmpIsNotDistinctFrom then map_option Not (compare_rows op a b) else compare_rows op a b)"
  for a b :: "'a::linorder option"
  by (cases op; cases a; cases b) (auto simp: compare_rows_def)

text \<open>
  The volatility test looks at the outermost scalar function only: a call of a consistent
  function is reported as not volatile whatever its arguments are, even when the constant
  folding test rejects it for a volatile argument.
\<close>

lemma is_volatile_stops_at_functions:
  assumes "pf_volatility f = Consistent" and "pf_volatility g = Volatile"
  shows "\<not> is_volatile (ScalarFunction f [ScalarFunction g xs]) \<and>
         is_volatile (ScalarFunction g xs) \<and> \<not> is_const_foldable (ScalarFunction f [ScalarFunction g xs])"
  using assms
  by (simp add: is_volatile.simps is_const_foldable_def is_const_foldable_with_column_check.simps)

lemma is_volatile_stops_at_functions_witness:
  "\<not> is_volatile (ScalarFunction \<lparr>pf_name = ''abs'', pf_return_type = new_primitive Float64T, pf_volatility = Consistent\<rparr>
      [ScalarFunction \<lparr>pf_name = ''random'', pf_return_type = new_primitive Float64T, pf_volatility = Volatile\<rparr> []])"
  using is_volatile_stops_at_functions
    [of "\<lparr>pf_name = ''abs'', pf_return_type = new_primitive Float64T, pf_volatility = Consistent\<rparr>"
      "\<lparr>pf_name = ''random'', pf_return_type = new_primitive Float64T, pf_volatility = Volatile\<rparr>" "[]"]
  by simp

end
