(* ===== verification/Signatures.thy ===== *)
theory Signatures
  imports Expr
begin

text \<open>
  Function resolution: signatures and function sets (\<open>functions/mod.rs\<close>,
  \<open>functions/function_set.rs\<close>), the search for candidate signatures with implicit casts
  (\<open>functions/candidate.rs\<close>, \<open>functions/implicit.rs\<close>), cast expressions
  (\<open>expr/cast_expr.rs\<close>) and the binding of a call (\<open>expr/mod.rs\<close>).

  The table of builtin cast functions is an argument, \<open>sets\<close>. The main lemma is that a bound
  call fits the signature that was chosen for it.
\<close>

section \<open>Signatures\<close>

record signature =
  positional_args :: "data_type_id list"
  variadic_arg :: "data_type_id option"
  return_type :: data_type_id

definition is_variadic :: "signature \<Rightarrow> bool" where
  "is_variadic sig \<longleftrightarrow> variadic_arg sig \<noteq> None"

definition exact_match :: "signature \<Rightarrow> data_type_id list \<Rightarrow> bool" where
  "exact_match sig inputs \<longleftrightarrow>
     (if is_variadic sig then \<not> length inputs < length (positional_args sig)
      else length inputs = length (positional_args sig)) \<and>
     list_all (\<lambda>(expected, have'). expected = AnyT \<or> have' = expected)
       (zip (positional_args sig) inputs) \<and>
     (case variadic_arg sig of
        None \<Rightarrow> True
      | Some expected \<Rightarrow>
          list_all (\<lambda>have'. expected \<noteq> AnyT \<and> have' = expected) (drop (length (positional_args sig)) inputs))"

record function_set =
  fs_name :: string
  fs_signatures :: "signature list"

text \<open>The first function, by index, whose signature matches exactly.\<close>

definition find_exact :: "function_set \<Rightarrow> data_type_id list \<Rightarrow> nat option" where
  "find_exact fs inputs =
     List.find (\<lambda>i. exact_match (fs_signatures fs ! i) inputs) [0..<length (fs_signatures fs)]"

section \<open>Casts\<close>

datatype cast_rule = CastExplicit | CastImplicit nat

datatype cast_flatten = FlattenSafe | FlattenUnsafe

record cast_function =
  cf_src :: data_type_id
  cf_rule :: cast_rule
  cf_flatten :: cast_flatten
  cf_bind :: "data_type \<Rightarrow> data_type \<Rightarrow> unit result"

record cast_function_set =
  cs_name :: string
  cs_target :: data_type_id
  cs_functions :: "cast_function list"

definition no_cast_score :: nat where "no_cast_score = 800"
definition to_any_score :: nat where "to_any_score = 10"
definition null_to_list_score :: nat where "null_to_list_score = 10"

fun first_implicit :: "data_type_id \<Rightarrow> cast_function list \<Rightarrow> nat option" where
  "first_implicit src [] = None"
| "first_implicit src (f # fs) =
     (if cf_src f = src then (case cf_rule f of CastImplicit score \<Rightarrow> Some score | CastExplicit \<Rightarrow> first_implicit src fs)
      else first_implicit src fs)"

fun search_cast_sets :: "cast_function_set list \<Rightarrow> data_type_id \<Rightarrow> data_type_id \<Rightarrow> nat option" where
  "search_cast_sets [] src want = None"
| "search_cast_sets (s # sets) src want =
     (case (if cs_target s = want then first_implicit src (cs_functions s) else None) of
        Some score \<Rightarrow> Some score
      | None \<Rightarrow> search_cast_sets sets src want)"

definition implicit_cast_score :: "cast_function_set list \<Rightarrow> data_type_id \<Rightarrow> data_type_id \<Rightarrow> nat option" where
  "implicit_cast_score sets src want =
     (if want = AnyT then Some to_any_score
      else if src = NullT \<and> want = ListT then Some null_to_list_score
      else search_cast_sets sets src want)"

definition find_cast_function_set :: "cast_function_set list \<Rightarrow> data_type_id \<Rightarrow> cast_function_set option" where
  "find_cast_function_set sets target = List.find (\<lambda>s. cs_target s = target) sets"

definition find_cast_function :: "cast_function_set \<Rightarrow> data_type_id \<Rightarrow> cast_function option" where
  "find_cast_function s src = List.find (\<lambda>f. cf_src f = src) (cs_functions s)"

text \<open>
  \<open>CastExpr::new_using_default_casts\<close>: a cast of a cast is replaced by the direct cast when that
  one exists and is safe to flatten.
\<close>

definition wrap_cast :: "cast_function_set \<Rightarrow> cast_function \<Rightarrow> data_type \<Rightarrow> expression \<Rightarrow> data_type \<Rightarrow> expression result" where
  "wrap_cast s f src e to =
     bind_result (cf_bind f src to) (\<lambda>_. Inr (Cast to e \<lparr>pc_name = cs_name s, pc_src = cf_src f\<rparr>))"

definition cast_unconditionally :: "cast_function_set \<Rightarrow> expression \<Rightarrow> data_type \<Rightarrow> expression result" where
  "cast_unconditionally s e to =
     bind_result (expr_datatype e) (\<lambda>src.
       case find_cast_function s (type_id src) of
         None \<Rightarrow> Inl (DbError ''Cast function cannot handle source type'')
       | Some f \<Rightarrow> wrap_cast s f src e to)"

definition new_using_default_casts :: "cast_function_set list \<Rightarrow> expression \<Rightarrow> data_type \<Rightarrow> expression result" where
  "new_using_default_casts sets e to =
     (case find_cast_function_set sets (type_id to) of
        None \<Rightarrow> Inl (DbError ''Unable to find cast function to handle target type'')
      | Some s \<Rightarrow>
          (case e of
             Cast _ child _ \<Rightarrow>
               bind_result (expr_datatype child) (\<lambda>child_type.
                 case find_cast_function s (type_id child_type) of
                   Some f \<Rightarrow> if cf_flatten f = FlattenSafe then wrap_cast s f child_type child to
                             else cast_unconditionally s e to
                 | None \<Rightarrow> cast_unconditionally s e to)
           | _ \<Rightarrow> cast_unconditionally s e to))"

section \<open>Candidate signatures\<close>

datatype refined_literal =
  RefinedInt8 "8 word" | RefinedInt16 "16 word" | RefinedInt32 "32 word" | RefinedInt64 "64 word"

datatype cast_type =
    CastTo data_type_id nat
  | NoCastNeeded
  | RefinedLiteral refined_literal nat

fun cast_score :: "cast_type \<Rightarrow> nat" where
  "cast_score (CastTo to score) = score"
| "cast_score NoCastNeeded = no_cast_score"
| "cast_score (RefinedLiteral r score) = score"

datatype input_literal = LitInt32 "32 word" | LitInt64 "64 word" | LitUnhandled

record input_data_type =
  idt_datatype :: data_type
  idt_literal :: input_literal

fun input_data_type_of :: "expression \<Rightarrow> input_data_type result" where
  "input_data_type_of (Literal (SvInt32 v)) =
     Inr \<lparr>idt_datatype = new_primitive Int32T, idt_literal = LitInt32 v\<rparr>"
| "input_data_type_of (Literal (SvInt64 v)) =
     Inr \<lparr>idt_datatype = new_primitive Int64T, idt_literal = LitInt64 v\<rparr>"
| "input_data_type_of e =
     bind_result (expr_datatype e) (\<lambda>t. Inr \<lparr>idt_datatype = t, idt_literal = LitUnhandled\<rparr>)"

definition refined_literal_score_bonus :: nat where "refined_literal_score_bonus = 100"
definition cast_score_i8 :: nat where "cast_score_i8 = 160"
definition cast_score_i16 :: nat where "cast_score_i16 = 161"
definition cast_score_i32 :: nat where "cast_score_i32 = 191"
definition cast_score_i64 :: nat where "cast_score_i64 = 190"

text \<open>\<open>i8::try_from\<close> and its siblings succeed exactly on the values of the target type.\<close>

definition fits_signed :: "nat \<Rightarrow> int \<Rightarrow> bool" where
  "fits_signed w i \<longleftrightarrow> - (2 ^ (w - 1)) \<le> i \<and> i < 2 ^ (w - 1)"

definition refine_i8 :: "int \<Rightarrow> (refined_literal \<times> nat) option" where
  "refine_i8 v = (if fits_signed 8 v
     then Some (RefinedInt8 (word_of_int v), cast_score_i8 + refined_literal_score_bonus) else None)"

definition refine_i16 :: "int \<Rightarrow> (refined_literal \<times> nat) option" where
  "refine_i16 v = (if fits_signed 16 v
     then Some (RefinedInt16 (word_of_int v), cast_score_i16 + refined_literal_score_bonus) else None)"

definition refine_i32 :: "int \<Rightarrow> (refined_literal \<times> nat) option" where
  "refine_i32 v = (if fits_signed 32 v
     then Some (RefinedInt32 (word_of_int v), cast_score_i32 + refined_literal_score_bonus) else None)"

definition try_refine_literal :: "input_data_type \<Rightarrow> data_type_id \<Rightarrow> (refined_literal \<times> nat) option" where
  "try_refine_literal arg want =
     (case idt_literal arg of
        LitInt32 v \<Rightarrow>
          (if want = Int8T then refine_i8 (sint v)
           else if want = Int16T then refine_i16 (sint v)
           else if want = Int64T
             then Some (RefinedInt64 (scast v), cast_score_i64 + refined_literal_score_bonus)
           else None)
      | LitInt64 v \<Rightarrow>
          (if want = Int8T then refine_i8 (sint v)
           else if want = Int16T then refine_i16 (sint v)
           else if want = Int32T then refine_i32 (sint v)
           else None)
      | LitUnhandled \<Rightarrow> None)"

definition no_cast_needed :: "data_type \<Rightarrow> data_type_id \<Rightarrow> bool" where
  "no_cast_needed t want \<longleftrightarrow> want = AnyT \<or> type_id t = want"

text \<open>The body of the two loops of \<open>compare_and_fill_types\<close>, for one argument.\<close>

definition cast_for :: "cast_function_set list \<Rightarrow> input_data_type \<Rightarrow> data_type_id \<Rightarrow> cast_type option" where
  "cast_for sets arg want =
     (if no_cast_needed (idt_datatype arg) want then Some NoCastNeeded
      else case try_refine_literal arg want of
             Some (refined, score) \<Rightarrow> Some (RefinedLiteral refined score)
           | None \<Rightarrow> map_option (CastTo want) (implicit_cast_score sets (type_id (idt_datatype arg)) want))"

text \<open>
  \<open>best_datatype_for_variadic_any\<close>: the type of the first argument with the largest total score
  to which all arguments can be cast.
\<close>

definition variadic_total_score :: "cast_function_set list \<Rightarrow> input_data_type list \<Rightarrow> data_type_id \<Rightarrow> nat \<times> bool" where
  "variadic_total_score sets inputs test_type =
     fold (\<lambda>input (total, valid).
        if type_id (idt_datatype input) = test_type then (total + 200, valid)
        else case implicit_cast_score sets (type_id (idt_datatype input)) test_type of
               Some score \<Rightarrow> (total + score, valid)
             | None \<Rightarrow> (total, False))
       inputs (0, True)"

definition best_datatype_for_variadic_any :: "cast_function_set list \<Rightarrow> input_data_type list \<Rightarrow> data_type_id option" where
  "best_datatype_for_variadic_any sets inputs =
     fst (fold (\<lambda>input (best, best_total).
        let test_type = type_id (idt_datatype input);
            (total, valid) = variadic_total_score sets inputs test_type
        in if total > best_total \<and> valid then (Some test_type, total) else (best, best_total))
       inputs (None, 0))"

definition compare_and_fill_types ::
  "cast_function_set list \<Rightarrow> input_data_type list \<Rightarrow> data_type_id list \<Rightarrow> data_type_id option \<Rightarrow> cast_type list option" where
  "compare_and_fill_types sets args want variadic =
     (if (case variadic of Some _ \<Rightarrow> length args < length want | None \<Rightarrow> length args \<noteq> length want) then None
      else case those (map2 (cast_for sets) args want) of
             None \<Rightarrow> None
           | Some casts \<Rightarrow>
               let remaining = drop (length want) args
               in case variadic of
                    None \<Rightarrow> Some casts
                  | Some expected \<Rightarrow>
                      if remaining = [] then Some casts
                      else case (if expected = AnyT then best_datatype_for_variadic_any sets remaining
                                 else Some expected) of
                             None \<Rightarrow> None
                           | Some expected' \<Rightarrow>
                               map_option ((@) casts) (those (map (\<lambda>a. cast_for sets a expected') remaining)))"

record candidate_signature =
  signature_idx :: nat
  cand_casts :: "cast_type list"

definition candidate_score :: "candidate_signature \<Rightarrow> nat" where
  "candidate_score c = sum_list (map cast_score (cand_casts c))"

text \<open>
  The source sorts with \<open>sort_unstable_by\<close>, highest score first: \<open>sort_by\<close> is any function that
  sorts, so a tie between candidates may be broken either way.
\<close>

type_synonym candidate_sort =
  "(candidate_signature \<Rightarrow> int) \<Rightarrow> candidate_signature list \<Rightarrow> candidate_signature list"

definition find_candidates ::
  "candidate_sort \<Rightarrow> cast_function_set list \<Rightarrow> input_data_type list \<Rightarrow> signature list \<Rightarrow> candidate_signature list" where
  "find_candidates sort_by sets inputs sigs =
     sort_by (\<lambda>c. - int (candidate_score c))
       (List.map_filter (\<lambda>(idx, sig).
           map_option (\<lambda>casts. \<lparr>signature_idx = idx, cand_casts = casts\<rparr>)
             (compare_and_fill_types sets inputs (positional_args sig) (variadic_arg sig)))
         (List.enumerate 0 sigs))"

section \<open>Binding a call\<close>

fun refined_literal_expr :: "refined_literal \<Rightarrow> expression" where
  "refined_literal_expr (RefinedInt8 v) = Literal (SvInt8 v)"
| "refined_literal_expr (RefinedInt16 v) = Literal (SvInt16 v)"
| "refined_literal_expr (RefinedInt32 v) = Literal (SvInt32 v)"
| "refined_literal_expr (RefinedInt64 v) = Literal (SvInt64 v)"

fun apply_cast_type :: "cast_function_set list \<Rightarrow> expression \<Rightarrow> input_data_type \<Rightarrow> cast_type \<Rightarrow> expression result" where
  "apply_cast_type sets e from (CastTo to score) =
     bind_result (try_generate_cast_datatype (idt_datatype from) to) (new_using_default_casts sets e)"
| "apply_cast_type sets e from NoCastNeeded = Inr e"
| "apply_cast_type sets e from (RefinedLiteral refined score) = Inr (refined_literal_expr refined)"

definition bind_function_signature_from_expressions ::
  "candidate_sort \<Rightarrow> cast_function_set list \<Rightarrow> function_set \<Rightarrow> expression list \<Rightarrow> (nat \<times> expression list) result" where
  "bind_function_signature_from_expressions sort_by sets fs inputs =
     bind_result (collect_results input_data_type_of inputs) (\<lambda>input_types.
     let type_ids = map (\<lambda>t. type_id (idt_datatype t)) input_types
     in case find_exact fs type_ids of
          Some f \<Rightarrow> Inr (f, inputs)
        | None \<Rightarrow>
            (case find_candidates sort_by sets input_types (fs_signatures fs) of
               [] \<Rightarrow> Inl (DbError ''No function matches'')
             | candidate # _ \<Rightarrow>
                 bind_result
                   (collect_results (\<lambda>(input, from, cast_to). apply_cast_type sets input from cast_to)
                     (zip inputs (zip input_types (cand_casts candidate))))
                   (\<lambda>inputs'. if signature_idx candidate < length (fs_signatures fs)
                      then Inr (signature_idx candidate, inputs')
                      else Inl (Panic ''candidate to return value index''))))"

section \<open>Lemmas\<close>

lemma input_data_type_of_datatype:
  "input_data_type_of e = Inr a \<Longrightarrow> expr_datatype e = Inr (idt_datatype a)"
  by (induction e rule: input_data_type_of.induct) (auto simp: bind_result_eq_Inr)

lemma cast_has_target_type: "new_using_default_casts sets e to = Inr e' \<Longrightarrow> expr_datatype e' = Inr to"
  by (auto simp: new_using_default_casts_def wrap_cast_def cast_unconditionally_def bind_result_eq_Inr
      split: option.splits expression.splits if_splits)

lemma refined_literal_type:
  "try_refine_literal a want = Some (r, score) \<Longrightarrow> expr_datatype (refined_literal_expr r) = Inr (new_primitive want)"
  by (auto simp: try_refine_literal_def refine_i8_def refine_i16_def refine_i32_def
      split: input_literal.splits if_splits)

text \<open>An argument cast for a wanted type has it, unless any type would do.\<close>

lemma applied_cast_type:
  assumes "cast_for sets a want = Some ct" and "input_data_type_of e = Inr a"
    and "apply_cast_type sets e a ct = Inr e'"
  shows "\<exists>t. expr_datatype e' = Inr t \<and> (want = AnyT \<or> type_id t = want)"
proof (cases "no_cast_needed (idt_datatype a) want")
  case True
  then show ?thesis
    using assms input_data_type_of_datatype [OF assms(2)] by (auto simp: cast_for_def no_cast_needed_def)
next
  case False
  then show ?thesis
    using assms refined_literal_type
    by (fastforce simp: cast_for_def new_primitive_def bind_result_eq_Inr split: option.splits
        dest: cast_has_target_type cast_datatype_id)
qed

lemma those_eq_Some: "those xs = Some ys \<longleftrightarrow> xs = map Some ys"
proof (induction xs arbitrary: ys)
  case (Cons x xs)
  then show ?case by (cases x; cases ys) (auto simp: option.map_sel)
qed auto

text \<open>
  The types wanted for the arguments, position by position: the positional ones, then one common
  type for all variadic arguments.
\<close>

definition wanted_types :: "data_type_id list \<Rightarrow> data_type_id option \<Rightarrow> data_type_id list \<Rightarrow> bool" where
  "wanted_types want variadic ws \<longleftrightarrow>
     (case variadic of
        None \<Rightarrow> ws = want
      | Some expected \<Rightarrow> \<exists>n t. ws = want @ replicate n t \<and> (expected \<noteq> AnyT \<longrightarrow> t = expected) \<and>
           (n \<noteq> 0 \<longrightarrow> t \<noteq> AnyT))"

lemma best_datatype_from_inputs:
  assumes "best_datatype_for_variadic_any sets inputs = Some t"
  shows "t \<in> (\<lambda>a. type_id (idt_datatype a)) ` set inputs"
proof -
  let ?f = "\<lambda>input (best, best_total).
        let test_type = type_id (idt_datatype input);
            (total, valid) = variadic_total_score sets inputs test_type
        in if total > best_total \<and> valid then (Some test_type, total) else (best, best_total)"
  have "fst (fold ?f xs (b, n)) = Some t \<Longrightarrow> b = Some t \<or> t \<in> (\<lambda>a. type_id (idt_datatype a)) ` set xs" for xs b n
    by (induction xs arbitrary: b n) (auto simp: Let_def case_prod_beta split: if_splits)
  from this [of inputs None 0] show ?thesis
    using assms by (simp add: best_datatype_for_variadic_any_def)
qed

lemma fill_types_wants:
  assumes "compare_and_fill_types sets args want variadic = Some casts"
    and no_any: "\<forall>a \<in> set args. type_id (idt_datatype a) \<noteq> AnyT"
  shows "\<exists>ws. wanted_types want variadic ws \<and>
           list_all2 (\<lambda>(a, w) c. cast_for sets a w = Some c) (zip args ws) casts \<and>
           length ws = length args"
proof -
  obtain casts1 where c1: "map2 (cast_for sets) args want = map Some casts1"
    using assms(1) by (auto simp: compare_and_fill_types_def those_eq_Some split: option.splits if_splits)
  then have len1: "length casts1 = min (length args) (length want)"
    by (metis length_map length_zip)
  have first: "list_all2 (\<lambda>(a, w) c. cast_for sets a w = Some c) (zip args want) casts1"
    using c1 len1 unfolding list_all2_conv_all_nth
    by (auto simp: list_eq_iff_nth_eq)
  show ?thesis
  proof (cases "variadic = None \<or> drop (length want) args = []")
    case True
    then have "length want = length args" and "casts = casts1"
      using assms(1) c1 by (auto simp: compare_and_fill_types_def those_eq_Some Let_def split: option.splits if_splits)
    moreover have "wanted_types want variadic want"
      by (auto simp: wanted_types_def split: option.splits intro!: exI [of _ 0])
    ultimately show ?thesis using first by blast
  next
    case False
    then obtain expected where var: "variadic = Some expected" by auto
    let ?rem = "drop (length want) args"
    obtain t casts2 where t: "(if expected = AnyT then best_datatype_for_variadic_any sets ?rem else Some expected) = Some t"
        "map (\<lambda>a. cast_for sets a t) ?rem = map Some casts2" "casts = casts1 @ casts2" "length want \<le> length args"
      using assms(1) False c1 var
      by (auto simp: compare_and_fill_types_def those_eq_Some Let_def split: option.splits if_splits)
    have "t \<noteq> AnyT"
      using t(1) best_datatype_from_inputs [of sets ?rem t] no_any
      by (auto split: if_splits dest: in_set_dropD)
    have second: "list_all2 (\<lambda>(a, w) c. cast_for sets a w = Some c)
        (zip ?rem (replicate (length ?rem) t)) casts2"
      using t(2) unfolding list_all2_conv_all_nth by (auto simp: list_eq_iff_nth_eq)
    let ?ws = "want @ replicate (length ?rem) t"
    have "zip args ?ws = zip args want @ zip ?rem (replicate (length ?rem) t)"
      by (simp add: zip_append2) (simp add: list_eq_iff_nth_eq)
    then have "list_all2 (\<lambda>(a, w) c. cast_for sets a w = Some c) (zip args ?ws) casts"
      using first second t(3) by (simp add: list_all2_appendI)
    moreover have "wanted_types want variadic ?ws"
      using var t(1) \<open>t \<noteq> AnyT\<close> unfolding wanted_types_def
      by (auto intro!: exI [of _ "length ?rem"] exI [of _ t])
    ultimately show ?thesis using t(4) by (intro exI [of _ ?ws]) simp
  qed
qed

definition fits_signature :: "signature \<Rightarrow> data_type_id list \<Rightarrow> bool" where
  "fits_signature sig ids \<longleftrightarrow>
     list_all2 (\<lambda>want i. want = AnyT \<or> i = want) (positional_args sig) (take (length (positional_args sig)) ids) \<and>
     (case variadic_arg sig of
        None \<Rightarrow> length ids = length (positional_args sig)
      | Some expected \<Rightarrow> \<exists>t. (expected \<noteq> AnyT \<longrightarrow> t = expected) \<and>
          (\<forall>i \<in> set (drop (length (positional_args sig)) ids). i = t))"

lemma exact_match_fits: "exact_match sig ids \<Longrightarrow> fits_signature sig ids"
proof -
  assume em: "exact_match sig ids"
  then have "length (positional_args sig) \<le> length ids"
    by (auto simp: exact_match_def is_variadic_def split: if_splits option.splits)
  then have "list_all2 (\<lambda>want i. want = AnyT \<or> i = want) (positional_args sig) (take (length (positional_args sig)) ids)"
    using em by (auto simp: exact_match_def list_all2_conv_all_nth list_all_length)
  then show ?thesis
    using em by (auto simp: exact_match_def fits_signature_def is_variadic_def list_all_iff split: option.splits)
qed

lemma wanted_types_fit:
  assumes "wanted_types (positional_args sig) (variadic_arg sig) ws"
    and "list_all2 (\<lambda>want i. want = AnyT \<or> i = want) ws ids"
  shows "fits_signature sig ids"
proof (cases "variadic_arg sig")
  case None
  then show ?thesis
    using assms list_all2_lengthD [OF assms(2)] by (simp add: fits_signature_def wanted_types_def)
next
  case (Some expected)
  then obtain n t where ws: "ws = positional_args sig @ replicate n t" "expected \<noteq> AnyT \<longrightarrow> t = expected"
      "n \<noteq> 0 \<longrightarrow> t \<noteq> AnyT"
    using assms(1) by (auto simp: wanted_types_def)
  obtain us vs where ids: "ids = us @ vs" "list_all2 (\<lambda>want i. want = AnyT \<or> i = want) (positional_args sig) us"
      "list_all2 (\<lambda>want i. want = AnyT \<or> i = want) (replicate n t) vs" "length us = length (positional_args sig)"
    using assms(2) by (auto simp: ws(1) list_all2_append1)
  have "\<forall>i \<in> set vs. i = t"
    using ids(3) ws(3) by (auto simp: list_all2_conv_all_nth in_set_conv_nth)
  then show ?thesis using Some ws(2) ids by (auto simp: fits_signature_def)
qed

lemma candidates_set:
  "sorts sort_by \<Longrightarrow> set (find_candidates sort_by sets args sigs) =
     {c. signature_idx c < length sigs \<and>
         compare_and_fill_types sets args (positional_args (sigs ! signature_idx c))
           (variadic_arg (sigs ! signature_idx c)) = Some (cand_casts c)}"
  by (subst find_candidates_def, subst set_mset_mset [symmetric], subst sorts_mset, assumption)
    (force simp: enumerate_map_upt map_filter_def)

lemma candidates_best:
  assumes "sorts sort_by" and "find_candidates sort_by sets args sigs = c # cs" and "d \<in> set (c # cs)"
  shows "candidate_score d \<le> candidate_score c"
  using sorts_sorted [OF assms(1), of "\<lambda>c. - int (candidate_score c)"] assms(2,3)
  unfolding find_candidates_def by (metis (no_types, lifting) list.simps(9) neg_le_iff_le of_nat_le_iff
      sorted_simps(2) image_eqI list.set_map set_ConsD order_refl)

lemma bound_candidate_types:
  assumes ts: "collect_results input_data_type_of inputs = Inr ts"
    and casts: "list_all2 (\<lambda>(a, w) c. cast_for sets a w = Some c) (zip ts ws) casts" "length ws = length ts"
    and es: "collect_results (\<lambda>(e, a, c). apply_cast_type sets e a c) (zip inputs (zip ts casts)) = Inr es"
  shows "\<exists>us. collect_results expr_datatype es = Inr us \<and>
           list_all2 (\<lambda>want i. want = AnyT \<or> i = want) ws (map type_id us) \<and> length es = length inputs"
proof -
  have len: "length ts = length inputs" "length casts = length ts" "length es = length inputs"
    using collect_results_length [OF ts] collect_results_length [OF es] list_all2_lengthD [OF casts(1)] casts(2)
    by simp_all
  have "\<exists>t. expr_datatype (es ! i) = Inr t \<and> (ws ! i = AnyT \<or> type_id t = ws ! i)" if "i < length es" for i
  proof (rule applied_cast_type)
    show "cast_for sets (ts ! i) (ws ! i) = Some (casts ! i)"
      using casts that len by (auto simp: list_all2_conv_all_nth)
    show "input_data_type_of (inputs ! i) = Inr (ts ! i)"
      using ts that len by (auto simp: collect_results_list_all2 list_all2_conv_all_nth)
    show "apply_cast_type sets (inputs ! i) (ts ! i) (casts ! i) = Inr (es ! i)"
      using es that len by (auto simp: collect_results_list_all2 list_all2_conv_all_nth)
  qed
  then obtain t where t: "\<And>i. i < length es \<Longrightarrow> expr_datatype (es ! i) = Inr (t i) \<and> (ws ! i = AnyT \<or> type_id (t i) = ws ! i)"
    by metis
  then have "collect_results expr_datatype es = Inr (map t [0..<length es])"
    by (auto simp: collect_results_list_all2 list_all2_conv_all_nth)
  then show ?thesis using t len casts(2) by (auto simp: list_all2_conv_all_nth)
qed

lemma find_exact_Some:
  "find_exact fs ids = Some f \<Longrightarrow> f < length (fs_signatures fs) \<and> exact_match (fs_signatures fs ! f) ids"
  by (auto simp: find_exact_def find_Some_iff)

lemma input_data_types_datatypes:
  "collect_results input_data_type_of es = Inr ts \<Longrightarrow> collect_results expr_datatype es = Inr (map idt_datatype ts)"
  by (auto simp: collect_results_list_all2 list_all2_conv_all_nth input_data_type_of_datatype)

section \<open>Properties\<close>

text \<open>
  C12. Binding a call succeeds only with inputs that fit the signature of the function it chose:
  there are as many of them as were given, the positional ones have the wanted types, and the
  variadic ones all have one type, the declared one if the signature declares one. (No
  expression has the type \<open>Any\<close>, which only occurs in signatures.)
\<close>

theorem bound_call_fits_signature:
  assumes sorts: "sorts sort_by"
    and bound: "bind_function_signature_from_expressions sort_by sets fs inputs = Inr (f, es)"
    and no_any: "\<forall>e \<in> set inputs. \<forall>t. expr_datatype e = Inr t \<longrightarrow> type_id t \<noteq> AnyT"
  shows "f < length (fs_signatures fs) \<and> length es = length inputs \<and>
         (\<exists>ts. collect_results expr_datatype es = Inr ts \<and> fits_signature (fs_signatures fs ! f) (map type_id ts))"
proof -
  obtain ts where ts: "collect_results input_data_type_of inputs = Inr ts"
    using bound by (auto simp: bind_function_signature_from_expressions_def bind_result_eq_Inr)
  let ?ids = "map (\<lambda>t. type_id (idt_datatype t)) ts"
  have any: "\<forall>a \<in> set ts. type_id (idt_datatype a) \<noteq> AnyT"
    using ts no_any input_data_type_of_datatype
    by (fastforce simp: collect_results_list_all2 list_all2_conv_all_nth in_set_conv_nth)
  show ?thesis
  proof (cases "find_exact fs ?ids")
    case (Some g)
    then show ?thesis
      using bound ts find_exact_Some [OF Some] input_data_types_datatypes [OF ts]
      by (auto simp: bind_function_signature_from_expressions_def Let_def comp_def intro: exact_match_fits)
  next
    case None
    then obtain c cs where c: "find_candidates sort_by sets ts (fs_signatures fs) = c # cs" "f = signature_idx c"
        "collect_results (\<lambda>(e, a, c). apply_cast_type sets e a c) (zip inputs (zip ts (cand_casts c))) = Inr es"
      using bound ts
      by (auto simp: bind_function_signature_from_expressions_def Let_def bind_result_eq_Inr
          split: list.splits if_splits)
    have cc: "f < length (fs_signatures fs)" "compare_and_fill_types sets ts (positional_args (fs_signatures fs ! f))
        (variadic_arg (fs_signatures fs ! f)) = Some (cand_casts c)"
      using candidates_set [OF sorts, of sets ts "fs_signatures fs"] c by auto
    obtain ws where "wanted_types (positional_args (fs_signatures fs ! f)) (variadic_arg (fs_signatures fs ! f)) ws"
        "list_all2 (\<lambda>(a, w) c. cast_for sets a w = Some c) (zip ts ws) (cand_casts c)" "length ws = length ts"
      using fill_types_wants [OF cc(2) any] by auto
    then show ?thesis
      using bound_candidate_types [OF ts _ _ c(3)] wanted_types_fit cc(1) by fastforce
  qed
qed

definition widening_set :: function_set where
  "widening_set = \<lparr>fs_name = ''f'', fs_signatures =
     [\<lparr>positional_args = [Int64T], variadic_arg = None, return_type = Int64T\<rparr>]\<rparr>"

lemma bind_widening:
  "bind_function_signature_from_expressions sort_key [] widening_set [Literal (SvInt32 5)] =
     Inr (0, [Literal (SvInt64 5)])"
  by (simp add: bind_function_signature_from_expressions_def widening_set_def new_primitive_def
      find_exact_def exact_match_def is_variadic_def find_candidates_def compare_and_fill_types_def
      cast_for_def no_cast_needed_def try_refine_literal_def map_filter_simps Let_def)

theorem bound_call_fits_signature_witness:
  "\<exists>ts. collect_results expr_datatype [Literal (SvInt64 5)] = Inr ts \<and>
     fits_signature (fs_signatures widening_set ! 0) (map type_id ts)"
  using bound_call_fits_signature [OF sorts_sort_key bind_widening] by (simp add: new_primitive_def)

text \<open>
  C13. When no signature matches exactly, the chosen signature is one to which the arguments can be
  cast, and no other such signature has a higher total score.
\<close>

theorem chosen_candidate_best:
  assumes "sorts sort_by" and "find_candidates sort_by sets args sigs = c # cs"
    and "i < length sigs"
    and "compare_and_fill_types sets args (positional_args (sigs ! i)) (variadic_arg (sigs ! i)) = Some casts"
  shows "signature_idx c < length sigs \<and>
         compare_and_fill_types sets args (positional_args (sigs ! signature_idx c))
           (variadic_arg (sigs ! signature_idx c)) = Some (cand_casts c) \<and>
         sum_list (map cast_score casts) \<le> candidate_score c"
proof -
  let ?d = "\<lparr>signature_idx = i, cand_casts = casts\<rparr>"
  have "?d \<in> set (c # cs)" using assms(2-4) candidates_set [OF assms(1), of sets args sigs] by simp
  then have "candidate_score ?d \<le> candidate_score c" by (rule candidates_best [OF assms(1,2)])
  then show ?thesis
    using candidates_set [OF assms(1), of sets args sigs] assms(2) by (auto simp: candidate_score_def)
qed

text \<open>
  Two competing signatures for a \<open>SMALLINT\<close> argument: \<open>f(Float64)\<close> and \<open>f(Int32)\<close>, both reached
  by an implicit cast, the second with the higher score.
\<close>

definition implicit_set :: "data_type_id \<Rightarrow> nat \<Rightarrow> cast_function_set" where
  "implicit_set target score = \<lparr>cs_name = ''to'', cs_target = target, cs_functions =
     [\<lparr>cf_src = Int16T, cf_rule = CastImplicit score, cf_flatten = FlattenSafe, cf_bind = (\<lambda>_ _. Inr ())\<rparr>]\<rparr>"

definition competing_signatures :: "signature list" where
  "competing_signatures =
     [\<lparr>positional_args = [Float64T], variadic_arg = None, return_type = Float64T\<rparr>,
      \<lparr>positional_args = [Int32T], variadic_arg = None, return_type = Int32T\<rparr>]"

lemma competing_candidates:
  "find_candidates sort_key [implicit_set Float64T 161, implicit_set Int32T 191]
     [\<lparr>idt_datatype = new_primitive Int16T, idt_literal = LitUnhandled\<rparr>] competing_signatures =
   [\<lparr>signature_idx = 1, cand_casts = [CastTo Int32T 191]\<rparr>, \<lparr>signature_idx = 0, cand_casts = [CastTo Float64T 161]\<rparr>]"
  by (simp add: find_candidates_def competing_signatures_def implicit_set_def compare_and_fill_types_def cast_for_def
      no_cast_needed_def try_refine_literal_def implicit_cast_score_def map_filter_simps new_primitive_def candidate_score_def)

theorem chosen_candidate_best_witness:
  "find_candidates sort_key [implicit_set Float64T 161, implicit_set Int32T 191]
     [\<lparr>idt_datatype = new_primitive Int16T, idt_literal = LitUnhandled\<rparr>] competing_signatures =
   [\<lparr>signature_idx = 1, cand_casts = [CastTo Int32T 191]\<rparr>, \<lparr>signature_idx = 0, cand_casts = [CastTo Float64T 161]\<rparr>] \<and>
   compare_and_fill_types [implicit_set Float64T 161, implicit_set Int32T 191]
     [\<lparr>idt_datatype = new_primitive Int16T, idt_literal = LitUnhandled\<rparr>]
     (positional_args (competing_signatures ! 0)) (variadic_arg (competing_signatures ! 0)) = Some [CastTo Float64T 161] \<and>
   sum_list (map cast_score [CastTo Float64T 161]) \<le>
     candidate_score \<lparr>signature_idx = 1, cand_casts = [CastTo Int32T 191]\<rparr>"
  using chosen_candidate_best [OF sorts_sort_key competing_candidates, of 0 "[CastTo Float64T 161]"] competing_candidates
  by (simp add: competing_signatures_def implicit_set_def compare_and_fill_types_def cast_for_def no_cast_needed_def
      try_refine_literal_def implicit_cast_score_def new_primitive_def)

text \<open>
  C15. Refining an integer literal to the type a signature wants never changes its value.
\<close>

theorem refined_literal_value:
  assumes "input_data_type_of (Literal v) = Inr a" and "try_refine_literal a want = Some (r, score)"
  shows "\<exists>w. refined_literal_expr r = Literal w \<and> scalar_int w = scalar_int v \<and> scalar_int v \<noteq> None"
proof -
  have fit: "sint (scast i :: 8 word) = sint i" if "fits_signed 8 (sint i)" for i :: "'a::len word"
    using that sint_sbintrunc' [where 'a = 8, of "sint i"] by (simp add: fits_signed_def signed_take_bit_id_iff)
  have fit16: "sint (scast i :: 16 word) = sint i" if "fits_signed 16 (sint i)" for i :: "'a::len word"
    using that sint_sbintrunc' [where 'a = 16, of "sint i"] by (simp add: fits_signed_def signed_take_bit_id_iff)
  have fit32: "sint (scast i :: 32 word) = sint i" if "fits_signed 32 (sint i)" for i :: "'a::len word"
    using that sint_sbintrunc' [where 'a = 32, of "sint i"] by (simp add: fits_signed_def signed_take_bit_id_iff)
  show ?thesis
    using assms by (cases v) (auto simp: bind_result_eq_Inr try_refine_literal_def refine_i8_def refine_i16_def
        refine_i32_def fit fit16 fit32 sint_scast_up split: if_splits)
qed

theorem refined_literal_value_witness:
  "\<exists>w. refined_literal_expr (RefinedInt64 (scast (5 :: 32 word))) = Literal w \<and>
     scalar_int w = scalar_int (SvInt32 5) \<and> scalar_int (SvInt32 5) \<noteq> None"
  by (rule refined_literal_value [of _ "\<lparr>idt_datatype = new_primitive Int32T, idt_literal = LitInt32 5\<rparr>" Int64T])
    (simp_all add: try_refine_literal_def)

end
