(* ===== verification/Operators.thy ===== *)
theory Operators
  imports Signatures
begin

text \<open>
  The function sets behind the operators and how they bind their inputs
  (\<open>functions/scalar/builtin/comparison.rs\<close>, \<open>functions/scalar/builtin/arith/\<close>,
  \<open>functions/scalar/builtin/negate.rs\<close>, \<open>functions/scalar/builtin/boolean.rs\<close>), and the lookup that
  the physical planner performs (\<open>plan_as_scalar_function\<close> in \<open>expr/physical/planner.rs\<close>).

  A set is the list of its signatures with the implementation of each. Most implementations bind to
  a fixed return type and leave the inputs alone; those on decimals bring both inputs to a common
  precision and scale by inserting casts. The lemmas say which inputs binding can return.
\<close>

section \<open>Implementations\<close>

datatype scalar_impl =
    FlatImpl data_type
  | DecimalComparisonImpl decimal_kind
  | DecimalAddImpl decimal_kind
  | DecimalSubImpl decimal_kind
  | DecimalMulImpl decimal_kind
  | DivDecimalImpl

text \<open>\<open>u8 as i8\<close>, \<open>i8 as u8\<close>, and \<open>i8\<close> and \<open>u8\<close> arithmetic with its overflow check.\<close>

definition u8_as_i8 :: "nat \<Rightarrow> int" where
  "u8_as_i8 p = (let b = int (p mod 256) in if b < 128 then b else b - 256)"

definition i8_as_u8 :: "int \<Rightarrow> nat" where
  "i8_as_u8 i = nat (i mod 256)"

definition i8_checked :: "int \<Rightarrow> int result" where
  "i8_checked i = (if - 128 \<le> i \<and> i < 128 then Inr i else Inl (Panic ''attempt to compute with overflow''))"

definition u8_checked :: "nat \<Rightarrow> nat result" where
  "u8_checked p = (if p < 256 then Inr p else Inl (Panic ''attempt to compute with overflow''))"

text \<open>The precision and scale that hold the digits of both sides.\<close>

definition common_precision :: "decimal_meta \<Rightarrow> decimal_meta \<Rightarrow> (nat \<times> int) result" where
  "common_precision l_meta r_meta =
     (let max_scale = max (dm_scale l_meta) (dm_scale r_meta)
      in bind_result (i8_checked (u8_as_i8 (dm_precision l_meta) - dm_scale l_meta)) (\<lambda>l_int_digits.
         bind_result (i8_checked (u8_as_i8 (dm_precision r_meta) - dm_scale r_meta)) (\<lambda>r_int_digits.
         bind_result (i8_checked (max l_int_digits r_int_digits + max_scale)) (\<lambda>new_prec.
         Inr (i8_as_u8 new_prec, max_scale)))))"

text \<open>The casts of the two inputs, left first, to the types that are asked for.\<close>

definition cast_inputs ::
  "(expression \<Rightarrow> data_type \<Rightarrow> expression result) \<Rightarrow> expression \<Rightarrow> data_type option \<Rightarrow> expression \<Rightarrow> data_type option
    \<Rightarrow> data_type \<Rightarrow> (data_type \<times> expression list) result" where
  "cast_inputs cast left l_to right r_to ret_type =
     bind_result (case l_to of Some t \<Rightarrow> cast left t | None \<Rightarrow> Inr left) (\<lambda>left.
     bind_result (case r_to of Some t \<Rightarrow> cast right t | None \<Rightarrow> Inr right) (\<lambda>right.
     Inr (ret_type, [left, right])))"

definition decimal_bind ::
  "cast_function_set list \<Rightarrow> decimal_kind \<Rightarrow> expression \<Rightarrow> expression \<Rightarrow> (data_type \<times> expression list) result" where
  "decimal_bind sets k left right =
     bind_result (bind_result (expr_datatype left) try_decimal_meta) (\<lambda>l_meta.
     bind_result (bind_result (expr_datatype right) try_decimal_meta) (\<lambda>r_meta.
     if l_meta \<noteq> r_meta
     then bind_result (common_precision l_meta r_meta) (\<lambda>(new_prec, max_scale).
          let new_meta = \<lparr>dm_precision = (if new_prec > max_precision k then max_precision k else new_prec),
                          dm_scale = max_scale\<rparr>;
              new_datatype = datatype_from_decimal_meta k new_meta
          in cast_inputs (new_using_default_casts sets) left (if l_meta \<noteq> new_meta then Some new_datatype else None)
               right (if r_meta \<noteq> new_meta then Some new_datatype else None) boolean_type)
     else Inr (boolean_type, [left, right])))"

text \<open>The metadata of a decimal, or of the decimal an integer type converts to.\<close>

definition decimal_meta_of :: "data_type \<Rightarrow> decimal_meta result" where
  "decimal_meta_of t =
     (case decimal_meta_opt t of
        Some meta \<Rightarrow> Inr meta
      | None \<Rightarrow> (case new_for_datatype_id (type_id t) of
                  Some meta \<Rightarrow> Inr meta
                | None \<Rightarrow> Inl (DbError ''Cannot convert into a decimal'')))"

record cast_decimal_type_info =
  ci_meta :: decimal_meta
  ci_precision_exceeded :: bool

definition common_add_sub_decimal_type_info :: "decimal_kind \<Rightarrow> data_type \<Rightarrow> data_type \<Rightarrow> cast_decimal_type_info result" where
  "common_add_sub_decimal_type_info k left right =
     bind_result (decimal_meta_of left) (\<lambda>l_meta.
     bind_result (decimal_meta_of right) (\<lambda>r_meta.
     bind_result (common_precision l_meta r_meta) (\<lambda>(new_prec, max_scale).
     bind_result (u8_checked (new_prec + 1)) (\<lambda>new_prec.
     Inr \<lparr>ci_meta = \<lparr>dm_precision = (if new_prec > max_precision k then max_precision k else new_prec),
                      dm_scale = max_scale\<rparr>,
          ci_precision_exceeded = (new_prec > max_precision k)\<rparr>))))"

definition unwrap :: "'a result \<Rightarrow> 'a result" where
  "unwrap r = (case r of Inr a \<Rightarrow> Inr a | Inl _ \<Rightarrow> Inl (Panic ''called `Result::unwrap()` on an `Err` value''))"

definition decimal_add_sub_bind ::
  "(expression \<Rightarrow> data_type \<Rightarrow> expression result) \<Rightarrow> decimal_kind \<Rightarrow> expression \<Rightarrow> expression
    \<Rightarrow> (data_type \<times> expression list) result" where
  "decimal_add_sub_bind cast k left right =
     bind_result (expr_datatype left) (\<lambda>l_type.
     bind_result (expr_datatype right) (\<lambda>r_type.
     bind_result (common_add_sub_decimal_type_info k l_type r_type) (\<lambda>info.
     let ret_type = datatype_from_decimal_meta k (ci_meta info)
     in cast_inputs cast left (if decimal_meta_opt l_type = Some (ci_meta info) then None else Some ret_type)
          right (if decimal_meta_opt r_type = Some (ci_meta info) then None else Some ret_type) ret_type)))"

text \<open>
  \<open>DecimalAdd::bind\<close> and \<open>DecimalSub::bind\<close> differ in what they do with a cast that fails: the first
  unwraps it, the second returns its error.
\<close>

definition decimal_add_bind ::
  "cast_function_set list \<Rightarrow> decimal_kind \<Rightarrow> expression \<Rightarrow> expression \<Rightarrow> (data_type \<times> expression list) result" where
  "decimal_add_bind sets = decimal_add_sub_bind (\<lambda>e t. unwrap (new_using_default_casts sets e t))"

definition decimal_sub_bind ::
  "cast_function_set list \<Rightarrow> decimal_kind \<Rightarrow> expression \<Rightarrow> expression \<Rightarrow> (data_type \<times> expression list) result" where
  "decimal_sub_bind sets = decimal_add_sub_bind (new_using_default_casts sets)"

definition decimal_mul_bind ::
  "cast_function_set list \<Rightarrow> decimal_kind \<Rightarrow> expression \<Rightarrow> expression \<Rightarrow> (data_type \<times> expression list) result" where
  "decimal_mul_bind sets k left right =
     bind_result (expr_datatype left) (\<lambda>l_type.
     bind_result (expr_datatype right) (\<lambda>r_type.
     bind_result (decimal_meta_of l_type) (\<lambda>l_meta.
     bind_result (decimal_meta_of r_type) (\<lambda>r_meta.
     bind_result (u8_checked (dm_precision l_meta + dm_precision r_meta)) (\<lambda>new_precision.
     bind_result (i8_checked (dm_scale l_meta + dm_scale r_meta)) (\<lambda>new_scale.
     if new_scale > int (max_precision k) then Inl (DbError ''Resuling decimal scale exceeds max decimal precion'')
     else let new_precision = (if new_precision > max_precision k then max_precision k else new_precision)
     in if new_scale > int new_precision then Inl (DbError ''Compute scale exceeds computed precision'')
     else cast_inputs (new_using_default_casts sets)
            left (if decimal_meta_opt l_type = None then Some (datatype_from_decimal_meta k l_meta) else None)
            right (if decimal_meta_opt r_type = None then Some (datatype_from_decimal_meta k r_meta) else None)
            (datatype_from_decimal_meta k \<lparr>dm_precision = new_precision, dm_scale = new_scale\<rparr>)))))))"

definition div_decimal_bind ::
  "cast_function_set list \<Rightarrow> expression \<Rightarrow> expression \<Rightarrow> (data_type \<times> expression list) result" where
  "div_decimal_bind sets left right =
     bind_result (new_using_default_casts sets right (new_primitive Float64T)) (\<lambda>right.
     bind_result (new_using_default_casts sets left (new_primitive Float64T)) (\<lambda>left.
     Inr (new_primitive Float64T, [left, right])))"

text \<open>
  \<open>ScalarFunction::bind\<close>: the return type and the inputs. The decimal implementations pop two inputs,
  which is what their signatures have.
\<close>

definition pop_two ::
  "(expression \<Rightarrow> expression \<Rightarrow> 'a result) \<Rightarrow> expression list \<Rightarrow> 'a result" where
  "pop_two f inputs =
     (case rev inputs of
        right # left # _ \<Rightarrow> f left right
      | _ \<Rightarrow> Inl (Panic ''called `Option::unwrap()` on a `None` value''))"

fun impl_bind :: "cast_function_set list \<Rightarrow> scalar_impl \<Rightarrow> expression list \<Rightarrow> (data_type \<times> expression list) result" where
  "impl_bind sets (FlatImpl t) inputs = Inr (t, inputs)"
| "impl_bind sets (DecimalComparisonImpl k) inputs = pop_two (decimal_bind sets k) inputs"
| "impl_bind sets (DecimalAddImpl k) inputs = pop_two (decimal_add_bind sets k) inputs"
| "impl_bind sets (DecimalSubImpl k) inputs = pop_two (decimal_sub_bind sets k) inputs"
| "impl_bind sets (DecimalMulImpl k) inputs = pop_two (decimal_mul_bind sets k) inputs"
| "impl_bind sets DivDecimalImpl inputs = pop_two (div_decimal_bind sets) inputs"

section \<open>Function sets\<close>

type_synonym scalar_functions = "(signature \<times> scalar_impl) list"

definition signature_new :: "data_type_id list \<Rightarrow> data_type_id \<Rightarrow> signature" where
  "signature_new args ret = \<lparr>positional_args = args, variadic_arg = None, return_type = ret\<rparr>"

definition flat2 :: "data_type_id \<Rightarrow> data_type_id \<Rightarrow> data_type_id \<Rightarrow> signature \<times> scalar_impl" where
  "flat2 l r ret = (signature_new [l, r] ret, FlatImpl (new_primitive ret))"

definition comparison_functions :: scalar_functions where
  "comparison_functions =
     map (\<lambda>t. flat2 t t BooleanT)
       [BooleanT, Int8T, Int16T, Int32T, Int64T, Int128T, UInt8T, UInt16T, UInt32T, UInt64T, UInt128T,
        Float16T, Float32T, Float64T, Date32T, Date64T, TimestampT, IntervalT] @
     [(signature_new [Decimal64T, Decimal64T] BooleanT, DecimalComparisonImpl Decimal64K),
      (signature_new [Decimal128T, Decimal128T] BooleanT, DecimalComparisonImpl Decimal128K)] @
     map (\<lambda>t. flat2 t t BooleanT) [BinaryT, Utf8T]"

definition numeric_functions :: scalar_functions where
  "numeric_functions = map (\<lambda>t. flat2 t t t)
     [Float16T, Float32T, Float64T, Int8T, Int16T, Int32T, Int64T, Int128T,
      UInt8T, UInt16T, UInt32T, UInt64T, UInt128T]"

text \<open>The signatures \<open>D_SIGS\<close>, in the order in which the sets list them.\<close>

definition decimal_functions :: "(decimal_kind \<Rightarrow> scalar_impl) \<Rightarrow> scalar_functions" where
  "decimal_functions impl =
     map (\<lambda>(l, r). (signature_new [l, r] Decimal64T, impl Decimal64K))
       [(Decimal64T, Decimal64T), (Decimal64T, Int8T), (Decimal64T, Int16T), (Decimal64T, Int32T),
        (Int8T, Decimal64T), (Int16T, Decimal64T), (Int32T, Decimal64T)] @
     map (\<lambda>(l, r). (signature_new [l, r] Decimal128T, impl Decimal128K))
       [(Decimal128T, Decimal128T), (Decimal128T, Int8T), (Decimal128T, Int16T), (Decimal128T, Int32T),
        (Decimal128T, Int64T), (Int8T, Decimal128T), (Int16T, Decimal128T), (Int32T, Decimal128T),
        (Int64T, Decimal128T)]"

definition add_functions :: scalar_functions where
  "add_functions = numeric_functions @ decimal_functions DecimalAddImpl @
     [flat2 Date32T Int32T Date32T, flat2 Int32T Date32T Date32T]"

definition sub_functions :: scalar_functions where
  "sub_functions = numeric_functions @ decimal_functions DecimalSubImpl @ [flat2 Date32T Int32T Date32T]"

definition mul_functions :: scalar_functions where
  "mul_functions = numeric_functions @ decimal_functions DecimalMulImpl @
     [flat2 IntervalT Int32T IntervalT, flat2 IntervalT Int64T IntervalT,
      flat2 Int32T IntervalT IntervalT, flat2 Int64T IntervalT IntervalT]"

definition div_functions :: scalar_functions where
  "div_functions = numeric_functions @
     [(signature_new [Decimal64T, Decimal64T] Float64T, DivDecimalImpl),
      (signature_new [Decimal128T, Decimal128T] Float64T, DivDecimalImpl)]"

fun arith_functions :: "arith_operator \<Rightarrow> scalar_functions" where
  "arith_functions ArithAdd = add_functions"
| "arith_functions ArithSub = sub_functions"
| "arith_functions ArithMul = mul_functions"
| "arith_functions ArithDiv = div_functions"
| "arith_functions ArithMod = numeric_functions"

fun negate_functions :: "negate_operator \<Rightarrow> scalar_functions" where
  "negate_functions NegNegate = map (\<lambda>t. (signature_new [t] t, FlatImpl (new_primitive t)))
     [Float16T, Float32T, Float64T, Int8T, Int16T, Int32T, Int64T, Int128T]"
| "negate_functions NegNot = [(signature_new [BooleanT] BooleanT, FlatImpl boolean_type)]"

definition boolean_functions :: scalar_functions where
  "boolean_functions =
     [(\<lparr>positional_args = [BooleanT], variadic_arg = Some BooleanT, return_type = BooleanT\<rparr>, FlatImpl boolean_type)]"

section \<open>Binding an operator\<close>

definition find_operator :: "scalar_functions \<Rightarrow> string \<Rightarrow> expression list \<Rightarrow> scalar_impl result" where
  "find_operator fns name inputs =
     bind_result (collect_results expr_datatype inputs) (\<lambda>types.
       case find_exact \<lparr>fs_name = name, fs_signatures = map fst fns\<rparr> (map type_id types) of
         None \<Rightarrow> Inl (DbError ''Expected exact function signature match'')
       | Some i \<Rightarrow> Inr (snd (fns ! i)))"

definition bind_operator ::
  "cast_function_set list \<Rightarrow> scalar_functions \<Rightarrow> string \<Rightarrow> expression list \<Rightarrow> (planned_function \<times> expression list) result" where
  "bind_operator sets fns name inputs =
     bind_result (find_operator fns name inputs) (\<lambda>impl.
     bind_result (impl_bind sets impl inputs) (\<lambda>(t, inputs').
     Inr (\<lparr>pf_name = name, pf_return_type = t, pf_volatility = Consistent\<rparr>, inputs')))"

fun is_flat :: "scalar_impl \<Rightarrow> bool" where
  "is_flat (FlatImpl _) = True"
| "is_flat _ = False"

section \<open>What binding returns\<close>

lemma cast_shape:
  assumes "new_using_default_casts sets e to = Inr e'"
  shows "\<exists>x c. e' = Cast to x c \<and> (x = e \<or> (\<exists>t f. e = Cast t x f))"
  using assms
  by (auto simp: new_using_default_casts_def wrap_cast_def cast_unconditionally_def bind_result_eq_Inr
      split: option.splits expression.splits if_splits)

text \<open>An input is returned as it was, or below a cast.\<close>

definition bound_input :: "cast_function_set list \<Rightarrow> expression \<Rightarrow> expression \<Rightarrow> bool" where
  "bound_input sets e e' \<longleftrightarrow> e' = e \<or> (\<exists>to. new_using_default_casts sets e to = Inr e')"

lemma unwrap_eq_Inr [simp]: "unwrap r = Inr a \<longleftrightarrow> r = Inr a"
  by (auto simp: unwrap_def split: sum.splits)

text \<open>The two inputs of a binary function, each of them returned as it was or below a cast.\<close>

definition bound_pair :: "cast_function_set list \<Rightarrow> expression \<Rightarrow> expression \<Rightarrow> expression list \<Rightarrow> bool" where
  "bound_pair sets l r inputs \<longleftrightarrow> (\<exists>l' r'. inputs = [l', r'] \<and> bound_input sets l l' \<and> bound_input sets r r')"

lemma cast_inputs_bound:
  assumes "cast_inputs cast l l_to r r_to ret = Inr (t, inputs)"
    and "\<And>e t e'. cast e t = Inr e' \<Longrightarrow> new_using_default_casts sets e t = Inr e'"
  shows "bound_pair sets l r inputs"
proof -
  have "bound_input sets e e'" if "(case to of Some t \<Rightarrow> cast e t | None \<Rightarrow> Inr e) = Inr e'" for e to e'
    using that assms(2) by (cases to) (auto simp: bound_input_def)
  then show ?thesis using assms(1) by (auto simp: cast_inputs_def bound_pair_def bind_result_eq_Inr)
qed

text \<open>
  What a decimal implementation does is decided by the types of the inputs: which casts to insert and
  what type to return.
\<close>

definition inserts_casts ::
  "(expression \<Rightarrow> data_type \<Rightarrow> expression result) \<Rightarrow> (expression \<Rightarrow> expression \<Rightarrow> (data_type \<times> expression list) result)
    \<Rightarrow> expression \<Rightarrow> expression \<Rightarrow> bool" where
  "inserts_casts cast bind l r \<longleftrightarrow>
     (\<exists>l_to r_to ret. \<forall>l' r'. expr_datatype l' = expr_datatype l \<longrightarrow> expr_datatype r' = expr_datatype r \<longrightarrow>
        bind l' r' = cast_inputs cast l' l_to r' r_to ret)"

lemma inserts_castsI:
  "(\<And>l' r'. expr_datatype l' = expr_datatype l \<Longrightarrow> expr_datatype r' = expr_datatype r \<Longrightarrow>
     bind l' r' = cast_inputs cast l' l_to r' r_to ret) \<Longrightarrow> inserts_casts cast bind l r"
  unfolding inserts_casts_def by blast

lemma decimal_bind_casts:
  assumes "decimal_bind sets k l r = Inr z"
  shows "inserts_casts (new_using_default_casts sets) (decimal_bind sets k) l r"
proof -
  obtain lm rm where m: "bind_result (expr_datatype l) try_decimal_meta = Inr lm"
      "bind_result (expr_datatype r) try_decimal_meta = Inr rm"
    using assms unfolding decimal_bind_def bind_result_eq_Inr by blast
  show ?thesis
  proof (cases "lm = rm")
    case True
    then show ?thesis using m by (intro inserts_castsI [of l r _ _ None None]) (simp add: decimal_bind_def cast_inputs_def)
  next
    case False
    then obtain p where p: "common_precision lm rm = Inr p"
      using assms m by (auto simp: decimal_bind_def bind_result_eq_Inr)
    show ?thesis using m p False
      by (intro inserts_castsI) (simp only: decimal_bind_def bind_result_simps if_True simp_thms Let_def case_prod_beta)
  qed
qed

lemma decimal_add_sub_bind_casts:
  assumes "decimal_add_sub_bind cast k l r = Inr z"
  shows "inserts_casts cast (decimal_add_sub_bind cast k) l r"
proof -
  obtain lt rt info where m: "expr_datatype l = Inr lt" "expr_datatype r = Inr rt"
      "common_add_sub_decimal_type_info k lt rt = Inr info"
    using assms unfolding decimal_add_sub_bind_def bind_result_eq_Inr by blast
  show ?thesis using m by (intro inserts_castsI) (simp only: decimal_add_sub_bind_def bind_result_simps Let_def)
qed

lemma decimal_mul_bind_casts:
  assumes "decimal_mul_bind sets k l r = Inr z"
  shows "inserts_casts (new_using_default_casts sets) (decimal_mul_bind sets k) l r"
proof -
  obtain lt rt lm rm p sc where m: "expr_datatype l = Inr lt" "expr_datatype r = Inr rt" "decimal_meta_of lt = Inr lm"
      "decimal_meta_of rt = Inr rm" "u8_checked (dm_precision lm + dm_precision rm) = Inr p"
      "i8_checked (dm_scale lm + dm_scale rm) = Inr sc"
    using assms unfolding decimal_mul_bind_def bind_result_eq_Inr by blast
  then have "\<not> sc > int (max_precision k)" "\<not> sc > int (if p > max_precision k then max_precision k else p)"
    using assms by (auto simp: decimal_mul_bind_def Let_def split: if_splits)
  then show ?thesis using m
    by (intro inserts_castsI) (simp only: decimal_mul_bind_def bind_result_simps Let_def if_False)
qed

lemma inserts_casts_bound:
  assumes "inserts_casts cast bind l r" and "bind l r = Inr (t, inputs)"
    and "\<And>e t e'. cast e t = Inr e' \<Longrightarrow> new_using_default_casts sets e t = Inr e'"
  shows "bound_pair sets l r inputs"
  using assms cast_inputs_bound [OF _ assms(3)] unfolding inserts_casts_def by metis

lemma div_decimal_bind_inputs: "div_decimal_bind sets l r = Inr (t, inputs) \<Longrightarrow> bound_pair sets l r inputs"
  by (auto simp: div_decimal_bind_def bind_result_eq_Inr bound_pair_def bound_input_def)

lemma impl_bind_inputs:
  assumes "impl_bind sets impl [l, r] = Inr (t, inputs)"
  shows "bound_pair sets l r inputs"
proof (cases impl)
  case (FlatImpl x)
  then show ?thesis using assms by (auto simp: bound_pair_def bound_input_def)
next
  case (DecimalComparisonImpl k)
  then show ?thesis using assms inserts_casts_bound [OF decimal_bind_casts] by (auto simp: pop_two_def)
next
  case (DecimalAddImpl k)
  then show ?thesis
    using assms inserts_casts_bound [OF decimal_add_sub_bind_casts, of "\<lambda>e t. unwrap (new_using_default_casts sets e t)"]
    by (auto simp: pop_two_def decimal_add_bind_def)
next
  case (DecimalSubImpl k)
  then show ?thesis
    using assms inserts_casts_bound [OF decimal_add_sub_bind_casts, of "new_using_default_casts sets"]
    by (auto simp: pop_two_def decimal_sub_bind_def)
next
  case (DecimalMulImpl k)
  then show ?thesis using assms inserts_casts_bound [OF decimal_mul_bind_casts] by (auto simp: pop_two_def)
next
  case DivDecimalImpl
  then show ?thesis using assms div_decimal_bind_inputs by (auto simp: pop_two_def)
qed

lemma flat_bind: "is_flat impl \<Longrightarrow> impl_bind sets impl inputs = Inr (t, inputs') \<Longrightarrow> inputs' = inputs"
  by (cases impl) auto

lemma find_operator_in:
  assumes "find_operator fns name inputs = Inr impl"
  shows "impl \<in> snd ` set fns"
proof -
  obtain ids i where "find_exact \<lparr>fs_name = name, fs_signatures = map fst fns\<rparr> ids = Some i" "impl = snd (fns ! i)"
    using assms by (auto simp: find_operator_def bind_result_eq_Inr split: option.split_asm)
  then show ?thesis using find_exact_Some by fastforce
qed

text \<open>The lookup finds the first implementation whose signature matches.\<close>

lemma find_map_option: "map_option f (List.find (\<lambda>x. P (f x)) xs) = List.find P (map f xs)"
  by (induction xs) auto

lemma find_operator_first:
  "find_operator fns name inputs =
     bind_result (collect_results expr_datatype inputs) (\<lambda>types.
       case List.find (\<lambda>f. exact_match (fst f) (map type_id types)) fns of
         None \<Rightarrow> Inl (DbError ''Expected exact function signature match'')
       | Some f \<Rightarrow> Inr (snd f))"
proof -
  have "List.find (\<lambda>i. exact_match (map fst fns ! i) ids) [0..<length fns] =
      List.find (\<lambda>i. exact_match (fst (fns ! i)) ids) [0..<length fns]" for ids
    by (rule find_cong) simp_all
  then have first: "map_option ((!) fns) (find_exact \<lparr>fs_name = name, fs_signatures = map fst fns\<rparr> ids) =
      List.find (\<lambda>f. exact_match (fst f) ids) fns" for ids
    using find_map_option [of "(!) fns" "\<lambda>f. exact_match (fst f) ids" "[0..<length fns]"]
    by (simp add: find_exact_def map_nth)
  show ?thesis unfolding find_operator_def first [symmetric]
    by (intro bind_result_cong refl) (simp split: option.split)
qed

lemma exact_match_two [simp]:
  "exact_match (signature_new [a, b] ret) [l, r] \<longleftrightarrow> (a = AnyT \<or> l = a) \<and> (b = AnyT \<or> r = b)"
  by (simp add: exact_match_def signature_new_def is_variadic_def)

lemma exact_match_one [simp]: "exact_match (signature_new [a] ret) [l] \<longleftrightarrow> a = AnyT \<or> l = a"
  by (simp add: exact_match_def signature_new_def is_variadic_def)

lemma negate_functions_flat: "impl \<in> snd ` set (negate_functions op) \<Longrightarrow> is_flat impl"
  by (cases op) auto

lemma boolean_functions_flat: "impl \<in> snd ` set boolean_functions \<Longrightarrow> is_flat impl"
  by (simp add: boolean_functions_def)

lemma bind_operator_inputs:
  assumes "bind_operator sets fns name [l, r] = Inr (f, inputs)"
  shows "bound_pair sets l r inputs"
  using assms impl_bind_inputs by (auto simp: bind_operator_def bind_result_eq_Inr)

lemma bind_flat_inputs:
  assumes "bind_operator sets fns name es = Inr (f, inputs)" and "\<And>impl. impl \<in> snd ` set fns \<Longrightarrow> is_flat impl"
  shows "inputs = es"
  using assms flat_bind find_operator_in by (fastforce simp: bind_operator_def bind_result_eq_Inr)

lemmas bind_negate_inputs = bind_flat_inputs [OF _ negate_functions_flat]
lemmas bind_boolean_inputs = bind_flat_inputs [OF _ boolean_functions_flat]

lemma bound_input_size: "bound_input sets e e' \<Longrightarrow> size e' \<le> Suc (size e)"
  by (auto simp: bound_input_def dest!: cast_shape)

section \<open>The common type of decimal operands\<close>

lemma find_operator_matches:
  assumes "find_operator fns name inputs = Inr impl" and "collect_results expr_datatype inputs = Inr types"
  shows "\<exists>sig. (sig, impl) \<in> set fns \<and> exact_match sig (map type_id types)"
proof -
  obtain f where "List.find (\<lambda>f. exact_match (fst f) (map type_id types)) fns = Some f" "impl = snd f"
    using assms by (auto simp: find_operator_first split: option.split_asm)
  then show ?thesis by (intro exI [of _ "fst f"]) (auto simp: find_Some_iff)
qed

fun decimal_id :: "decimal_kind \<Rightarrow> data_type_id" where
  "decimal_id Decimal64K = Decimal64T"
| "decimal_id Decimal128K = Decimal128T"

lemma datatype_from_meta: "datatype_from_decimal_meta k m = DataType (decimal_id k) (MetaDecimal m)"
  by (cases k) (simp_all add: decimal64_type_def decimal128_type_def)

text \<open>The implementations that bring both sides to one decimal type.\<close>

fun common_kind :: "scalar_impl \<Rightarrow> decimal_kind option" where
  "common_kind (DecimalComparisonImpl k) = Some k"
| "common_kind (DecimalAddImpl k) = Some k"
| "common_kind (DecimalSubImpl k) = Some k"
| "common_kind _ = None"

definition common_functions :: "scalar_functions set" where
  "common_functions = {comparison_functions, arith_functions ArithAdd, arith_functions ArithSub}"

text \<open>A decimal among the arguments of a signature has the kind of the implementation.\<close>

lemma common_kind_arguments:
  assumes "fns \<in> common_functions" and "(sig, impl) \<in> set fns" and "common_kind impl = Some k"
    and "exact_match sig [i, j]"
  shows "i \<in> {Decimal64T, Decimal128T} \<longrightarrow> i = decimal_id k" "j \<in> {Decimal64T, Decimal128T} \<longrightarrow> j = decimal_id k"
  using assms
  by (auto simp: common_functions_def comparison_functions_def add_functions_def sub_functions_def numeric_functions_def
      decimal_functions_def flat2_def)

lemma legal_decimal:
  assumes "type_ok t" and "decimal_meta_opt t = Some m" and "type_id t \<in> {Decimal64T, Decimal128T} \<longrightarrow> type_id t = decimal_id k"
  shows "t = datatype_from_decimal_meta k m"
  using assms by (cases t) (auto simp: type_ok_def decimal_meta_opt_def datatype_from_meta split: data_type_meta.splits)

lemma cast_inputs_types:
  assumes "cast_inputs cast l l_to r r_to ret = Inr (t, inputs)"
    and "\<And>e t e'. cast e t = Inr e' \<Longrightarrow> expr_datatype e' = Inr t"
    and "l_to = Some u \<or> l_to = None \<and> expr_datatype l = Inr u" and "r_to = Some u \<or> r_to = None \<and> expr_datatype r = Inr u"
  shows "\<exists>a b. inputs = [a, b] \<and> expr_datatype a = Inr u \<and> expr_datatype b = Inr u"
  using assms by (auto simp: cast_inputs_def bind_result_eq_Inr)

definition capped_meta :: "decimal_kind \<Rightarrow> nat \<Rightarrow> int \<Rightarrow> decimal_meta" where
  "capped_meta k p sc = \<lparr>dm_precision = (if p > max_precision k then max_precision k else p), dm_scale = sc\<rparr>"

lemma capped_type_ok: "type_ok (datatype_from_decimal_meta k (capped_meta k p sc))"
  by (cases k) (simp_all add: type_ok_def datatype_from_meta capped_meta_def)

lemma common_precision_scale: "common_precision l r = Inr (p, sc) \<Longrightarrow> sc = max (dm_scale l) (dm_scale r)"
  by (auto simp: common_precision_def bind_result_eq_Inr Let_def)

lemma decimal_bind_common:
  assumes bind: "decimal_bind sets k l r = Inr (t, inputs)"
    and types: "expr_datatype l = Inr lt" "expr_datatype r = Inr rt"
    and legal: "\<And>m. decimal_meta_opt lt = Some m \<Longrightarrow> lt = datatype_from_decimal_meta k m"
      "\<And>m. decimal_meta_opt rt = Some m \<Longrightarrow> rt = datatype_from_decimal_meta k m" "type_ok lt" "type_ok rt"
  shows "\<exists>u a b. inputs = [a, b] \<and> expr_datatype a = Inr u \<and> expr_datatype b = Inr u \<and> type_ok u \<and> type_id u = decimal_id k"
proof -
  obtain lm rm where m: "decimal_meta_opt lt = Some lm" "decimal_meta_opt rt = Some rm"
    using bind types by (auto simp: decimal_bind_def bind_result_eq_Inr try_decimal_meta_def split: option.split_asm)
  then have lr: "lt = datatype_from_decimal_meta k lm" "rt = datatype_from_decimal_meta k rm" using legal by simp_all
  show ?thesis
  proof (cases "lm = rm")
    case True
    then show ?thesis using bind types m lr legal(3)
      by (auto simp: decimal_bind_def try_decimal_meta_def datatype_from_meta)
  next
    case False
    then obtain p sc where "common_precision lm rm = Inr (p, sc)"
      using bind types m by (auto simp: decimal_bind_def bind_result_eq_Inr try_decimal_meta_def)
    then have "cast_inputs (new_using_default_casts sets) l
          (if lm \<noteq> capped_meta k p sc then Some (datatype_from_decimal_meta k (capped_meta k p sc)) else None)
          r (if rm \<noteq> capped_meta k p sc then Some (datatype_from_decimal_meta k (capped_meta k p sc)) else None) boolean_type
        = Inr (t, inputs)"
      using bind types m False unfolding capped_meta_def
      by (simp add: decimal_bind_def try_decimal_meta_def Let_def split del: if_split)
    then have "\<exists>a b. inputs = [a, b] \<and> expr_datatype a = Inr (datatype_from_decimal_meta k (capped_meta k p sc)) \<and>
        expr_datatype b = Inr (datatype_from_decimal_meta k (capped_meta k p sc))"
      by (rule cast_inputs_types) (use lr types cast_has_target_type in auto)
    then show ?thesis using capped_type_ok [of k p sc] by (auto simp: datatype_from_meta)
  qed
qed

lemma decimal_add_sub_bind_common:
  assumes bind: "decimal_add_sub_bind cast k l r = Inr (t, inputs)"
    and cast: "\<And>e t e'. cast e t = Inr e' \<Longrightarrow> expr_datatype e' = Inr t"
    and types: "expr_datatype l = Inr lt" "expr_datatype r = Inr rt"
    and legal: "\<And>m. decimal_meta_opt lt = Some m \<Longrightarrow> lt = datatype_from_decimal_meta k m"
      "\<And>m. decimal_meta_opt rt = Some m \<Longrightarrow> rt = datatype_from_decimal_meta k m"
  shows "\<exists>u a b. inputs = [a, b] \<and> expr_datatype a = Inr u \<and> expr_datatype b = Inr u \<and> type_ok u \<and> type_id u = decimal_id k"
proof -
  obtain info where info: "common_add_sub_decimal_type_info k lt rt = Inr info"
    using bind types by (auto simp: decimal_add_sub_bind_def bind_result_eq_Inr)
  then obtain p sc where meta: "ci_meta info = capped_meta k p sc"
    by (auto simp: common_add_sub_decimal_type_info_def bind_result_eq_Inr capped_meta_def)
  let ?u = "datatype_from_decimal_meta k (ci_meta info)"
  have run: "cast_inputs cast l (if decimal_meta_opt lt = Some (ci_meta info) then None else Some ?u)
      r (if decimal_meta_opt rt = Some (ci_meta info) then None else Some ?u) ?u = Inr (t, inputs)"
    using bind types info by (simp add: decimal_add_sub_bind_def Let_def)
  have "\<exists>a b. inputs = [a, b] \<and> expr_datatype a = Inr ?u \<and> expr_datatype b = Inr ?u"
    by (rule cast_inputs_types [OF run cast]) (use types legal in \<open>auto split: if_splits\<close>)
  then show ?thesis using capped_type_ok [of k p sc] meta by (auto simp: datatype_from_meta)
qed

section \<open>Properties\<close>

text \<open>
  C14. The operands of a bound comparison, addition or subtraction of decimals have one and the same
  type: a decimal of the kind of the implementation that was found, with metadata that fits it.
  The types of the operands before binding have metadata that fits their ids.
\<close>

theorem decimal_operands_common_type:
  assumes "fns \<in> common_functions" and "find_operator fns name [l, r] = Inr impl" and "common_kind impl = Some k"
    and "impl_bind sets impl [l, r] = Inr (t, inputs)"
    and "expr_datatype l = Inr lt" and "expr_datatype r = Inr rt" and "type_ok lt" and "type_ok rt"
  shows "\<exists>u a b. inputs = [a, b] \<and> expr_datatype a = Inr u \<and> expr_datatype b = Inr u \<and>
    type_ok u \<and> type_id u = decimal_id k"
proof -
  obtain sig where sig: "(sig, impl) \<in> set fns" "exact_match sig [type_id lt, type_id rt]"
    using find_operator_matches [OF assms(2), of "[lt, rt]"] assms(5,6) by auto
  note ids = common_kind_arguments [OF assms(1) sig(1) assms(3) sig(2)]
  have legal: "decimal_meta_opt lt = Some m \<Longrightarrow> lt = datatype_from_decimal_meta k m"
    "decimal_meta_opt rt = Some m \<Longrightarrow> rt = datatype_from_decimal_meta k m" for m
    using legal_decimal [OF assms(7) _ ids(1)] legal_decimal [OF assms(8) _ ids(2)] by blast+
  note add = decimal_add_sub_bind_common [OF _ _ assms(5,6) legal, of _ t inputs]
  show ?thesis
  proof (cases impl)
    case (DecimalComparisonImpl k')
    then show ?thesis
      using assms(3,4) decimal_bind_common [OF _ assms(5,6) legal assms(7,8)] by (simp add: pop_two_def)
  next
    case (DecimalAddImpl k')
    then show ?thesis
      using assms(3,4) add [of "\<lambda>e t. unwrap (new_using_default_casts sets e t)"] cast_has_target_type
      by (simp add: pop_two_def decimal_add_bind_def)
  next
    case (DecimalSubImpl k')
    then show ?thesis
      using assms(3,4) add [of "new_using_default_casts sets"] cast_has_target_type
      by (simp add: pop_two_def decimal_sub_bind_def)
  qed (use assms(3) in simp_all)
qed

text \<open>A table of casts to 64-bit decimals, and the sum of a decimal and an integer column.\<close>

definition decimal_casts :: "cast_function_set list" where
  "decimal_casts = [\<lparr>cs_name = ''to_decimal64'', cs_target = Decimal64T, cs_functions =
     [\<lparr>cf_src = Int32T, cf_rule = CastImplicit 1, cf_flatten = FlattenSafe, cf_bind = (\<lambda>_ _. Inr ())\<rparr>,
      \<lparr>cf_src = Decimal64T, cf_rule = CastExplicit, cf_flatten = FlattenUnsafe, cf_bind = (\<lambda>_ _. Inr ())\<rparr>]\<rparr>]"

definition decimal_type :: data_type where
  "decimal_type = decimal64_type \<lparr>dm_precision = 12, dm_scale = 2\<rparr>"

definition sum_type :: data_type where
  "sum_type = decimal64_type \<lparr>dm_precision = 13, dm_scale = 2\<rparr>"

definition price_column :: expression where
  "price_column = Column (ColumnExpr (ColumnReference 1 0) decimal_type)"

definition count_column :: expression where
  "count_column = Column (ColumnExpr (ColumnReference 0 1) (new_primitive Int32T))"

definition sum_inputs :: "expression list" where
  "sum_inputs = [Cast sum_type price_column \<lparr>pc_name = ''to_decimal64'', pc_src = Decimal64T\<rparr>,
                 Cast sum_type count_column \<lparr>pc_name = ''to_decimal64'', pc_src = Int32T\<rparr>]"

lemma sum_found: "find_operator (arith_functions ArithAdd) ''+'' [price_column, count_column] = Inr (DecimalAddImpl Decimal64K)"
  by (simp add: find_operator_first price_column_def count_column_def decimal_type_def decimal64_type_def new_primitive_def
      add_functions_def numeric_functions_def decimal_functions_def flat2_def)

lemma sum_bound:
  "impl_bind decimal_casts (DecimalAddImpl Decimal64K) [price_column, count_column] = Inr (sum_type, sum_inputs)"
  by (simp add: pop_two_def decimal_add_bind_def decimal_add_sub_bind_def common_add_sub_decimal_type_info_def decimal_meta_of_def decimal_meta_opt_def
      common_precision_def i8_checked_def u8_checked_def u8_as_i8_def i8_as_u8_def cast_inputs_def unwrap_def
      new_using_default_casts_def find_cast_function_set_def cast_unconditionally_def find_cast_function_def wrap_cast_def
      decimal_casts_def price_column_def count_column_def sum_inputs_def decimal_type_def sum_type_def decimal64_type_def
      new_primitive_def Let_def)

theorem decimal_operands_common_type_witness:
  "find_operator (arith_functions ArithAdd) ''+'' [price_column, count_column] = Inr (DecimalAddImpl Decimal64K) \<and>
   impl_bind decimal_casts (DecimalAddImpl Decimal64K) [price_column, count_column] = Inr (sum_type, sum_inputs) \<and>
   (\<exists>u a b. sum_inputs = [a, b] \<and> expr_datatype a = Inr u \<and> expr_datatype b = Inr u \<and>
     type_ok u \<and> type_id u = Decimal64T)"
proof -
  have "\<exists>u a b. sum_inputs = [a, b] \<and> expr_datatype a = Inr u \<and> expr_datatype b = Inr u \<and>
      type_ok u \<and> type_id u = decimal_id Decimal64K"
    by (rule decimal_operands_common_type [OF _ sum_found _ sum_bound, where lt = decimal_type and rt = "new_primitive Int32T"])
      (simp_all add: common_functions_def price_column_def count_column_def decimal_type_def decimal64_type_def
        new_primitive_def type_ok_def)
  then show ?thesis using sum_found sum_bound by simp
qed

end
