(* ===== verification/Like.thy ===== *)
theory Like
  imports Prelude "HOL-Library.Sublist"
begin

text \<open>
  LIKE patterns: their translation to a regular expression
  (\<open>functions/scalar/builtin/string/like.rs\<close>) and the tests by which the optimizer replaces a
  LIKE by a comparison, a prefix, a suffix or a substring test
  (\<open>optimizer/expr_rewrite/like.rs\<close>).

  A string is the list of its characters. The \<open>regex\<close> crate is a parameter: \<open>escape\<close>, and
  \<open>regex_new\<close>, which may refuse an expression (it has a size limit) and otherwise returns its
  matcher. What is assumed of them is the documented meaning of the expressions that the
  translation builds (\<open>regex_matches\<close>); in particular \<open>.\<close> does not match a line feed.
\<close>

abbreviation backslash :: char where "backslash \<equiv> CHR 0x5C"
abbreviation newline :: char where "newline \<equiv> CHR 0x0A"
abbreviation percent :: char where "percent \<equiv> CHR ''%''"
abbreviation underscore :: char where "underscore \<equiv> CHR ''_''"

section \<open>Patterns as regular expressions\<close>

datatype regex_piece = AnySeq | AnyChar | Exactly char

fun pattern_pieces :: "string \<Rightarrow> regex_piece list" where
  "pattern_pieces [] = []"
| "pattern_pieces [c] =
     (if c = backslash then [Exactly c] else if c = percent then [AnySeq]
      else if c = underscore then [AnyChar] else [Exactly c])"
| "pattern_pieces (c # d # cs) =
     (if c = backslash then Exactly d # pattern_pieces cs
      else if c = percent then AnySeq # pattern_pieces (d # cs)
      else if c = underscore then AnyChar # pattern_pieces (d # cs)
      else Exactly c # pattern_pieces (d # cs))"

fun piece_regex :: "(string \<Rightarrow> string) \<Rightarrow> regex_piece \<Rightarrow> string" where
  "piece_regex escape AnySeq = ''.*''"
| "piece_regex escape AnyChar = ''.''"
| "piece_regex escape (Exactly c) = escape [c]"

type_synonym regex_new = "string \<Rightarrow> (string \<Rightarrow> bool) option"

definition pieces_regex :: "(string \<Rightarrow> string) \<Rightarrow> regex_piece list \<Rightarrow> string" where
  "pieces_regex escape ps = ''^'' @ concat (map (piece_regex escape) ps) @ ''$''"

definition like_pattern_to_regex :: "(string \<Rightarrow> string) \<Rightarrow> regex_new \<Rightarrow> string \<Rightarrow> (string \<Rightarrow> bool) result" where
  "like_pattern_to_regex escape regex_new pattern =
     (case regex_new (pieces_regex escape (pattern_pieces pattern)) of
        Some regex \<Rightarrow> Inr regex
      | None \<Rightarrow> Inl (DbError ''Failed to build regex pattern''))"

text \<open>
  LIKE on one row. The source builds the expression of a constant pattern when it binds the call,
  and reports the failure there; for a computed pattern it builds it on every row, and a
  failure leaves the row unwritten, which is an error of the row here.
\<close>

definition like :: "(string \<Rightarrow> string) \<Rightarrow> regex_new \<Rightarrow> string \<Rightarrow> string \<Rightarrow> bool result" where
  "like escape regex_new s pattern =
     bind_result (like_pattern_to_regex escape regex_new pattern) (\<lambda>regex. Inr (regex s))"

text \<open>The language of a sequence of pieces.\<close>

fun pieces_match :: "regex_piece list \<Rightarrow> string \<Rightarrow> bool" where
  "pieces_match [] s \<longleftrightarrow> s = []"
| "pieces_match (Exactly c # ps) s \<longleftrightarrow> (case s of [] \<Rightarrow> False | x # xs \<Rightarrow> x = c \<and> pieces_match ps xs)"
| "pieces_match (AnyChar # ps) s \<longleftrightarrow> (case s of [] \<Rightarrow> False | x # xs \<Rightarrow> x \<noteq> newline \<and> pieces_match ps xs)"
| "pieces_match (AnySeq # ps) s \<longleftrightarrow>
     pieces_match ps s \<or> (case s of [] \<Rightarrow> False | x # xs \<Rightarrow> x \<noteq> newline \<and> pieces_match (AnySeq # ps) xs)"

definition regex_matches :: "(string \<Rightarrow> string) \<Rightarrow> regex_new \<Rightarrow> bool" where
  "regex_matches escape regex_new \<longleftrightarrow>
     (\<forall>ps m s. regex_new (pieces_regex escape ps) = Some m \<longrightarrow> m s = pieces_match ps s)"

section \<open>The tests of the optimizer\<close>

definition can_str_compare :: "string \<Rightarrow> bool" where
  "can_str_compare s \<longleftrightarrow> percent \<notin> set s \<and> underscore \<notin> set s"

definition is_contains_pattern :: "string \<Rightarrow> bool" where
  "is_contains_pattern s \<longleftrightarrow>
     (if length s < 2 then False
      else if hd s \<noteq> percent then False
      else if s ! (length s - 1) \<noteq> percent then False
      else let sub = take (length s - 2) (drop 1 s)
           in if sub \<noteq> [] \<and> last sub = backslash then False
              else \<not> (percent \<in> set sub \<or> underscore \<in> set sub))"

fun find_char :: "char \<Rightarrow> string \<Rightarrow> nat option" where
  "find_char c [] = None"
| "find_char c (x # xs) = (if x = c then Some 0 else map_option Suc (find_char c xs))"

definition is_prefix_pattern :: "string \<Rightarrow> bool" where
  "is_prefix_pattern s =
     (case find_char percent s of
        None \<Rightarrow> False
      | Some pat_pos \<Rightarrow>
          if underscore \<in> set s then False
          else if pat_pos \<noteq> length s - 1 then False
          else if pat_pos \<noteq> 0 \<and> s ! (pat_pos - 1) = backslash then False
          else True)"

definition is_suffix_pattern :: "string \<Rightarrow> bool" where
  "is_suffix_pattern s \<longleftrightarrow>
     (if s = [] then False
      else if s ! 0 \<noteq> percent then False
      else \<not> (percent \<in> set (drop 1 s) \<or> underscore \<in> set s))"

definition trim_matches :: "char \<Rightarrow> string \<Rightarrow> string" where
  "trim_matches c s = rev (dropWhile (\<lambda>x. x = c) (rev (dropWhile (\<lambda>x. x = c) s)))"

section \<open>Matching\<close>

lemma like_pieces:
  "regex_matches escape regex_new \<Longrightarrow> like escape regex_new s p = Inr b \<Longrightarrow> b = pieces_match (pattern_pieces p) s"
  by (auto simp: regex_matches_def like_def like_pattern_to_regex_def bind_result_eq_Inr split: option.splits)

lemma pieces_plain: "backslash \<notin> set (butlast p) \<Longrightarrow> can_str_compare p \<Longrightarrow> pattern_pieces p = map Exactly p"
  by (induction p rule: pattern_pieces.induct) (auto simp: can_str_compare_def split: if_splits)

lemma pieces_literal: "pieces_match (map Exactly q @ ps) s \<longleftrightarrow> (\<exists>t. s = q @ t \<and> pieces_match ps t)"
proof (induction q arbitrary: s)
  case (Cons c q)
  then show ?case by (cases s) auto
qed simp

lemma pieces_any: "newline \<notin> set s \<Longrightarrow> pieces_match (AnySeq # ps) s \<longleftrightarrow> (\<exists>u t. s = u @ t \<and> pieces_match ps t)"
proof (induction s)
  case (Cons x xs)
  show ?case
  proof
    assume "pieces_match (AnySeq # ps) (x # xs)"
    then consider "pieces_match ps (x # xs)" | "pieces_match (AnySeq # ps) xs" by auto
    then show "\<exists>u t. x # xs = u @ t \<and> pieces_match ps t"
    proof cases
      case 1
      then show ?thesis by (intro exI [of _ "[]"] exI [of _ "x # xs"]) simp
    next
      case 2
      then obtain u t where "xs = u @ t" "pieces_match ps t" using Cons by auto
      then show ?thesis by (intro exI [of _ "x # u"] exI [of _ t]) simp
    qed
  next
    assume "\<exists>u t. x # xs = u @ t \<and> pieces_match ps t"
    then show "pieces_match (AnySeq # ps) (x # xs)" using Cons by (auto simp: Cons_eq_append_conv)
  qed
qed simp

lemma pieces_append:
  assumes "backslash \<notin> set p"
  shows "pattern_pieces (p @ q) = pattern_pieces p @ pattern_pieces q"
  using assms
proof (induction p rule: pattern_pieces.induct)
  case (2 c)
  then show ?case by (cases q) simp_all
qed simp_all

lemma dropWhile_replicate: "dropWhile (\<lambda>x. x = c) (replicate m c @ ys) = dropWhile (\<lambda>x. x = c) ys"
  by (induction m) simp_all

lemma dropWhile_absent: "c \<notin> set q \<Longrightarrow> q \<noteq> [] \<Longrightarrow> dropWhile (\<lambda>x. x = c) (q @ r) = q @ r"
  by (cases q) auto

lemma trim_matches_middle:
  assumes "c \<notin> set q"
  shows "trim_matches c (replicate m c @ q @ replicate n c) = q"
proof (cases "q = []")
  case True
  then show ?thesis using dropWhile_replicate [of c _ "[]"] by (simp add: trim_matches_def flip: replicate_add)
next
  case False
  then show ?thesis
    using assms dropWhile_absent [of c "rev q" "[]"]
    by (simp add: trim_matches_def dropWhile_replicate dropWhile_absent)
qed

section \<open>What the tests say about a pattern\<close>

text \<open>Plain text: no wildcard and no escape.\<close>

definition plain :: "string \<Rightarrow> bool" where
  "plain q \<longleftrightarrow> percent \<notin> set q \<and> underscore \<notin> set q \<and> backslash \<notin> set q"

lemma plain_pieces: "plain q \<Longrightarrow> pattern_pieces q = map Exactly q"
  by (intro pieces_plain) (auto simp: plain_def can_str_compare_def dest: in_set_butlastD)

lemma find_char_last:
  "find_char c s = Some (length s - 1) \<Longrightarrow> s \<noteq> [] \<and> s = butlast s @ [c] \<and> c \<notin> set (butlast s)"
proof (induction s)
  case (Cons x xs)
  show ?case
  proof (cases xs)
    case (Cons y ys)
    then have "x \<noteq> c" "find_char c xs = Some (length xs - 1)" using Cons.prems by (auto split: if_splits)
    then show ?thesis using Cons.IH Cons by auto
  qed (use Cons.prems in \<open>auto split: if_splits\<close>)
qed simp

lemma prefix_pattern_shape:
  assumes "is_prefix_pattern p" and "backslash \<notin> set p"
  obtains q where "p = q @ [percent]" and "plain q"
proof
  have "find_char percent p = Some (length p - 1)" "underscore \<notin> set p"
    using assms(1) by (auto simp: is_prefix_pattern_def split: option.splits if_splits)
  then show "p = butlast p @ [percent]" "plain (butlast p)"
    using find_char_last [of percent p] assms(2) by (auto simp: plain_def dest: in_set_butlastD)
qed

lemma suffix_pattern_shape:
  assumes "is_suffix_pattern p" and "backslash \<notin> set p"
  obtains q where "p = percent # q" and "plain q"
  using assms by (cases p) (auto simp: is_suffix_pattern_def plain_def split: if_splits)

lemma contains_pattern_shape:
  assumes "is_contains_pattern p" and "backslash \<notin> set p"
  obtains q where "p = percent # q @ [percent]" and "plain q"
proof -
  have l: "2 \<le> length p" "hd p = percent" "p ! (length p - 1) = percent"
      "percent \<notin> set (take (length p - 2) (drop 1 p))" "underscore \<notin> set (take (length p - 2) (drop 1 p))"
    using assms(1) by (auto simp: is_contains_pattern_def Let_def split: if_splits)
  then obtain xs where xs: "p = percent # xs" "xs \<noteq> []" by (cases p) force+
  then have "last xs = percent" using l(3) by (simp add: last_conv_nth nth_Cons')
  then have p: "p = percent # butlast xs @ [percent]" using xs by (metis append_butlast_last_id)
  have sub: "take (length p - 2) (drop 1 p) = butlast xs" using xs by (simp add: butlast_conv_take)
  have "backslash \<notin> set (butlast xs)" using assms(2) xs(1) by (auto dest: in_set_butlastD)
  then have "plain (butlast xs)" using l(4,5) unfolding sub plain_def by blast
  with p show ?thesis by (rule that)
qed

lemma like_rewrites:
  assumes "regex_matches escape regex_new" and "backslash \<notin> set p" and "newline \<notin> set s"
    and "like escape regex_new s p = Inr b"
  shows "(can_str_compare p \<longrightarrow> b = (s = p)) \<and>
         (is_prefix_pattern p \<longrightarrow> b = prefix (trim_matches percent p) s) \<and>
         (is_suffix_pattern p \<longrightarrow> b = suffix (trim_matches percent p) s) \<and>
         (is_contains_pattern p \<longrightarrow> b = sublist (trim_matches percent p) s)"
proof (intro conjI impI)
  note m = like_pieces [OF assms(1,4)]
  have none: "pieces_match [AnySeq] t" if "newline \<notin> set t" for t
    using that by (induction t) auto
  show "b = (s = p)" if "can_str_compare p"
    using plain_pieces [of p] assms(2) that pieces_literal [of p "[]" s] by (auto simp: m plain_def can_str_compare_def)
  show "b = prefix (trim_matches percent p) s" if pat: "is_prefix_pattern p"
  proof -
    obtain q where q: "p = q @ [percent]" "plain q" using prefix_pattern_shape [OF pat assms(2)] by blast
    have "trim_matches percent p = q" using trim_matches_middle [of percent q 0 1] q by (simp add: plain_def)
    moreover have "pattern_pieces p = map Exactly q @ [AnySeq]"
      using q pieces_append [of q "[percent]"] plain_pieces [of q] by (simp add: plain_def)
    ultimately show ?thesis using assms(3) none by (auto simp: m pieces_literal prefix_def simp del: pieces_match.simps)
  qed
  show "b = suffix (trim_matches percent p) s" if pat: "is_suffix_pattern p"
  proof -
    obtain q where q: "p = percent # q" "plain q" using suffix_pattern_shape [OF pat assms(2)] by blast
    have "trim_matches percent p = q" using trim_matches_middle [of percent q 1 0] q by (simp add: plain_def)
    moreover have "pattern_pieces p = AnySeq # map Exactly q"
      using q pieces_append [of "[percent]" q] plain_pieces [of q] by simp
    moreover have "pieces_match (map Exactly q) t = (t = q)" for t using pieces_literal [of q "[]" t] by auto
    ultimately show ?thesis using pieces_any [OF assms(3), of "map Exactly q"] by (auto simp: m suffix_def simp del: pieces_match.simps)
  qed
  show "b = sublist (trim_matches percent p) s" if pat: "is_contains_pattern p"
  proof -
    obtain q where q: "p = percent # q @ [percent]" "plain q" using contains_pattern_shape [OF pat assms(2)] by blast
    have "trim_matches percent p = q" using trim_matches_middle [of percent q 1 1] q by (simp add: plain_def)
    moreover have "pattern_pieces p = AnySeq # map Exactly q @ [AnySeq]"
      using q pieces_append [of "[percent]" "q @ [percent]"] pieces_append [of q "[percent]"] plain_pieces [of q]
      by (simp add: plain_def)
    moreover have "pieces_match (AnySeq # map Exactly q @ [AnySeq]) s \<longleftrightarrow> (\<exists>u w. s = u @ q @ w)"
      unfolding pieces_any [OF assms(3)] pieces_literal
      using none assms(3) by (metis Un_iff set_append)
    ultimately show ?thesis by (simp add: m sublist_def del: pieces_match.simps)
  qed
qed

section \<open>Properties\<close>

text \<open>
  C24. The rewrites of LIKE are right for patterns without an escape character, on strings without a
  line feed, where LIKE has a value (the regular expression of the pattern can be built): a pattern without wildcards matches the equal string only, one of the form \<open>q%\<close>
  the strings that start with \<open>q\<close>, \<open>%q\<close> those that end with it, and \<open>%q%\<close> those that
  contain it, where \<open>q\<close> is what trimming the percent signs leaves.
\<close>

theorem like_rewrites_agree:
  assumes "regex_matches escape regex_new" and "backslash \<notin> set p" and "newline \<notin> set s"
    and "like escape regex_new s p = Inr b"
  shows "(can_str_compare p \<longrightarrow> b = (s = p)) \<and>
         (is_prefix_pattern p \<longrightarrow> b = prefix (trim_matches percent p) s) \<and>
         (is_suffix_pattern p \<longrightarrow> b = suffix (trim_matches percent p) s) \<and>
         (is_contains_pattern p \<longrightarrow> b = sublist (trim_matches percent p) s)"
  by (rule like_rewrites [OF assms])

text \<open>A matcher that reads the pieces back from the expression, for single-character escapes.\<close>

definition bracket_escape :: "string \<Rightarrow> string" where
  "bracket_escape s = ''['' @ s"

fun read_pieces :: "string \<Rightarrow> regex_piece list" where
  "read_pieces [] = []"
| "read_pieces (x # xs) =
     (if x = CHR ''['' then (case xs of [] \<Rightarrow> [] | c # cs \<Rightarrow> Exactly c # read_pieces cs)
      else if x = CHR ''.''
      then (case xs of [] \<Rightarrow> [AnyChar]
            | c # cs \<Rightarrow> if c = CHR ''*'' then AnySeq # read_pieces cs else AnyChar # read_pieces xs)
      else [])"

definition bracket_match :: "string \<Rightarrow> string \<Rightarrow> bool" where
  "bracket_match r s = pieces_match (read_pieces (drop 1 r)) s"

lemma bracket_escape_char [simp]: "bracket_escape [c] = [CHR ''['', c]"
  by (simp add: bracket_escape_def)

lemma read_pieces_dot: "(\<And>zs. cs \<noteq> CHR ''*'' # zs) \<Longrightarrow> read_pieces (CHR ''.'' # cs) = AnyChar # read_pieces cs"
  by (cases cs) (auto split: if_splits)

lemma read_pieces_concat: "read_pieces (concat (map (piece_regex bracket_escape) ps) @ ''$'') = ps"
proof (induction ps)
  case (Cons p ps)
  have start: "concat (map (piece_regex bracket_escape) ps) @ ''$'' \<noteq> CHR ''*'' # zs" for zs
  proof (cases ps)
    case (Cons p' ps')
    then show ?thesis by (cases p') simp_all
  qed simp
  then show ?case using Cons read_pieces_dot [OF start] by (cases p) simp_all
qed simp

definition bracket_new :: regex_new where
  "bracket_new r = Some (bracket_match r)"

lemma bracket_regex: "regex_matches bracket_escape bracket_new"
  by (auto simp: regex_matches_def bracket_new_def bracket_match_def pieces_regex_def read_pieces_concat simp del: append_assoc)

lemma bracket_like: "like bracket_escape bracket_new s p = Inr (pieces_match (pattern_pieces p) s)"
  by (simp add: like_def like_pattern_to_regex_def bracket_new_def bracket_match_def pieces_regex_def read_pieces_concat
      del: append_assoc)

theorem like_rewrites_agree_witness:
  "like bracket_escape bracket_new ''hello'' ''he%'' = Inr (prefix ''he'' ''hello'') \<and>
   like bracket_escape bracket_new ''hello'' ''%lo'' = Inr (suffix ''lo'' ''hello'') \<and>
   like bracket_escape bracket_new ''hello'' ''%ell%'' = Inr (sublist ''ell'' ''hello'')"
  using like_rewrites_agree [OF bracket_regex _ _ bracket_like, of "''he%''" "''hello''"]
    like_rewrites_agree [OF bracket_regex _ _ bracket_like, of "''%lo''" "''hello''"]
    like_rewrites_agree [OF bracket_regex _ _ bracket_like, of "''%ell%''" "''hello''"]
  by (simp add: bracket_like is_prefix_pattern_def is_suffix_pattern_def is_contains_pattern_def trim_matches_def
      del: pieces_match.simps)

text \<open>
  A pattern without wildcards is compared as it stands. That is the meaning of LIKE exactly when
  no escape character precedes the last character: otherwise LIKE drops the escape character
  and the comparison does not.
\<close>

lemma str_compare_iff_no_escape:
  assumes "can_str_compare p"
  shows "(\<forall>s. pieces_match (pattern_pieces p) s = (s = p)) \<longleftrightarrow> backslash \<notin> set (butlast p)"
proof -
  have len: "length (pattern_pieces p) \<le> length p" for p
    by (induction p rule: pattern_pieces.induct) auto
  have short: "length (pattern_pieces p) < length p" if "backslash \<in> set (butlast p)" for p
    using that by (induction p rule: pattern_pieces.induct) (auto simp: less_Suc_eq_le len split: if_splits)
  have exact: "length s = length ps" if "pieces_match ps s" "\<forall>x \<in> set ps. \<exists>c. x = Exactly c" for ps s
    using that by (induction ps s rule: pieces_match.induct) (auto split: list.splits)
  have all: "\<forall>x \<in> set (pattern_pieces p). \<exists>c. x = Exactly c"
    using assms by (induction p rule: pattern_pieces.induct) (auto simp: can_str_compare_def split: if_splits)
  show ?thesis
  proof
    assume "\<forall>s. pieces_match (pattern_pieces p) s = (s = p)"
    then have "pieces_match (pattern_pieces p) p" by simp
    then show "backslash \<notin> set (butlast p)" using exact all short [of p] by fastforce
  next
    assume "backslash \<notin> set (butlast p)"
    then show "\<forall>s. pieces_match (pattern_pieces p) s = (s = p)"
      using pieces_plain assms pieces_literal [of p "[]"] by auto
  qed
qed

end
