(* ===== verification/Bitmap.thy ===== *)
theory Bitmap
  imports Prelude
begin

text \<open>
  Bitmaps, validity masks and selections of the array layer
  (\<open>arrays/bitmap/view.rs\<close>, \<open>arrays/array/validity.rs\<close>, \<open>arrays/array/selection.rs\<close>).

  A bitmap view is a byte vector and a number of entries; bit \<open>i\<close> of the map is bit
  \<open>i mod 8\<close> of byte \<open>i div 8\<close>. The views require in-bounds indices (their documented
  precondition, checked by \<open>debug_assert!\<close>), and the lemmas about single entries carry it.
  The abstract value of a validity mask is the list of its entries, \<open>validity_bits\<close>; every
  operation is shown to act on that list.
\<close>

unbundle bit_operations_syntax

section \<open>Bitmap views\<close>

definition num_bytes_for_bitmap :: "nat \<Rightarrow> nat" where
  "num_bytes_for_bitmap entries = (entries + 7) div 8"

record bitmap_view =
  view_len :: nat
  view_data :: "8 word list"

text \<open>Indexing and slicing panic when the byte vector is too short.\<close>

definition bitmap_value :: "bitmap_view \<Rightarrow> nat \<Rightarrow> bool result" where
  "bitmap_value v idx =
     bind_result (vec_get (view_data v) (idx div 8))
       (\<lambda>byte. Inr ((drop_bit (idx mod 8) byte) AND 1 \<noteq> 0))"

definition count_ones :: "8 word \<Rightarrow> nat" where
  "count_ones b = length (filter (bit b) [0..<8])"

definition count_trues :: "bitmap_view \<Rightarrow> nat result" where
  "count_trues v =
     (if length (view_data v) < num_bytes_for_bitmap (view_len v)
      then Inl (Panic ''range end index out of range'')
      else let subset = take (num_bytes_for_bitmap (view_len v)) (view_data v);
               count = fold (\<lambda>b acc. acc + count_ones b) subset 0;
               rem = view_len v mod 8
           in if rem \<noteq> 0
              then let last = last subset;
                       mask = drop_bit (8 - rem) (push_bit (8 - rem) (255 :: 8 word))
                   in Inr (count - count_ones last + count_ones (mask AND last))
              else Inr count)"

definition all_true :: "bitmap_view \<Rightarrow> bool result" where
  "all_true v = bind_result (count_trues v) (\<lambda>n. Inr (n = view_len v))"

definition bitmap_set :: "bitmap_view \<Rightarrow> nat \<Rightarrow> bitmap_view result" where
  "bitmap_set v idx =
     (let byte = idx div 8; b = idx mod 8
      in bind_result (vec_get (view_data v) byte) (\<lambda>old.
         bind_result (vec_set (view_data v) byte (old OR push_bit b 1)) (\<lambda>data.
         Inr (v\<lparr>view_data := data\<rparr>))))"

definition bitmap_unset :: "bitmap_view \<Rightarrow> nat \<Rightarrow> bitmap_view result" where
  "bitmap_unset v idx =
     (let byte = idx div 8; b = idx mod 8
      in bind_result (vec_get (view_data v) byte) (\<lambda>old.
         bind_result (vec_set (view_data v) byte (old AND NOT (push_bit b 1))) (\<lambda>data.
         Inr (v\<lparr>view_data := data\<rparr>))))"

text \<open>
  The requirement of \<open>BitmapView::new\<close>, enough bytes for the entries, and the abstract value
  of a view: the list of its entries.
\<close>

definition bitmap_wf :: "bitmap_view \<Rightarrow> bool" where
  "bitmap_wf v \<longleftrightarrow> num_bytes_for_bitmap (view_len v) \<le> length (view_data v)"

definition bitmap_bits :: "bitmap_view \<Rightarrow> bool list" where
  "bitmap_bits v = map (\<lambda>i. bit (view_data v ! (i div 8)) (i mod 8)) [0..<view_len v]"

section \<open>Stores of bits\<close>

text \<open>
  The interface that bitmap views and validity masks share: a store whose abstract value is a
  list of booleans, with a read and two writes that never panic in bounds.
\<close>

locale bit_store =
  fixes wf :: "'s \<Rightarrow> bool"
    and bits :: "'s \<Rightarrow> bool list"
    and get :: "'s \<Rightarrow> nat \<Rightarrow> bool result"
    and set_bit :: "'s \<Rightarrow> nat \<Rightarrow> 's result"
    and unset_bit :: "'s \<Rightarrow> nat \<Rightarrow> 's result"
  assumes get_bits: "wf s \<Longrightarrow> i < length (bits s) \<Longrightarrow> get s i = Inr (bits s ! i)"
    and set_bits: "wf s \<Longrightarrow> i < length (bits s) \<Longrightarrow>
      \<exists>s'. set_bit s i = Inr s' \<and> wf s' \<and> bits s' = (bits s)[i := True]"
    and unset_bits: "wf s \<Longrightarrow> i < length (bits s) \<Longrightarrow>
      \<exists>s'. unset_bit s i = Inr s' \<and> wf s' \<and> bits s' = (bits s)[i := False]"
begin

lemma read_all:
  assumes "wf s" and "\<And>i. i \<in> set is \<Longrightarrow> i < length (bits s)"
  shows "collect_results (get s) is = Inr (map ((!) (bits s)) is)"
  using assms(2) by (induction "is") (auto simp: get_bits [OF \<open>wf s\<close>])

lemma set_where:
  assumes "wf s" and "k \<le> length (bits s)"
  shows "\<exists>s'. fold_results (\<lambda>i s. if p i then set_bit s i else Inr s) [0..<k] s = Inr s' \<and> wf s' \<and>
           bits s' = map (\<lambda>i. i < k \<and> p i \<or> bits s ! i) [0..<length (bits s)]"
  using assms(2)
proof (induction k)
  case 0
  then show ?case using assms(1) by (simp add: map_nth)
next
  case (Suc k)
  then obtain t where t: "fold_results (\<lambda>i s. if p i then set_bit s i else Inr s) [0..<k] s = Inr t"
    "wf t" "bits t = map (\<lambda>i. i < k \<and> p i \<or> bits s ! i) [0..<length (bits s)]"
    by (meson Suc_leD)
  show ?case
  proof (cases "p k")
    case True
    obtain u where u: "set_bit t k = Inr u" "wf u" "bits u = (bits t)[k := True]"
      using set_bits [OF t(2), of k] t(3) Suc.prems by auto
    have "bits u = map (\<lambda>i. i < Suc k \<and> p i \<or> bits s ! i) [0..<length (bits s)]"
      unfolding u(3) t(3) using Suc.prems True
      by (intro nth_equalityI) (simp_all add: nth_list_update less_Suc_eq, metis)
    then show ?thesis using t(1) u True by (simp add: fold_results_append)
  next
    case False
    then have "bits t = map (\<lambda>i. i < Suc k \<and> p i \<or> bits s ! i) [0..<length (bits s)]"
      by (auto simp: t(3) less_Suc_eq)
    then show ?thesis using t False by (simp add: fold_results_append)
  qed
qed

lemma set_where_fresh:
  assumes "wf s" and "bits s = replicate n False"
  shows "\<exists>s'. fold_results (\<lambda>i s. if p i then set_bit s i else Inr s) [0..<n] s = Inr s' \<and> wf s' \<and>
           bits s' = map p [0..<n]"
proof -
  have "map (\<lambda>i. i < n \<and> p i \<or> replicate n False ! i) [0..<n] = map p [0..<n]" by simp
  then show ?thesis using set_where [of s n p] assms by (simp only: length_replicate order_refl)
qed

end

subsection \<open>Bitmap views are bit stores\<close>

lemma length_bitmap_bits [simp]: "length (bitmap_bits v) = view_len v"
  by (simp add: bitmap_bits_def)

lemma byte_in_bounds: "bitmap_wf v \<Longrightarrow> idx < view_len v \<Longrightarrow> idx div 8 < length (view_data v)"
  by (auto simp: bitmap_wf_def num_bytes_for_bitmap_def)

lemma same_bit_index: "i div 8 = j div 8 \<Longrightarrow> i mod 8 = j mod 8 \<longleftrightarrow> i = (j :: nat)"
  by (metis div_mult_mod_eq)

lemma bit_two_power: "n < 8 \<Longrightarrow> bit (2 ^ n :: 8 word) m \<longleftrightarrow> m = n"
  by (auto simp: bit_exp_iff)

lemma and_one_neq_0: "w AND 1 \<noteq> (0 :: 8 word) \<longleftrightarrow> bit w 0"
  by (simp add: and_one_eq bit_0 odd_iff_mod_2_eq_one)

lemma bitmap_value_bits:
  "bitmap_wf v \<Longrightarrow> i < view_len v \<Longrightarrow> bitmap_value v i = Inr (bitmap_bits v ! i)"
  by (simp add: bitmap_value_def bitmap_bits_def byte_in_bounds and_one_neq_0 bit_drop_bit_eq)

lemma bitmap_set_bits:
  assumes "bitmap_wf v" and "i < view_len v"
  shows "\<exists>v'. bitmap_set v i = Inr v' \<and> bitmap_wf v' \<and> bitmap_bits v' = (bitmap_bits v)[i := True]"
  using assms byte_in_bounds [OF assms] same_bit_index [of _ i]
  by (auto simp: bitmap_set_def Let_def bitmap_wf_def bitmap_bits_def list_eq_iff_nth_eq
      nth_list_update bit_or_iff bit_two_power)

lemma bitmap_unset_bits:
  assumes "bitmap_wf v" and "i < view_len v"
  shows "\<exists>v'. bitmap_unset v i = Inr v' \<and> bitmap_wf v' \<and> bitmap_bits v' = (bitmap_bits v)[i := False]"
  using assms byte_in_bounds [OF assms] same_bit_index [of _ i]
  by (auto simp: bitmap_unset_def Let_def bitmap_wf_def bitmap_bits_def list_eq_iff_nth_eq
      nth_list_update bit_and_iff bit_not_iff bit_two_power)

interpretation view_bits: bit_store bitmap_wf bitmap_bits bitmap_value bitmap_set bitmap_unset
  by unfold_locales (simp_all add: bitmap_value_bits bitmap_set_bits bitmap_unset_bits)

subsection \<open>Counting\<close>

definition byte_bits :: "8 word \<Rightarrow> bool list" where
  "byte_bits b = map (bit b) [0..<8]"

lemma length_byte_bits [simp]: "length (byte_bits b) = 8"
  by (simp add: byte_bits_def)

lemma count_ones_byte_bits: "count_ones b = count_list (byte_bits b) True"
  by (simp add: count_ones_def byte_bits_def count_list_eq_length_filter filter_map comp_def)

lemma length_concat_byte_bits [simp]: "length (concat (map byte_bits bs)) = 8 * length bs"
  by (induction bs) auto

lemma nth_concat_byte_bits:
  "i < 8 * length bs \<Longrightarrow> concat (map byte_bits bs) ! i = bit (bs ! (i div 8)) (i mod 8)"
proof (induction bs arbitrary: i)
  case (Cons b bs)
  show ?case
  proof (cases "i < 8")
    case True
    then show ?thesis by (simp add: nth_append byte_bits_def)
  next
    case False
    then have "i div 8 = Suc ((i - 8) div 8)" and "i mod 8 = (i - 8) mod 8"
      using le_div_geq [of 8 i] by (simp_all add: le_mod_geq)
    then show ?thesis using Cons False by (simp add: nth_append)
  qed
qed simp

lemma bitmap_bits_concat:
  assumes "bitmap_wf v"
  shows "bitmap_bits v = take (view_len v) (concat (map byte_bits (view_data v)))"
proof (rule nth_equalityI)
  have "view_len v \<le> 8 * length (view_data v)"
    using assms by (simp add: bitmap_wf_def num_bytes_for_bitmap_def)
  then show "length (bitmap_bits v) = length (take (view_len v) (concat (map byte_bits (view_data v))))"
    by (simp add: bitmap_bits_def)
next
  fix i assume "i < length (bitmap_bits v)"
  moreover have "view_len v \<le> 8 * length (view_data v)"
    using assms by (simp add: bitmap_wf_def num_bytes_for_bitmap_def)
  ultimately show "bitmap_bits v ! i = take (view_len v) (concat (map byte_bits (view_data v))) ! i"
    by (simp add: bitmap_bits_def nth_concat_byte_bits)
qed

lemma fold_count_ones:
  "fold (\<lambda>b acc. acc + count_ones b) bs n = n + count_list (concat (map byte_bits bs)) True"
  by (induction bs arbitrary: n) (auto simp: count_ones_byte_bits)

lemma bit_low_mask:
  fixes ones :: "8 word"
  assumes "\<And>k. bit ones k \<longleftrightarrow> k < 8" and "r < 8"
  shows "bit (drop_bit (8 - r) (push_bit (8 - r) ones)) k \<longleftrightarrow> k < r"
proof -
  have "bit (drop_bit (8 - r) (push_bit (8 - r) ones)) k \<longleftrightarrow> 8 - r + k < 8 \<and> bit ones k"
    by (simp add: bit_drop_bit_eq bit_push_bit_iff)
  also have "\<dots> \<longleftrightarrow> k < r" using \<open>r < 8\<close> unfolding assms(1) by linarith
  finally show ?thesis .
qed

lemma bit_byte_ones: "bit (255 :: 8 word) k \<longleftrightarrow> k < 8"
proof -
  have "(255 :: 8 word) = mask 8" by (simp add: mask_eq_exp_minus_1)
  then show ?thesis by (simp only: bit_mask_iff) simp
qed

lemma low_mask_byte_bits:
  assumes "0 < r" and "r < 8"
  shows "count_ones (drop_bit (8 - r) (push_bit (8 - r) (255 :: 8 word)) AND b)
       = count_list (take r (byte_bits b)) True"
proof -
  note m = bit_low_mask [OF bit_byte_ones \<open>r < 8\<close>]
  have "filter (bit (drop_bit (8 - r) (push_bit (8 - r) (255 :: 8 word)) AND b)) [0..<8]
      = filter (bit b) [0..<r]"
  proof -
    have "[0..<8] = [0..<r] @ [r..<8]" using assms upt_add_eq_append [of 0 r "8 - r"] by (simp del: upt_rec_numeral upt.simps)
    moreover have "filter (bit (drop_bit (8 - r) (push_bit (8 - r) (255 :: 8 word)) AND b)) [0..<r]
        = filter (bit b) [0..<r]"
      by (rule filter_cong) (auto simp: bit_and_iff m)
    moreover have "filter (bit (drop_bit (8 - r) (push_bit (8 - r) (255 :: 8 word)) AND b)) [r..<8] = []"
      by (auto simp: filter_empty_conv bit_and_iff m)
    ultimately show ?thesis by simp
  qed
  moreover have "take r (byte_bits b) = map (bit b) [0..<r]"
    using assms by (simp add: byte_bits_def take_map)
  ultimately show ?thesis
    by (simp add: count_ones_def count_list_eq_length_filter filter_map comp_def)
qed

lemma count_trues_bits:
  assumes wf: "bitmap_wf v"
  shows "count_trues v = Inr (count_list (bitmap_bits v) True)"
proof -
  let ?q = "view_len v div 8" and ?r = "view_len v mod 8"
  have len: "view_len v = 8 * ?q + ?r" by simp
  show ?thesis
  proof (cases "?r = 0")
    case True
    then have nb: "num_bytes_for_bitmap (view_len v) = ?q"
      by (simp add: num_bytes_for_bitmap_def) presburger
    then have "take (view_len v) (concat (map byte_bits (view_data v)))
        = concat (map byte_bits (take ?q (view_data v)))"
    proof -
      have "?q \<le> length (view_data v)" using wf nb by (simp add: bitmap_wf_def)
      then have l: "length (concat (map byte_bits (take ?q (view_data v)))) = view_len v"
        using True by (simp add: min_absorb2) presburger
      have "concat (map byte_bits (view_data v)) =
          concat (map byte_bits (take ?q (view_data v))) @ concat (map byte_bits (drop ?q (view_data v)))"
        by (metis append_take_drop_id concat_append map_append)
      then show ?thesis using l by simp
    qed
    then show ?thesis using True nb wf
      by (simp add: bitmap_wf_def not_less count_trues_def bitmap_bits_concat [OF wf] fold_count_ones)
  next
    case False
    then have nb: "num_bytes_for_bitmap (view_len v) = Suc ?q"
      by (simp add: num_bytes_for_bitmap_def) presburger
    then have q: "?q < length (view_data v)" using wf by (simp add: bitmap_wf_def)
    let ?front = "concat (map byte_bits (take ?q (view_data v)))"
    let ?b = "view_data v ! ?q"
    have sub: "take (Suc ?q) (view_data v) = take ?q (view_data v) @ [?b]"
      using q by (rule take_Suc_conv_app_nth)
    have "view_data v = take ?q (view_data v) @ ?b # drop (Suc ?q) (view_data v)"
      using q by (rule id_take_nth_drop)
    then have "concat (map byte_bits (view_data v)) =
        ?front @ byte_bits ?b @ concat (map byte_bits (drop (Suc ?q) (view_data v)))"
      by (metis concat.simps(2) concat_append list.simps(9) map_append)
    moreover have "length ?front = 8 * ?q" using q by (simp add: min_absorb2)
    moreover have "view_len v - 8 * ?q = ?r" by (simp add: minus_mult_div_eq_mod)
    moreover have "?r \<le> 8" by (simp add: less_imp_le)
    ultimately have bits: "bitmap_bits v = ?front @ take ?r (byte_bits ?b)"
      unfolding bitmap_bits_concat [OF wf] by simp
    show ?thesis
      using False nb sub wf low_mask_byte_bits [of ?r ?b] bits
      by (simp add: bitmap_wf_def not_less count_trues_def fold_count_ones [unfolded count_ones_byte_bits] Let_def count_ones_byte_bits)
  qed
qed

lemma count_list_all_True: "count_list bs True = length bs \<longleftrightarrow> (\<forall>b \<in> set bs. b)"
proof (induction bs)
  case (Cons b bs)
  have "count_list bs True \<le> length bs" by (rule count_le_length)
  with Cons show ?case by auto
qed simp

lemma all_true_bits: "bitmap_wf v \<Longrightarrow> all_true v = Inr (\<forall>b \<in> set (bitmap_bits v). b)"
  using count_list_all_True [of "bitmap_bits v"] by (auto simp: all_true_def count_trues_bits)

section \<open>Validity masks\<close>

datatype validity =
    AllValid nat
  | AllInvalid nat
  | Mask nat "8 word list"

definition mask_view :: "nat \<Rightarrow> 8 word list \<Rightarrow> bitmap_view" where
  "mask_view len data = \<lparr>view_len = len, view_data = data\<rparr>"

definition new_all_valid :: "nat \<Rightarrow> validity" where
  "new_all_valid len = AllValid len"

definition new_all_invalid :: "nat \<Rightarrow> validity" where
  "new_all_invalid len = AllInvalid len"

fun validity_len :: "validity \<Rightarrow> nat" where
  "validity_len (AllValid len) = len"
| "validity_len (AllInvalid len) = len"
| "validity_len (Mask len data) = len"

fun all_valid :: "validity \<Rightarrow> bool result" where
  "all_valid (AllValid len) = Inr True"
| "all_valid (AllInvalid len) = Inr False"
| "all_valid (Mask len data) = all_true (mask_view len data)"

fun is_valid :: "validity \<Rightarrow> nat \<Rightarrow> bool result" where
  "is_valid (AllValid len) idx = Inr True"
| "is_valid (AllInvalid len) idx = Inr False"
| "is_valid (Mask len data) idx = bitmap_value (mask_view len data) idx"

definition mask_of :: "bitmap_view \<Rightarrow> validity" where
  "mask_of v = Mask (view_len v) (view_data v)"

fun set_valid :: "validity \<Rightarrow> nat \<Rightarrow> validity result" where
  "set_valid (AllValid len) idx = Inr (AllValid len)"
| "set_valid (AllInvalid len) idx =
     bind_result (bitmap_set (mask_view len (replicate (num_bytes_for_bitmap len) 0)) idx)
       (\<lambda>v. Inr (mask_of v))"
| "set_valid (Mask len data) idx =
     bind_result (bitmap_set (mask_view len data) idx) (\<lambda>v. Inr (mask_of v))"

fun set_invalid :: "validity \<Rightarrow> nat \<Rightarrow> validity result" where
  "set_invalid (AllValid len) idx =
     bind_result (bitmap_unset (mask_view len (replicate (num_bytes_for_bitmap len) 255)) idx)
       (\<lambda>v. Inr (mask_of v))"
| "set_invalid (AllInvalid len) idx = Inr (AllInvalid len)"
| "set_invalid (Mask len data) idx =
     bind_result (bitmap_unset (mask_view len data) idx) (\<lambda>v. Inr (mask_of v))"

text \<open>\<open>ValidityIter::next\<close>: the entry at the cursor, and the advanced cursor.\<close>

definition validity_iter_next :: "validity \<Rightarrow> nat \<Rightarrow> (bool option \<times> nat) result" where
  "validity_iter_next v idx =
     (if idx \<ge> validity_len v then Inr (None, idx)
      else bind_result (is_valid v idx) (\<lambda>b. Inr (Some b, idx + 1)))"

fun validity_select :: "validity \<Rightarrow> nat list \<Rightarrow> validity result" where
  "validity_select (AllValid len) selection = Inr (new_all_valid (length selection))"
| "validity_select (AllInvalid len) selection = Inr (new_all_invalid (length selection))"
| "validity_select (Mask len data) selection =
     (let new_len = length selection;
          new_view = mask_view new_len (replicate (num_bytes_for_bitmap new_len) 0);
          old_view = mask_view len data
      in bind_result
           (fold_results (\<lambda>(out_idx, sel_idx) view.
                bind_result (bitmap_value old_view sel_idx) (\<lambda>b.
                if b then bitmap_set view out_idx else Inr view))
              (List.enumerate 0 selection) new_view)
           (\<lambda>view. Inr (mask_of view)))"

fun validity_wf :: "validity \<Rightarrow> bool" where
  "validity_wf (Mask len data) = bitmap_wf (mask_view len data)"
| "validity_wf v = True"

fun validity_bits :: "validity \<Rightarrow> bool list" where
  "validity_bits (AllValid len) = replicate len True"
| "validity_bits (AllInvalid len) = replicate len False"
| "validity_bits (Mask len data) = bitmap_bits (mask_view len data)"

lemma mask_view_simps [simp]:
  "view_len (mask_view len data) = len" "view_data (mask_view len data) = data"
  "mask_view (view_len v) (view_data v) = v"
  by (simp_all add: mask_view_def)

lemma length_validity_bits [simp]: "length (validity_bits v) = validity_len v"
  by (cases v) simp_all

lemma mask_of_simps [simp]:
  "validity_bits (mask_of v) = bitmap_bits v" "validity_wf (mask_of v) = bitmap_wf v"
  by (simp_all add: mask_of_def)

lemma fresh_mask:
  "bitmap_wf (mask_view len (replicate (num_bytes_for_bitmap len) b))"
  "bitmap_bits (mask_view len (replicate (num_bytes_for_bitmap len) 0)) = replicate len False"
  "bitmap_bits (mask_view len (replicate (num_bytes_for_bitmap len) 255)) = replicate len True"
proof -
  show "bitmap_wf (mask_view len (replicate (num_bytes_for_bitmap len) b))" for b
    by (simp add: bitmap_wf_def)
  then have byte: "i < len \<Longrightarrow> replicate (num_bytes_for_bitmap len) (b :: 8 word) ! (i div 8) = b" for i b
    using byte_in_bounds [of "mask_view len (replicate (num_bytes_for_bitmap len) b)" i] by simp
  show "bitmap_bits (mask_view len (replicate (num_bytes_for_bitmap len) 0)) = replicate len False"
    by (rule nth_equalityI) (simp_all add: bitmap_bits_def byte)
  show "bitmap_bits (mask_view len (replicate (num_bytes_for_bitmap len) 255)) = replicate len True"
  proof (rule nth_equalityI)
    fix i assume "i < length (bitmap_bits (mask_view len (replicate (num_bytes_for_bitmap len) 255)))"
    then have "i < len" by simp
    then show "bitmap_bits (mask_view len (replicate (num_bytes_for_bitmap len) 255)) ! i = replicate len True ! i"
      using bit_byte_ones [of "i mod 8"] by (simp add: bitmap_bits_def byte)
  qed simp
qed

lemma is_valid_bits:
  "validity_wf v \<Longrightarrow> i < validity_len v \<Longrightarrow> is_valid v i = Inr (validity_bits v ! i)"
  by (cases v) (simp_all add: bitmap_value_bits)

lemma set_valid_bits:
  assumes "validity_wf v" and "i < validity_len v"
  shows "\<exists>v'. set_valid v i = Inr v' \<and> validity_wf v' \<and> validity_bits v' = (validity_bits v)[i := True]"
proof (cases v)
  case (AllInvalid len)
  then show ?thesis
    using assms bitmap_set_bits [OF fresh_mask(1), of i len 0] by (auto simp: fresh_mask)
next
  case (Mask len data)
  then show ?thesis using assms bitmap_set_bits [of "mask_view len data" i] by auto
qed simp

lemma set_invalid_bits:
  assumes "validity_wf v" and "i < validity_len v"
  shows "\<exists>v'. set_invalid v i = Inr v' \<and> validity_wf v' \<and> validity_bits v' = (validity_bits v)[i := False]"
proof (cases v)
  case (AllValid len)
  then show ?thesis
    using assms bitmap_unset_bits [OF fresh_mask(1), of i len 255] by (auto simp: fresh_mask)
next
  case (Mask len data)
  then show ?thesis using assms bitmap_unset_bits [of "mask_view len data" i] by auto
qed simp

interpretation mask_bits: bit_store validity_wf validity_bits is_valid set_valid set_invalid
  by unfold_locales (simp_all add: is_valid_bits set_valid_bits set_invalid_bits)

lemma all_valid_bits:
  "validity_wf v \<Longrightarrow> validity_len v \<noteq> 0 \<Longrightarrow> all_valid v = Inr (\<forall>b \<in> set (validity_bits v). b)"
  by (cases v) (simp_all add: all_true_bits)

lemma validity_select_bits:
  assumes wf: "validity_wf v" and sel: "\<And>i. i \<in> set sel \<Longrightarrow> i < validity_len v"
  shows "\<exists>v'. validity_select v sel = Inr v' \<and> validity_wf v' \<and>
           validity_bits v' = map ((!) (validity_bits v)) sel"
proof (cases v)
  case (Mask len data)
  let ?old = "mask_view len data"
  let ?new = "mask_view (length sel) (replicate (num_bytes_for_bitmap (length sel)) 0)"
  have loop: "fold_results (\<lambda>(out_idx, sel_idx) view. bind_result (bitmap_value ?old sel_idx) (\<lambda>b.
        if b then bitmap_set view out_idx else Inr view)) (List.enumerate 0 sel) s =
      fold_results (\<lambda>i s. if bitmap_bits ?old ! (sel ! i) then bitmap_set s i else Inr s) [0..<length sel] s"
    for s
    unfolding enumerate_map_upt fold_results_map
    using sel wf Mask by (intro fold_results_cong) (auto simp: bitmap_value_bits)
  obtain s' where s': "fold_results (\<lambda>i s. if bitmap_bits ?old ! (sel ! i) then bitmap_set s i else Inr s)
      [0..<length sel] ?new = Inr s'" "bitmap_wf s'"
      "bitmap_bits s' = map (\<lambda>i. bitmap_bits ?old ! (sel ! i)) [0..<length sel]"
    using view_bits.set_where_fresh [OF fresh_mask(1, 2)] by metis
  have "map (\<lambda>i. bitmap_bits ?old ! (sel ! i)) [0..<length sel] = map ((!) (bitmap_bits ?old)) sel"
    by (rule nth_equalityI) simp_all
  moreover have "validity_select v sel = Inr (mask_of s')"
    unfolding Mask validity_select.simps Let_def loop s'(1) by simp
  ultimately show ?thesis using Mask s'(2,3) by simp
qed (use sel in \<open>auto simp: new_all_valid_def new_all_invalid_def list_eq_iff_nth_eq\<close>)

section \<open>Selections\<close>

datatype selection =
    SelConstant (sel_clen: nat) (sel_loc: nat)
  | SelLinear (sel_start: nat) (sel_llen: nat)
  | SelSlice "nat list"

fun selection_len :: "selection \<Rightarrow> nat" where
  "selection_len (SelConstant len loc) = len"
| "selection_len (SelLinear start len) = len"
| "selection_len (SelSlice sel) = length sel"

fun selection_get :: "selection \<Rightarrow> nat \<Rightarrow> nat option" where
  "selection_get (SelConstant len loc) idx = (if idx \<ge> len then None else Some loc)"
| "selection_get (SelLinear start len) idx = (if idx \<ge> len then None else Some (idx + start))"
| "selection_get (SelSlice sel) idx = (if idx < length sel then Some (sel ! idx) else None)"

text \<open>\<open>FlatSelectionIter\<close> is a cursor and a selection; \<open>None\<close> ends the iteration.\<close>

definition flat_selection_next :: "nat \<Rightarrow> selection \<Rightarrow> (nat \<times> nat) option" where
  "flat_selection_next idx sel =
     (if idx \<ge> selection_len sel then None
      else let v = (case sel of SelConstant len loc \<Rightarrow> loc
                              | SelLinear start len \<Rightarrow> idx + start
                              | SelSlice s \<Rightarrow> s ! idx)
           in Some (v, idx + 1))"

definition flat_selection_remaining :: "nat \<Rightarrow> selection \<Rightarrow> nat" where
  "flat_selection_remaining idx sel = selection_len sel - idx"

function selection_collect :: "nat \<Rightarrow> selection \<Rightarrow> nat list" where
  "selection_collect idx sel =
     (case flat_selection_next idx sel of
        None \<Rightarrow> []
      | Some (v, idx') \<Rightarrow> v # selection_collect idx' sel)"
  by pat_completeness auto
termination
  by (relation "measure (\<lambda>(idx, sel). selection_len sel - idx)")
    (auto simp: flat_selection_next_def split: if_splits)

declare selection_collect.simps [simp del]

text \<open>The rows a selection denotes.\<close>

fun selection_rows :: "selection \<Rightarrow> nat list" where
  "selection_rows (SelConstant len loc) = replicate len loc"
| "selection_rows (SelLinear start len) = [start..<start + len]"
| "selection_rows (SelSlice sel) = sel"

lemma length_selection_rows [simp]: "length (selection_rows sel) = selection_len sel"
  by (cases sel) simp_all

lemma selection_get_rows:
  "selection_get sel i = (if i < selection_len sel then Some (selection_rows sel ! i) else None)"
  by (cases sel) (simp_all add: add.commute)

lemma selection_collect_rows: "selection_collect idx sel = drop idx (selection_rows sel)"
proof (induction idx sel rule: selection_collect.induct)
  case (1 idx sel)
  show ?case
  proof (cases "idx < selection_len sel")
    case True
    then have "flat_selection_next idx sel = Some (selection_rows sel ! idx, Suc idx)"
      by (cases sel) (simp_all add: flat_selection_next_def add.commute)
    moreover have "drop idx (selection_rows sel) = selection_rows sel ! idx # drop (Suc idx) (selection_rows sel)"
      using True by (simp add: Cons_nth_drop_Suc)
    ultimately show ?thesis using "1.IH" by (simp add: selection_collect.simps [of idx])
  next
    case False
    then show ?thesis by (simp add: selection_collect.simps [of idx] flat_selection_next_def)
  qed
qed

lemma flat_selection_remaining_exact:
  "flat_selection_remaining idx sel = length (selection_collect idx sel)"
  by (simp add: flat_selection_remaining_def selection_collect_rows)

section \<open>Properties\<close>

text \<open>
  C7. Validity masks behave like the list of their entries. On a well-formed mask and an index
  in bounds, \<open>is_valid\<close> reads the entry and \<open>set_valid\<close> and \<open>set_invalid\<close> overwrite exactly that
  entry, in whichever of the three representations the mask is; no operation panics, and the
  result is well-formed again.
\<close>

theorem validity_refines_list:
  assumes "validity_wf v" and "i < validity_len v"
  shows "is_valid v i = Inr (validity_bits v ! i) \<and>
         (\<exists>v'. set_valid v i = Inr v' \<and> validity_wf v' \<and> validity_bits v' = (validity_bits v)[i := True]) \<and>
         (\<exists>v'. set_invalid v i = Inr v' \<and> validity_wf v' \<and> validity_bits v' = (validity_bits v)[i := False])"
  using mask_bits.get_bits mask_bits.set_bits mask_bits.unset_bits assms by simp

theorem validity_refines_list_witness:
  "is_valid (Mask 9 [255, 0]) 8 = Inr (validity_bits (Mask 9 [255, 0]) ! 8) \<and>
   (\<exists>v'. set_valid (Mask 9 [255, 0]) 8 = Inr v' \<and>
     validity_bits v' = (validity_bits (Mask 9 [255, 0]))[8 := True])"
  using validity_refines_list [of "Mask 9 [255, 0]" 8]
  by (auto simp: bitmap_wf_def num_bytes_for_bitmap_def)

text \<open>
  C8. Applying a selection to a validity mask gives the mask of the selected rows, for every
  selection (constant, linear, or a slice with repetitions) whose rows are in bounds.
\<close>

theorem validity_select_rows:
  assumes "validity_wf v" and "\<forall>r \<in> set (selection_rows sel). r < validity_len v"
  shows "\<exists>v'. validity_select v (selection_collect 0 sel) = Inr v' \<and> validity_wf v' \<and>
           validity_bits v' = map (\<lambda>r. validity_bits v ! r) (selection_rows sel)"
  using validity_select_bits [of v "selection_rows sel"] assms by (simp add: selection_collect_rows)

theorem validity_select_rows_witness:
  "\<exists>v'. validity_select (Mask 3 [5]) (selection_collect 0 (SelSlice [2, 1, 2])) = Inr v' \<and>
     validity_wf v' \<and> validity_bits v' = map (\<lambda>r. validity_bits (Mask 3 [5]) ! r) [2, 1, 2]"
  using validity_select_rows [of "Mask 3 [5]" "SelSlice [2, 1, 2]"]
  by (simp add: bitmap_wf_def num_bytes_for_bitmap_def)

text \<open>
  C9. \<open>all_valid\<close> on a mask counts the set bits of whole bytes and corrects the last one with a
  mask; it is true exactly when every logical entry is valid, whatever the padding bits hold.
\<close>

theorem all_valid_ignores_padding:
  assumes "bitmap_wf (mask_view len data)"
  shows "all_valid (Mask len data) = Inr (\<forall>b \<in> set (validity_bits (Mask len data)). b)"
  using all_true_bits [OF assms] by simp

theorem all_valid_ignores_padding_witness:
  "all_valid (Mask 3 [7]) = Inr (\<forall>b \<in> set (validity_bits (Mask 3 [7])). b)"
  by (rule all_valid_ignores_padding) (simp add: bitmap_wf_def num_bytes_for_bitmap_def)

end
