(* ===== verification/Physical.thy ===== *)
theory Physical
  imports Operators Like Bitmap
begin

text \<open>
  Physical expressions and their evaluation on batches (\<open>expr/physical/\<close>,
  \<open>functions/scalar/builtin/boolean.rs\<close>, the row selection of
  \<open>arrays/executor/scalar/unary.rs\<close>, \<open>logical/binder/table_list.rs\<close>).

  An array is the list of its logical values, so buffers, validity masks and dictionaries are
  abstracted here; \<open>eval_expression\<close> receives the output array, with whatever it holds, and
  returns it after the writes of the source. A freshly reset buffer holds an arbitrary value,
  \<open>env_stale\<close>. The functions that the rules and the planner of this development rely on are
  modelled (AND and OR, LIKE and the string tests that replace it, equality of strings); the other
  scalar functions and the casts are row functions of a library that is a parameter, as the
  contract of \<open>ScalarFunction::execute\<close> says. Nothing is assumed of it. The specification is \<open>eval_row\<close>, the
  value of an expression on a single row.
\<close>

section \<open>Tables and physical expressions\<close>

record table =
  tbl_column_types :: "data_type list"
  tbl_column_names :: "string list"

type_synonym table_list = "table list"

definition table_list_get :: "table_list \<Rightarrow> table_ref \<Rightarrow> table result" where
  "table_list_get tabs r =
     (if r < length tabs then Inr (tabs ! r) else Inl (DbError ''Missing table in table list''))"

definition num_columns :: "table \<Rightarrow> nat" where
  "num_columns t = length (tbl_column_types t)"

definition push_table :: "table_list \<Rightarrow> data_type list \<Rightarrow> string list \<Rightarrow> (table_ref \<times> table_list) result" where
  "push_table tabs types names =
     (if length types \<noteq> length names then Inl (DbError ''Column names and types have different lengths'')
      else Inr (length tabs, tabs @ [\<lparr>tbl_column_types = types, tbl_column_names = names\<rparr>]))"

datatype physical_expr =
    PhysCase "physical_expr when_then list" physical_expr data_type
  | PhysCast data_type physical_expr planned_cast
  | PhysColumn nat data_type
  | PhysConjunction conjunction_operator planned_function "physical_expr list"
  | PhysLiteral scalar_value
  | PhysScalarFunction planned_function "physical_expr list"

fun phys_datatype :: "physical_expr \<Rightarrow> data_type result" where
  "phys_datatype (PhysCase cases else_expr t) = Inr t"
| "phys_datatype (PhysCast to e c) = Inr to"
| "phys_datatype (PhysColumn idx t) = Inr t"
| "phys_datatype (PhysConjunction op f inputs) = Inr (pf_return_type f)"
| "phys_datatype (PhysLiteral v) = scalar_datatype v"
| "phys_datatype (PhysScalarFunction f inputs) = Inr (pf_return_type f)"

section \<open>The function library\<close>

text \<open>
  \<open>lib_cast_sets\<close> is the table of builtin casts. \<open>lib_execute\<close> and \<open>lib_cast\<close> compute one row of the
  functions that are not modelled below; \<open>lib_escape\<close> and \<open>lib_regex_new\<close> are the \<open>regex\<close> crate.
\<close>

record function_library =
  lib_cast_sets :: "cast_function_set list"
  lib_execute :: "planned_function \<Rightarrow> scalar_value list \<Rightarrow> scalar_value result"
  lib_cast :: "planned_cast \<Rightarrow> data_type \<Rightarrow> scalar_value \<Rightarrow> scalar_value result"
  lib_escape :: "string \<Rightarrow> string"
  lib_regex_new :: regex_new

text \<open>A test of two strings under the executor that answers NULL on NULL.\<close>

definition string_row :: "(string \<Rightarrow> string \<Rightarrow> bool result) \<Rightarrow> scalar_value list \<Rightarrow> scalar_value result" where
  "string_row test vs =
     (case vs of
        [SvUtf8 s, SvUtf8 p] \<Rightarrow> bind_result (test s p) (\<lambda>b. Inr (SvBoolean b))
      | [SvNull, SvUtf8 p] \<Rightarrow> Inr SvNull
      | [SvUtf8 s, SvNull] \<Rightarrow> Inr SvNull
      | [SvNull, SvNull] \<Rightarrow> Inr SvNull
      | _ \<Rightarrow> Inl (DbError ''invalid cast when trying to downcast array buffer''))"

definition like_execute :: "function_library \<Rightarrow> scalar_value list \<Rightarrow> scalar_value result" where
  "like_execute lib = string_row (like (lib_escape lib) (lib_regex_new lib))"

definition starts_with_execute :: "scalar_value list \<Rightarrow> scalar_value result" where
  "starts_with_execute = string_row (\<lambda>s p. Inr (prefix p s))"

definition ends_with_execute :: "scalar_value list \<Rightarrow> scalar_value result" where
  "ends_with_execute = string_row (\<lambda>s p. Inr (suffix p s))"

definition contains_execute :: "scalar_value list \<Rightarrow> scalar_value result" where
  "contains_execute = string_row (\<lambda>haystack needle. Inr (sublist needle haystack))"

definition eq_utf8_execute :: "scalar_value list \<Rightarrow> scalar_value result" where
  "eq_utf8_execute = string_row (\<lambda>l r. Inr (l = r))"

fun is_utf8 :: "scalar_value \<Rightarrow> bool" where
  "is_utf8 (SvUtf8 _) = True"
| "is_utf8 _ = False"

text \<open>
  \<open>PlannedScalarFunction::call_execute\<close> on one row: the set's name, and for \<open>=\<close> the type of the
  values, tells which implementation was planned.
\<close>

definition call_execute :: "function_library \<Rightarrow> planned_function \<Rightarrow> scalar_value list \<Rightarrow> scalar_value result" where
  "call_execute lib f vs =
     (if pf_name f = ''like'' then like_execute lib vs
      else if pf_name f = ''starts_with'' then starts_with_execute vs
      else if pf_name f = ''ends_with'' then ends_with_execute vs
      else if pf_name f = ''contains'' then contains_execute vs
      else if pf_name f = ''='' \<and> list_ex is_utf8 vs then eq_utf8_execute vs
      else lib_execute lib f vs)"

text \<open>AND and OR: the bound function and its execution on a row.\<close>

definition boolean_function :: "conjunction_operator \<Rightarrow> planned_function" where
  "boolean_function op =
     \<lparr>pf_name = conjunction_function_set op, pf_return_type = boolean_type, pf_volatility = Consistent\<rparr>"

fun as_boolean :: "scalar_value \<Rightarrow> bool option result" where
  "as_boolean SvNull = Inr None"
| "as_boolean (SvBoolean b) = Inr (Some b)"
| "as_boolean _ = Inl (DbError ''invalid cast when trying to downcast array buffer'')"

definition of_boolean :: "bool option \<Rightarrow> scalar_value" where
  "of_boolean b = (case b of None \<Rightarrow> SvNull | Some x \<Rightarrow> SvBoolean x)"

fun combine2 :: "conjunction_operator \<Rightarrow> bool \<Rightarrow> bool \<Rightarrow> bool" where
  "combine2 ConjAnd a b = (a \<and> b)"
| "combine2 ConjOr a b = (a \<or> b)"

fun combine_all :: "conjunction_operator \<Rightarrow> bool list \<Rightarrow> bool" where
  "combine_all ConjAnd bs = list_all id bs"
| "combine_all ConjOr bs = list_ex id bs"

text \<open>\<open>And::execute\<close> and \<open>Or::execute\<close>: by arity, with an executor that answers NULL on NULL.\<close>

fun execute_boolean :: "conjunction_operator \<Rightarrow> scalar_value list \<Rightarrow> scalar_value result" where
  "execute_boolean op [] = Inr (SvBoolean False)"
| "execute_boolean op [a] = bind_result (as_boolean a) (\<lambda>x. Inr (of_boolean x))"
| "execute_boolean op [a, b] =
     bind_result (as_boolean a) (\<lambda>x. bind_result (as_boolean b) (\<lambda>y.
       Inr (of_boolean (case (x, y) of (Some p, Some q) \<Rightarrow> Some (combine2 op p q) | _ \<Rightarrow> None))))"
| "execute_boolean op vs =
     bind_result (collect_results as_boolean vs) (\<lambda>xs.
       Inr (of_boolean (map_option (combine_all op) (those xs))))"

section \<open>Planning\<close>

fun plan_column :: "table_list \<Rightarrow> table_ref list \<Rightarrow> column_expr \<Rightarrow> nat \<Rightarrow> physical_expr result" where
  "plan_column tabs [] col offset = Inl (DbError ''Column expr not referencing a valid table ref'')"
| "plan_column tabs (r # refs) col offset =
     bind_result (table_list_get tabs r) (\<lambda>t.
       if table_scope (reference col) = r
       then Inr (PhysColumn (offset + column (reference col)) (col_datatype col))
       else plan_column tabs refs col (offset + num_columns t))"

text \<open>
  The planner recurses on the inputs that binding an operator returns. The first argument bounds
  the depth of that recursion; exceeding it stands for the exhausted stack.
\<close>

fun plan_scalar :: "nat \<Rightarrow> function_library \<Rightarrow> table_list \<Rightarrow> table_ref list \<Rightarrow> expression \<Rightarrow> physical_expr result" where
  "plan_scalar 0 lib tabs refs e = Inl (Panic ''stack overflow'')"
| "plan_scalar (Suc d) lib tabs refs e =
     (let plan = plan_scalar d lib tabs refs;
          as_function = (\<lambda>fns name inputs.
            bind_result (bind_operator (lib_cast_sets lib) fns name inputs) (\<lambda>(f, inputs').
            bind_result (collect_results plan inputs') (\<lambda>ps. Inr (f, ps))))
      in case e of
           Column col \<Rightarrow> plan_column tabs refs col 0
         | Literal v \<Rightarrow> Inr (PhysLiteral v)
         | ScalarFunction f inputs \<Rightarrow>
             bind_result (collect_results plan inputs) (\<lambda>ps. Inr (PhysScalarFunction f ps))
         | Cast to child c \<Rightarrow> bind_result (plan child) (\<lambda>p. Inr (PhysCast to p c))
         | Comparison op l r \<Rightarrow>
             bind_result (as_function comparison_functions (comparison_function_set op) [l, r]) (\<lambda>(f, ps).
             Inr (PhysScalarFunction f ps))
         | Arith op l r t \<Rightarrow>
             bind_result (as_function (arith_functions op) (arith_function_set op) [l, r]) (\<lambda>(f, ps).
             Inr (PhysScalarFunction f ps))
         | Conjunction op es \<Rightarrow>
             if length es = 1 then plan (es ! 0)
             else bind_result (as_function boolean_functions (conjunction_function_set op) es) (\<lambda>(f, ps).
                  Inr (PhysConjunction op f ps))
         | Negate op child \<Rightarrow>
             bind_result (as_function (negate_functions op) (negate_function_set op) [child]) (\<lambda>(f, ps).
             Inr (PhysScalarFunction f ps))
         | CaseE cases else_expr t \<Rightarrow>
             bind_result (collect_results (\<lambda>c.
                 bind_result (plan (wt_when c)) (\<lambda>w.
                 bind_result (plan (wt_then c)) (\<lambda>t. Inr (WhenThen w t)))) cases) (\<lambda>cs.
             bind_result (plan else_expr) (\<lambda>el. Inr (PhysCase cs el t)))
         | _ \<Rightarrow> Inl (DbError ''Unsupported scalar expression''))"

section \<open>Evaluation on batches\<close>

record batch =
  batch_columns :: "scalar_value list list"
  batch_num_rows :: nat

definition batch_selection :: "batch \<Rightarrow> selection" where
  "batch_selection b = SelLinear 0 (batch_num_rows b)"

record eval_env =
  env_lib :: function_library
  env_batch_size :: nat
  env_stale :: scalar_value

definition reset_array :: "eval_env \<Rightarrow> scalar_value list" where
  "reset_array env = replicate (env_batch_size env) (env_stale env)"

fun is_linear :: "selection \<Rightarrow> bool" where
  "is_linear (SelLinear _ _) = True"
| "is_linear _ = False"

definition eval_column :: "batch \<Rightarrow> nat \<Rightarrow> selection \<Rightarrow> scalar_value list result" where
  "eval_column b idx sel =
     bind_result (vec_get (batch_columns b) idx) (\<lambda>col.
       if \<not> is_linear sel \<or> selection_len sel \<noteq> batch_num_rows b
       then collect_results (vec_get col) (selection_collect 0 sel)
       else Inr col)"

definition eval_literal :: "scalar_value \<Rightarrow> selection \<Rightarrow> scalar_value list \<Rightarrow> scalar_value list result" where
  "eval_literal v sel out =
     (if out = [] then Inl (DbError ''Index out of bounds'')
      else Inr (replicate (selection_len sel) v))"

text \<open>A row function over the rows \<open>0..n\<close> of its argument arrays, written to the same rows.\<close>

definition execute_rows ::
  "(scalar_value list \<Rightarrow> scalar_value result) \<Rightarrow> scalar_value list list \<Rightarrow> nat \<Rightarrow> scalar_value list \<Rightarrow> scalar_value list result" where
  "execute_rows f args n out =
     fold_results (\<lambda>i out.
        bind_result (collect_results (\<lambda>col. vec_get col i) args) (\<lambda>row.
        bind_result (f row) (\<lambda>v. vec_set out i v))) [0..<n] out"

definition copy_rows :: "scalar_value list \<Rightarrow> (nat \<times> nat) list \<Rightarrow> scalar_value list \<Rightarrow> scalar_value list result" where
  "copy_rows src mapping dest =
     fold_results (\<lambda>(from, to) dest. bind_result (vec_get src from) (\<lambda>v. vec_set dest to v)) mapping dest"

text \<open>\<open>UnaryExecutor::select\<close>: the indices whose value is true, and the others.\<close>

definition select_rows :: "scalar_value list \<Rightarrow> nat \<Rightarrow> (nat list \<times> nat list) result" where
  "select_rows col n =
     fold_results (\<lambda>i (trues, falses).
        bind_result (vec_get col i) (\<lambda>v. bind_result (as_boolean v) (\<lambda>x.
        if x = Some True then Inr (trues @ [i], falses) else Inr (trues, falses @ [i]))))
       [0..<n] ([], [])"

text \<open>
  The loop of \<open>PhysicalCaseExpr::eval\<close> over the cases; \<open>ev\<close> evaluates an expression for a list of
  selected rows into a reset array. It returns the rows that fell through and the output.
\<close>

fun case_loop ::
  "('p \<Rightarrow> nat list \<Rightarrow> scalar_value list result) \<Rightarrow> 'p when_then list \<Rightarrow> nat list \<Rightarrow> scalar_value list
    \<Rightarrow> (nat list \<times> scalar_value list) result" where
  "case_loop ev [] rows out = Inr (rows, out)"
| "case_loop ev (c # cs) rows out =
     (if rows = [] then Inr (rows, out)
      else bind_result (ev (wt_when c) rows) (\<lambda>when_array.
           bind_result (select_rows when_array (length rows)) (\<lambda>(trues, falses).
           let then_selection = map ((!) rows) trues; fallthrough = map ((!) rows) falses
           in if then_selection = [] then case_loop ev cs rows out
              else bind_result (ev (wt_then c) then_selection) (\<lambda>then_array.
                   bind_result (copy_rows then_array (List.enumerate 0 then_selection) out) (\<lambda>out'.
                   case_loop ev cs fallthrough out')))))"

lemma case_loop_cong [fundef_cong]:
  assumes "cs = cs'" "rows = rows'" "out = out'"
    and "\<And>c s. c \<in> set cs' \<Longrightarrow> ev (wt_when c) s = ev' (wt_when c) s"
    and "\<And>c s. c \<in> set cs' \<Longrightarrow> ev (wt_then c) s = ev' (wt_then c) s"
  shows "case_loop ev cs rows out = case_loop ev' cs' rows' out'"
proof -
  have "(\<And>c s. c \<in> set cs' \<Longrightarrow> ev (wt_when c) s = ev' (wt_when c) s \<and> ev (wt_then c) s = ev' (wt_then c) s) \<Longrightarrow>
      case_loop ev cs' rows out = case_loop ev' cs' rows out" for rows out
  proof (induction cs' arbitrary: rows out)
    case (Cons c cs)
    have "ev (wt_when c) = ev' (wt_when c)" "ev (wt_then c) = ev' (wt_then c)"
      using Cons.prems by (simp_all add: fun_eq_iff)
    moreover have "case_loop ev cs = case_loop ev' cs"
      using Cons by (simp add: fun_eq_iff)
    ultimately show ?case by (simp add: case_prod_beta Let_def cong: if_cong)
  qed simp
  then show ?thesis using assms by simp
qed

lemma when_then_size:
  "c \<in> set cs \<Longrightarrow> size (wt_when c) < size_list (size_when_then size) cs"
  "c \<in> set cs \<Longrightarrow> size (wt_then c) < size_list (size_when_then size) cs"
  using size_list_estimation' [of c cs "size_when_then size c" "size_when_then size"]
  by (cases c; simp)+

lemma phys_input_size: "p \<in> set ps \<Longrightarrow> size p < Suc (size_list size ps)"
  using size_list_estimation' [of p ps "size p" size] by simp

function eval_expression ::
  "eval_env \<Rightarrow> batch \<Rightarrow> physical_expr \<Rightarrow> selection \<Rightarrow> scalar_value list \<Rightarrow> scalar_value list result" where
  "eval_expression env b (PhysColumn idx t) sel out = eval_column b idx sel"
| "eval_expression env b (PhysLiteral v) sel out = eval_literal v sel out"
| "eval_expression env b (PhysScalarFunction f inputs) sel out =
     bind_result (collect_results (\<lambda>p. eval_expression env b p sel (reset_array env)) inputs) (\<lambda>args.
     execute_rows (call_execute (env_lib env) f) args (selection_len sel) out)"
| "eval_expression env b (PhysConjunction op f inputs) sel out =
     bind_result (collect_results (\<lambda>p. eval_expression env b p sel (reset_array env)) inputs) (\<lambda>args.
     execute_rows (execute_boolean op) args (selection_len sel) out)"
| "eval_expression env b (PhysCast to e c) sel out =
     bind_result (eval_expression env b e sel (reset_array env)) (\<lambda>child.
     execute_rows (\<lambda>row. lib_cast (env_lib env) c to (hd row)) [child] (selection_len sel) out)"
| "eval_expression env b (PhysCase cases else_expr t) sel out =
     bind_result
       (case_loop (\<lambda>p rows. eval_expression env b p (SelSlice rows) (reset_array env))
          cases (selection_collect 0 sel) out) (\<lambda>(rows, out').
       if rows = [] then Inr out'
       else bind_result (eval_expression env b else_expr (SelSlice rows) (reset_array env)) (\<lambda>else_array.
            copy_rows else_array (List.enumerate 0 rows) out'))"
  by pat_completeness auto
termination
  by (relation "measure (\<lambda>(env, b, p, sel, out). size p)")
    (auto dest: phys_input_size when_then_size intro: less_SucI trans_less_add1)

text \<open>\<open>ExpressionEvaluator::eval_batch\<close>: every expression into its own reset array.\<close>

definition eval_batch :: "eval_env \<Rightarrow> physical_expr list \<Rightarrow> batch \<Rightarrow> selection \<Rightarrow> batch result" where
  "eval_batch env exprs b sel =
     bind_result (collect_results (\<lambda>p. eval_expression env b p sel (reset_array env)) exprs) (\<lambda>cols.
     Inr \<lparr>batch_columns = cols, batch_num_rows = selection_len sel\<rparr>)"

text \<open>\<open>ExpressionEvaluator::try_eval_constant\<close>: one expression on a batch without columns and one row.\<close>

definition try_eval_constant :: "eval_env \<Rightarrow> physical_expr list \<Rightarrow> scalar_value result" where
  "try_eval_constant env exprs =
     (if length exprs \<noteq> 1 then Inl (DbError ''Single expression for constant eval required'')
      else bind_result (eval_expression env \<lparr>batch_columns = [], batch_num_rows = 1\<rparr> (exprs ! 0)
               (SelLinear 0 1) [env_stale env]) (\<lambda>out.
           if out = [] then Inl (DbError ''Index out of bounds'') else Inr (out ! 0)))"

text \<open>
  \<open>SelectionEvaluator::select\<close>: a top-level AND narrows the selection input by input and stops when
  it is empty; everything else is evaluated on the whole batch.
\<close>

fun select_and :: "eval_env \<Rightarrow> batch \<Rightarrow> physical_expr list \<Rightarrow> nat list \<Rightarrow> nat list result" where
  "select_and env b [] rows = Inr rows"
| "select_and env b (p # ps) rows =
     bind_result (eval_expression env b p (SelSlice rows) (reset_array env)) (\<lambda>out.
     bind_result (select_rows out (length rows)) (\<lambda>(trues, falses).
     let rows' = map ((!) rows) trues
     in if rows' = [] then Inr rows' else select_and env b ps rows'))"

definition selection_select :: "eval_env \<Rightarrow> physical_expr \<Rightarrow> batch \<Rightarrow> nat list result" where
  "selection_select env p b =
     (case p of
        PhysConjunction ConjAnd f inputs \<Rightarrow> select_and env b inputs (selection_collect 0 (batch_selection b))
      | _ \<Rightarrow> bind_result (eval_expression env b p (batch_selection b) (reset_array env)) (\<lambda>out.
             bind_result (select_rows out (batch_num_rows b)) (\<lambda>(trues, falses). Inr trues)))"

section \<open>The value of an expression on a row\<close>

fun case_row :: "('p \<Rightarrow> scalar_value result) \<Rightarrow> 'p when_then list \<Rightarrow> 'p \<Rightarrow> scalar_value result" where
  "case_row ev [] else_expr = ev else_expr"
| "case_row ev (c # cs) else_expr =
     bind_result (ev (wt_when c)) (\<lambda>v. bind_result (as_boolean v) (\<lambda>x.
       if x = Some True then ev (wt_then c) else case_row ev cs else_expr))"

lemma case_row_cong [fundef_cong]:
  assumes "cs = cs'" "e = e'" "ev e' = ev' e'"
    and "\<And>c. c \<in> set cs' \<Longrightarrow> ev (wt_when c) = ev' (wt_when c)"
    and "\<And>c. c \<in> set cs' \<Longrightarrow> ev (wt_then c) = ev' (wt_then c)"
  shows "case_row ev cs e = case_row ev' cs' e'"
proof -
  have "(\<And>c. c \<in> set cs' \<Longrightarrow> ev (wt_when c) = ev' (wt_when c) \<and> ev (wt_then c) = ev' (wt_then c)) \<Longrightarrow>
      case_row ev cs' e' = case_row ev' cs' e'"
    by (induction cs') (simp_all add: assms(3) cong: if_cong)
  then show ?thesis using assms by simp
qed

function eval_row :: "function_library \<Rightarrow> scalar_value list \<Rightarrow> physical_expr \<Rightarrow> scalar_value result" where
  "eval_row lib row (PhysColumn idx t) = vec_get row idx"
| "eval_row lib row (PhysLiteral v) = Inr v"
| "eval_row lib row (PhysScalarFunction f inputs) =
     bind_result (collect_results (eval_row lib row) inputs) (call_execute lib f)"
| "eval_row lib row (PhysConjunction op f inputs) =
     bind_result (collect_results (eval_row lib row) inputs) (execute_boolean op)"
| "eval_row lib row (PhysCast to e c) = bind_result (eval_row lib row e) (lib_cast lib c to)"
| "eval_row lib row (PhysCase cases else_expr t) = case_row (eval_row lib row) cases else_expr"
  by pat_completeness auto
termination
  by (relation "measure (\<lambda>(lib, row, p). size p)")
    (auto dest: phys_input_size when_then_size intro: less_SucI trans_less_add1)

section \<open>Batches compute rows\<close>

text \<open>
  An evaluated array agrees with a list of row results: if every row has a value the evaluation
  succeeds and the array starts with these values, and if a row fails the evaluation fails.
\<close>

definition agrees :: "scalar_value list result \<Rightarrow> scalar_value list result \<Rightarrow> bool" where
  "agrees rows r =
     (case rows of
        Inr vs \<Rightarrow> (\<exists>out. r = Inr out \<and> length vs \<le> length out \<and> take (length vs) out = vs)
      | Inl _ \<Rightarrow> (\<exists>e. r = Inl e))"

definition row_of :: "batch \<Rightarrow> nat \<Rightarrow> scalar_value list" where
  "row_of b r = map (\<lambda>col. col ! r) (batch_columns b)"

definition batch_wf :: "batch \<Rightarrow> bool" where
  "batch_wf b \<longleftrightarrow> (\<forall>col \<in> set (batch_columns b). batch_num_rows b \<le> length col)"

lemma agrees_InrD: "agrees (Inr vs) r \<Longrightarrow> \<exists>out. r = Inr out \<and> length vs \<le> length out \<and> take (length vs) out = vs"
  by (simp add: agrees_def)

lemma agrees_InlD: "agrees (Inl e) r \<Longrightarrow> \<exists>e'. r = Inl e'"
  by (simp add: agrees_def)

text \<open>The loop over the rows of a function: it writes exactly the first \<open>n\<close> rows.\<close>

lemma execute_rows_agrees:
  assumes "\<forall>col \<in> set args. n \<le> length col" and "n \<le> length out"
  shows "agrees (collect_results (\<lambda>i. f (map (\<lambda>col. col ! i) args)) [0..<n]) (execute_rows f args n out)"
proof -
  let ?row = "\<lambda>i. f (map (\<lambda>col. col ! i) args)"
  have step: "bind_result (collect_results (\<lambda>col. vec_get col i) args) (\<lambda>row. bind_result (f row) (\<lambda>v. vec_set out i v))
      = bind_result (?row i) (\<lambda>v. vec_set out i v)" if "i < n" for i out
  proof -
    have "collect_results (\<lambda>col. vec_get col i) args = Inr (map (\<lambda>col. col ! i) args)"
      using that assms(1) by (intro collect_results_cong [THEN trans, OF refl _ collect_results_Inr]) auto
    then show ?thesis by simp
  qed
  have "case collect_results ?row [0..<k] of
      Inr vs \<Rightarrow> (\<exists>out'. execute_rows f args k out = Inr out' \<and> length out' = length out \<and> take k out' = vs)
    | Inl _ \<Rightarrow> (\<exists>e. execute_rows f args k out = Inl e)" if "k \<le> n" for k
    using that
  proof (induction k)
    case (Suc k)
    have app: "collect_results ?row [0..<Suc k] =
        bind_result (collect_results ?row [0..<k]) (\<lambda>vs. bind_result (?row k) (\<lambda>v. Inr (vs @ [v])))"
      by (simp add: collect_results_snoc)
    have ex: "execute_rows f args (Suc k) out =
        bind_result (execute_rows f args k out) (\<lambda>out. bind_result (?row k) (\<lambda>v. vec_set out k v))"
      using step [of k] Suc.prems by (simp add: execute_rows_def fold_results_append)
    show ?case
    proof (cases "collect_results ?row [0..<k]")
      case (Inr vs)
      then obtain out' where out': "execute_rows f args k out = Inr out'" "length out' = length out" "take k out' = vs"
        using Suc by fastforce
      then show ?thesis unfolding app ex
        using Inr Suc.prems assms(2) by (cases "?row k") (auto simp: take_Suc_conv_app_nth)
    next
      case (Inl e)
      then show ?thesis unfolding app ex using Suc by auto
    qed
  qed (simp add: execute_rows_def)
  from this [of n] assms(2) show ?thesis
    by (auto simp: agrees_def split: sum.splits dest: collect_results_length)
qed

text \<open>Columns in range, and expressions without CASE.\<close>

function columns_below :: "nat \<Rightarrow> physical_expr \<Rightarrow> bool" where
  "columns_below n (PhysColumn idx t) \<longleftrightarrow> idx < n"
| "columns_below n (PhysLiteral v) \<longleftrightarrow> True"
| "columns_below n (PhysScalarFunction f inputs) \<longleftrightarrow> list_all (columns_below n) inputs"
| "columns_below n (PhysConjunction op f inputs) \<longleftrightarrow> list_all (columns_below n) inputs"
| "columns_below n (PhysCast to e c) \<longleftrightarrow> columns_below n e"
| "columns_below n (PhysCase cases else_expr t) \<longleftrightarrow>
     list_all (\<lambda>c. columns_below n (wt_when c) \<and> columns_below n (wt_then c)) cases \<and> columns_below n else_expr"
  by pat_completeness auto
termination
  by (relation "measure (\<lambda>(n, p). size p)")
    (auto dest: phys_input_size when_then_size intro: less_SucI trans_less_add1)

fun case_free :: "physical_expr \<Rightarrow> bool" where
  "case_free (PhysColumn idx t) = True"
| "case_free (PhysLiteral v) = True"
| "case_free (PhysScalarFunction f inputs) = list_all case_free inputs"
| "case_free (PhysConjunction op f inputs) = list_all case_free inputs"
| "case_free (PhysCast to e c) = case_free e"
| "case_free (PhysCase cases else_expr t) = False"

lemma eval_column_agrees:
  assumes "batch_wf b" and rows: "\<forall>r \<in> set (selection_rows sel). r < batch_num_rows b"
    and idx: "idx < length (batch_columns b)"
  shows "agrees (collect_results (\<lambda>r. vec_get (row_of b r) idx) (selection_rows sel)) (eval_column b idx sel)"
proof -
  let ?col = "batch_columns b ! idx"
  have len: "batch_num_rows b \<le> length ?col" using assms(1) idx by (simp add: batch_wf_def)
  have "collect_results (\<lambda>r. vec_get (row_of b r) idx) (selection_rows sel) =
      Inr (map ((!) ?col) (selection_rows sel))"
    using idx by (simp add: row_of_def)
  moreover have "collect_results (vec_get ?col) (selection_rows sel) = Inr (map ((!) ?col) (selection_rows sel))"
    using rows len by (intro collect_results_cong [THEN trans, OF refl _ collect_results_Inr]) auto
  moreover have "take (selection_len sel) ?col = map ((!) ?col) (selection_rows sel)"
    if lin: "is_linear sel" and full: "selection_len sel = batch_num_rows b"
  proof -
    obtain start n where sel: "sel = SelLinear start n" using lin by (cases sel) auto
    have "start = 0 \<or> n = 0"
      using rows full by (auto simp: sel dest: bspec [of _ _ "start + n - 1"])
    then show ?thesis
      using len full by (auto simp: sel intro: nth_equalityI)
  qed
  ultimately show ?thesis
    using idx len by (auto simp: eval_column_def agrees_def selection_collect_rows)
qed

text \<open>Arguments first, then the function on the rows of the arguments.\<close>

lemma eval_inputs_agree:
  assumes inputs: "\<And>p. p \<in> set ps \<Longrightarrow> agrees (collect_results (\<lambda>r. row p r) rows) (ev p)"
    and out: "length rows \<le> length out"
  shows "agrees (collect_results (\<lambda>r. bind_result (collect_results (\<lambda>p. row p r) ps) f) rows)
           (bind_result (collect_results ev ps) (\<lambda>args. execute_rows f args (length rows) out))"
proof (cases "\<exists>e. collect_results ev ps = Inl e")
  case True
  then obtain p where "p \<in> set ps" and "\<exists>e. ev p = Inl e" by (auto simp: collect_results_Inl)
  then have "\<exists>e. collect_results (\<lambda>r. row p r) rows = Inl e"
    using inputs [of p] by (cases "collect_results (\<lambda>r. row p r) rows") (auto simp: agrees_def)
  then obtain r where "r \<in> set rows" and "\<exists>e. row p r = Inl e" by (auto simp: collect_results_Inl)
  then have "\<exists>e. collect_results (\<lambda>p. row p r) ps = Inl e"
    using \<open>p \<in> set ps\<close> by (auto simp: collect_results_Inl)
  then have "\<exists>e. bind_result (collect_results (\<lambda>p. row p r) ps) f = Inl e" by auto
  then have "\<exists>e. collect_results (\<lambda>r. bind_result (collect_results (\<lambda>p. row p r) ps) f) rows = Inl e"
    using \<open>r \<in> set rows\<close> by (subst collect_results_Inl) blast
  then show ?thesis using True by (auto simp: agrees_def)
next
  case False
  then obtain args where args: "collect_results ev ps = Inr args"
    by (cases "collect_results ev ps") auto
  have arg: "length rows \<le> length (args ! j) \<and> (\<forall>i < length rows. row (ps ! j) (rows ! i) = Inr (args ! j ! i))"
    if j: "j < length ps" for j
  proof -
    have ev: "ev (ps ! j) = Inr (args ! j)" by (rule collect_results_nth [OF args j])
    then obtain vs where vs: "collect_results (\<lambda>r. row (ps ! j) r) rows = Inr vs"
      using inputs [of "ps ! j"] j by (cases "collect_results (\<lambda>r. row (ps ! j) r) rows") (auto simp: agrees_def)
    then have l: "length vs = length rows" by (rule collect_results_length)
    moreover have "length vs \<le> length (args ! j)" "take (length vs) (args ! j) = vs"
      using inputs [of "ps ! j"] j ev vs by (auto simp: agrees_def)
    ultimately show ?thesis
      using collect_results_nth [OF vs] by (metis nth_take)
  qed
  have len: "length args = length ps" by (rule collect_results_length [OF args])
  have row: "collect_results (\<lambda>p. row p (rows ! i)) ps = Inr (map (\<lambda>col. col ! i) args)" if "i < length rows" for i
    using arg that len by (auto simp: collect_results_list_all2 list_all2_conv_all_nth)
  have "collect_results (\<lambda>r. bind_result (collect_results (\<lambda>p. row p r) ps) f) rows =
      collect_results (\<lambda>i. bind_result (collect_results (\<lambda>p. row p (rows ! i)) ps) f) [0..<length rows]"
    using collect_results_map [of "\<lambda>r. bind_result (collect_results (\<lambda>p. row p r) ps) f" "(!) rows" "[0..<length rows]"]
    by (simp add: map_nth)
  also have "\<dots> = collect_results (\<lambda>i. f (map (\<lambda>col. col ! i) args)) [0..<length rows]"
    by (rule collect_results_cong) (simp_all add: row)
  finally have spec: "collect_results (\<lambda>r. bind_result (collect_results (\<lambda>p. row p r) ps) f) rows =
      collect_results (\<lambda>i. f (map (\<lambda>col. col ! i) args)) [0..<length rows]" .
  have "\<forall>col \<in> set args. length rows \<le> length col"
    using arg len by (metis in_set_conv_nth)
  then show ?thesis
    using execute_rows_agrees [of args "length rows" out f] out by (simp add: spec args)
qed

text \<open>Expressions without CASE: any selection.\<close>

lemma eval_case_free_agrees:
  assumes wf: "batch_wf b" and size: "0 < env_batch_size env"
  shows "case_free p \<Longrightarrow> columns_below (length (batch_columns b)) p \<Longrightarrow>
    \<forall>r \<in> set (selection_rows sel). r < batch_num_rows b \<Longrightarrow>
    selection_len sel \<le> env_batch_size env \<Longrightarrow> out \<noteq> [] \<Longrightarrow> selection_len sel \<le> length out \<Longrightarrow>
    agrees (collect_results (\<lambda>r. eval_row (env_lib env) (row_of b r) p) (selection_rows sel))
      (eval_expression env b p sel out)"
proof (induction p arbitrary: sel out rule: case_free.induct)
  case (1 idx t)
  then have "idx < length (batch_columns b)" by simp
  then show ?case using eval_column_agrees [OF wf 1(3)] by simp
next
  case (2 v)
  then show ?case by (simp add: eval_literal_def agrees_def map_replicate_const)
next
  case (3 f inputs)
  have "agrees (collect_results (\<lambda>r. eval_row (env_lib env) (row_of b r) p) (selection_rows sel))
      (eval_expression env b p sel (reset_array env))" if "p \<in> set inputs" for p
    using 3 that size by (simp add: list_all_iff reset_array_def)
  then show ?case
    using eval_inputs_agree [of inputs "\<lambda>p r. eval_row (env_lib env) (row_of b r) p" "selection_rows sel"
        "\<lambda>p. eval_expression env b p sel (reset_array env)" out "call_execute (env_lib env) f"] 3(7) by simp
next
  case (4 op f inputs)
  have "agrees (collect_results (\<lambda>r. eval_row (env_lib env) (row_of b r) p) (selection_rows sel))
      (eval_expression env b p sel (reset_array env))" if "p \<in> set inputs" for p
    using 4 that size by (simp add: list_all_iff reset_array_def)
  then show ?case
    using eval_inputs_agree [of inputs "\<lambda>p r. eval_row (env_lib env) (row_of b r) p" "selection_rows sel"
        "\<lambda>p. eval_expression env b p sel (reset_array env)" out "execute_boolean op"] 4(7) by simp
next
  case (5 to e c)
  have "agrees (collect_results (\<lambda>r. eval_row (env_lib env) (row_of b r) e) (selection_rows sel))
      (eval_expression env b e sel (reset_array env))"
    using 5 size by (simp add: reset_array_def)
  then show ?case
    using eval_inputs_agree [of "[e]" "\<lambda>p r. eval_row (env_lib env) (row_of b r) p" "selection_rows sel"
        "\<lambda>p. eval_expression env b p sel (reset_array env)" out "\<lambda>row. lib_cast (env_lib env) c to (hd row)"] 5(7)
    by (simp add: bind_result_assoc)
qed simp

subsection \<open>CASE\<close>

lemma agrees_cases:
  assumes "agrees (collect_results f rs) r"
  obtains (fail) x e where "x \<in> set rs" "f x = Inl e" "\<exists>e'. r = Inl e'"
  | (ok) col where "r = Inr col" "length rs \<le> length col" "\<And>i. i < length rs \<Longrightarrow> f (rs ! i) = Inr (col ! i)"
proof (cases "collect_results f rs")
  case (Inl e)
  then have "\<exists>e. collect_results f rs = Inl e" by blast
  then obtain x e' where "x \<in> set rs" "f x = Inl e'" unfolding collect_results_Inl by blast
  then show ?thesis using assms Inl fail by (auto simp: agrees_def)
next
  case (Inr vs)
  then have "length vs = length rs" by (rule collect_results_length)
  moreover obtain col where "r = Inr col" "length vs \<le> length col" "take (length vs) col = vs"
    using assms Inr by (auto simp: agrees_def)
  ultimately show ?thesis using ok [of col] collect_results_nth [OF Inr] by (metis nth_take)
qed

lemma copy_rows_writes:
  assumes "length rs \<le> length src" and "distinct rs" and "\<forall>r \<in> set rs. r < length out"
  shows "\<exists>out'. copy_rows src (List.enumerate 0 rs) out = Inr out' \<and> length out' = length out \<and>
    (\<forall>i < length rs. out' ! (rs ! i) = src ! i) \<and> (\<forall>j. j \<notin> set rs \<longrightarrow> out' ! j = out ! j)"
  using assms
proof (induction rs rule: rev_induct)
  case (snoc r rs)
  obtain out' where out': "copy_rows src (List.enumerate 0 rs) out = Inr out'" "length out' = length out"
      "\<forall>i < length rs. out' ! (rs ! i) = src ! i" "\<forall>j. j \<notin> set rs \<longrightarrow> out' ! j = out ! j"
    using snoc by auto
  have "copy_rows src (List.enumerate 0 (rs @ [r])) out = Inr (out'[r := src ! length rs])"
    using out'(1,2) snoc.prems by (simp add: copy_rows_def fold_results_append enumerate_append_eq)
  moreover have "r \<notin> set rs" using snoc.prems by simp
  ultimately show ?case
    using out' snoc.prems by (auto simp: nth_append nth_list_update less_Suc_eq)
qed (simp add: copy_rows_def)

lemma select_rows_partition:
  assumes "\<And>i. i < n \<Longrightarrow> as_boolean (col ! i) = Inr (x i)" and "n \<le> length col"
  shows "select_rows col n = Inr (filter (\<lambda>i. x i = Some True) [0..<n], filter (\<lambda>i. x i \<noteq> Some True) [0..<n])"
  using assms
proof (induction n)
  case (Suc n)
  then show ?case by (simp add: select_rows_def fold_results_append)
qed (simp add: select_rows_def)

lemma select_rows_fails:
  assumes "i < n" and "as_boolean (col ! i) = Inl e" and "n \<le> length col"
  shows "\<exists>e. select_rows col n = Inl e"
  using assms
proof (induction n)
  case (Suc n)
  then have "vec_get col n = Inr (col ! n)" by simp
  with Suc show ?case
    by (cases "i = n"; cases "select_rows col n")
      (auto simp: select_rows_def fold_results_append case_prod_beta)
qed simp

lemma nth_filter_rows:
  "map ((!) rs) (filter (\<lambda>i. P (rs ! i)) [0..<length rs]) = filter P rs"
proof -
  have "map ((!) rs) (filter (P \<circ> (!) rs) [0..<length rs]) = filter P (map ((!) rs) [0..<length rs])"
    by (simp only: filter_map)
  then show ?thesis by (simp add: comp_def map_nth)
qed

text \<open>
  The whole CASE on a list of distinct rows inside the output: a row whose value fails makes it
  fail, and otherwise the value of every row is written at the position of that row.
\<close>

definition case_writes :: "(nat \<Rightarrow> scalar_value result) \<Rightarrow> nat list \<Rightarrow> scalar_value list \<Rightarrow> scalar_value list result \<Rightarrow> bool" where
  "case_writes spec rows out r \<longleftrightarrow>
     ((\<exists>x \<in> set rows. \<exists>e. spec x = Inl e) \<longrightarrow> (\<exists>e. r = Inl e)) \<and>
     ((\<forall>x \<in> set rows. \<exists>v. spec x = Inr v) \<longrightarrow>
       (\<exists>out'. r = Inr out' \<and> length out' = length out \<and> (\<forall>x \<in> set rows. spec x = Inr (out' ! x)) \<and>
         (\<forall>j. j \<notin> set rows \<longrightarrow> out' ! j = out ! j)))"

lemma case_writes_fail:
  "x \<in> set rows \<Longrightarrow> spec x = Inl e \<Longrightarrow> r = Inl e' \<Longrightarrow> case_writes spec rows out r"
  unfolding case_writes_def by (metis Inl_Inr_False)

lemma case_writes_failD:
  "case_writes spec rows out r \<Longrightarrow> x \<in> set rows \<Longrightarrow> spec x = Inl e \<Longrightarrow> \<exists>e'. r = Inl e'"
  by (auto simp: case_writes_def)

lemma case_writes_ok:
  "length out' = length out \<Longrightarrow> (\<And>x. x \<in> set rows \<Longrightarrow> spec x = Inr (out' ! x)) \<Longrightarrow>
   (\<And>j. j \<notin> set rows \<Longrightarrow> out' ! j = out ! j) \<Longrightarrow> case_writes spec rows out (Inr out')"
  by (auto simp: case_writes_def)

lemma case_writes_okD:
  assumes "case_writes spec rows out r" and "\<And>x. x \<in> set rows \<Longrightarrow> \<exists>v. spec x = Inr v"
  shows "\<exists>out'. r = Inr out' \<and> length out' = length out \<and> (\<forall>x \<in> set rows. spec x = Inr (out' ! x)) \<and>
    (\<forall>j. j \<notin> set rows \<longrightarrow> out' ! j = out ! j)"
  using assms by (simp add: case_writes_def)

definition case_finish ::
  "('p \<Rightarrow> nat list \<Rightarrow> scalar_value list result) \<Rightarrow> 'p \<Rightarrow> (nat list \<times> scalar_value list) result \<Rightarrow> scalar_value list result" where
  "case_finish ev else_expr r =
     bind_result r (\<lambda>(rows, out). if rows = [] then Inr out
       else bind_result (ev else_expr rows) (\<lambda>else_array. copy_rows else_array (List.enumerate 0 rows) out))"

lemma eval_copy_writes:
  assumes ag: "agrees (collect_results (row p) rows) (ev p rows)"
    and rows: "distinct rows" "\<forall>r \<in> set rows. r < length out"
  shows "case_writes (row p) rows out
           (bind_result (ev p rows) (\<lambda>a. copy_rows a (List.enumerate 0 rows) out))"
  using ag
proof (cases rule: agrees_cases)
  case (fail x e)
  then show ?thesis by (auto intro: case_writes_fail)
next
  case (ok col)
  obtain out' where out': "copy_rows col (List.enumerate 0 rows) out = Inr out'" "length out' = length out"
      "\<forall>i < length rows. out' ! (rows ! i) = col ! i" "\<forall>j. j \<notin> set rows \<longrightarrow> out' ! j = out ! j"
    using copy_rows_writes [OF ok(2) rows] by blast
  have "\<forall>x \<in> set rows. row p x = Inr (out' ! x)"
    using ok(3) out'(3) by (metis in_set_conv_nth)
  then show ?thesis using ok(1) out' by (auto intro: case_writes_ok)
qed

lemma case_writes_split:
  assumes first: "case_writes f ts out r"
    and second: "\<And>out1. r = Inr out1 \<Longrightarrow> length out1 = length out \<Longrightarrow> case_writes g fs out1 (k out1)"
    and rows: "set rows = set ts \<union> set fs" "set ts \<inter> set fs = {}"
    and spec: "\<And>x. x \<in> set ts \<Longrightarrow> spec x = f x" "\<And>x. x \<in> set fs \<Longrightarrow> spec x = g x"
  shows "case_writes spec rows out (bind_result r k)"
proof (cases "\<exists>x \<in> set ts. \<exists>e. spec x = Inl e")
  case True
  then obtain x e where x: "x \<in> set ts" "spec x = Inl e" by blast
  then obtain e' where "r = Inl e'" using case_writes_failD [OF first, of x e] spec(1) by auto
  then show ?thesis using case_writes_fail [of x rows spec e] x rows(1) by simp
next
  case False
  then have "\<forall>x \<in> set ts. \<exists>v. f x = Inr v"
    using spec(1) by (metis sum.exhaust)
  then obtain out1 where out1: "r = Inr out1" "length out1 = length out" "\<forall>x \<in> set ts. f x = Inr (out1 ! x)"
      "\<forall>j. j \<notin> set ts \<longrightarrow> out1 ! j = out ! j"
    using case_writes_okD [OF first] by auto
  have k: "case_writes g fs out1 (k out1)" using second out1 by blast
  show ?thesis
  proof (cases "\<exists>x \<in> set fs. \<exists>e. g x = Inl e")
    case True
    then obtain x e where x: "x \<in> set fs" "g x = Inl e" by blast
    then obtain e' where "k out1 = Inl e'" using case_writes_failD [OF k] by blast
    then show ?thesis using case_writes_fail [of x rows spec e] x rows(1) spec(2) out1(1) by simp
  next
    case no_err: False
    then have "\<forall>x \<in> set fs. \<exists>v. g x = Inr v" by (metis sum.exhaust)
    then obtain out2 where out2: "k out1 = Inr out2" "length out2 = length out1" "\<forall>x \<in> set fs. g x = Inr (out2 ! x)"
        "\<forall>j. j \<notin> set fs \<longrightarrow> out2 ! j = out1 ! j"
      using case_writes_okD [OF k] by auto
    have "\<forall>x \<in> set rows. spec x = Inr (out2 ! x)"
    proof
      fix x assume "x \<in> set rows"
      then consider "x \<in> set fs" | "x \<in> set ts" "x \<notin> set fs" using rows by blast
      then show "spec x = Inr (out2 ! x)" using out1(3) out2(3,4) spec by cases simp_all
    qed
    moreover have "\<forall>j. j \<notin> set rows \<longrightarrow> out2 ! j = out ! j" using out1(4) out2(4) rows(1) by simp
    ultimately show ?thesis using out1(1,2) out2(1,2) by (auto intro: case_writes_ok)
  qed
qed

lemma as_boolean_true: "as_boolean v = Inr (Some True) \<longleftrightarrow> v = SvBoolean True"
  by (cases v) auto

text \<open>Evaluating a predicate and partitioning the selected rows by its value.\<close>

lemma select_agrees:
  assumes "agrees (collect_results f rows) r"
  obtains (fail) x e where "x \<in> set rows" "bind_result (f x) as_boolean = Inl e"
      "\<exists>e. bind_result r (\<lambda>a. select_rows a (length rows)) = Inl e"
  | (ok) "\<And>x. x \<in> set rows \<Longrightarrow> \<exists>y. bind_result (f x) as_boolean = Inr y"
      "bind_result r (\<lambda>a. select_rows a (length rows)) =
        Inr (filter (\<lambda>i. f (rows ! i) = Inr (SvBoolean True)) [0..<length rows],
             filter (\<lambda>i. f (rows ! i) \<noteq> Inr (SvBoolean True)) [0..<length rows])"
  using assms
proof (cases rule: agrees_cases)
  case (fail x e)
  then show ?thesis using that(1) [of x e] by auto
next
  case (ok col)
  have b: "bind_result (f (rows ! i)) as_boolean = as_boolean (col ! i)" if "i < length rows" for i
    using ok(3) that by simp
  show ?thesis
  proof (cases "\<exists>i < length rows. \<exists>e. as_boolean (col ! i) = Inl e")
    case True
    then obtain i e where i: "i < length rows" "as_boolean (col ! i) = Inl e" by blast
    then show ?thesis using that(1) [of "rows ! i" e] b select_rows_fails [OF i ok(2)] ok(1) by simp
  next
    case False
    then have "\<forall>i < length rows. \<exists>y. as_boolean (col ! i) = Inr y" by (metis sum.exhaust)
    then obtain y where y: "\<And>i. i < length rows \<Longrightarrow> as_boolean (col ! i) = Inr (y i)" by metis
    have "y i = Some True \<longleftrightarrow> f (rows ! i) = Inr (SvBoolean True)" if "i < length rows" for i
      using y [OF that] ok(3) [OF that] by (metis as_boolean_true old.sum.inject(2))
    then have "filter (\<lambda>i. y i = Some True) [0..<length rows] = filter (\<lambda>i. f (rows ! i) = Inr (SvBoolean True)) [0..<length rows]"
      "filter (\<lambda>i. y i \<noteq> Some True) [0..<length rows] = filter (\<lambda>i. f (rows ! i) \<noteq> Inr (SvBoolean True)) [0..<length rows]"
      by (auto intro: filter_cong)
    then have "select_rows col (length rows) = Inr (filter (\<lambda>i. f (rows ! i) = Inr (SvBoolean True)) [0..<length rows],
        filter (\<lambda>i. f (rows ! i) \<noteq> Inr (SvBoolean True)) [0..<length rows])"
      using select_rows_partition [of "length rows" col y, OF y ok(2)] by simp
    moreover have "\<exists>y. bind_result (f x) as_boolean = Inr y" if "x \<in> set rows" for x
      using b y that by (metis in_set_conv_nth)
    ultimately show ?thesis using that(2) ok(1) by simp
  qed
qed

lemma case_row_step:
  assumes "bind_result (row (wt_when c)) as_boolean = Inr y"
  shows "case_row row (c # cs) e =
           (if row (wt_when c) = Inr (SvBoolean True) then row (wt_then c) else case_row row cs e)"
proof -
  obtain v where v: "row (wt_when c) = Inr v" "as_boolean v = Inr y"
    using assms by (auto simp: bind_result_eq_Inr)
  then show ?thesis using as_boolean_true [of v] by auto
qed

lemma case_loop_Cons:
  "rows \<noteq> [] \<Longrightarrow> case_loop ev (c # cs) rows out =
     bind_result (bind_result (ev (wt_when c) rows) (\<lambda>a. select_rows a (length rows))) (\<lambda>(trues, falses).
       if map ((!) rows) trues = [] then case_loop ev cs rows out
       else bind_result (bind_result (ev (wt_then c) (map ((!) rows) trues))
              (\<lambda>a. copy_rows a (List.enumerate 0 (map ((!) rows) trues)) out))
            (case_loop ev cs (map ((!) rows) falses)))"
  by (simp add: bind_result_assoc Let_def case_prod_beta cong: if_cong)

declare case_loop.simps(2) [simp del]

lemma case_loop_writes:
  assumes ev: "\<And>p rs. p \<in> P \<Longrightarrow> set rs \<subseteq> R \<Longrightarrow> distinct rs \<Longrightarrow> agrees (collect_results (row p) rs) (ev p rs)"
    and "else_expr \<in> P" and "\<forall>c \<in> set cs. wt_when c \<in> P \<and> wt_then c \<in> P"
    and "distinct rows" and "set rows \<subseteq> R" and "\<forall>r \<in> R. r < length out"
  shows "case_writes (\<lambda>r. case_row (\<lambda>p. row p r) cs else_expr) rows out
           (case_finish ev else_expr (case_loop ev cs rows out))"
  using assms(3-)
proof (induction cs arbitrary: rows out)
  case Nil
  then show ?case
    using eval_copy_writes [of row else_expr rows ev out] ev [OF \<open>else_expr \<in> P\<close>, of rows]
    by (auto simp: case_finish_def case_writes_def)
next
  case (Cons c cs)
  let ?t = "\<lambda>r. row (wt_when c) r = Inr (SvBoolean True)"
  show ?case
  proof (cases "rows = []")
    case False
    have "agrees (collect_results (row (wt_when c)) rows) (ev (wt_when c) rows)"
      using Cons.prems by (intro ev) auto
    then show ?thesis
    proof (cases rule: select_agrees)
      case (fail x e)
      have "\<exists>e. case_loop ev (c # cs) rows out = Inl e"
        unfolding case_loop_Cons [OF False] using fail(3) by auto
      moreover have "case_row (\<lambda>p. row p x) (c # cs) else_expr = Inl e"
        using fail(2) by (simp add: bind_result_assoc [symmetric])
      ultimately show ?thesis using fail(1) by (auto simp: case_finish_def intro: case_writes_fail)
    next
      case ok
      have loop: "case_loop ev (c # cs) rows out =
          (if filter ?t rows = [] then case_loop ev cs rows out
           else bind_result (bind_result (ev (wt_then c) (filter ?t rows))
               (\<lambda>a. copy_rows a (List.enumerate 0 (filter ?t rows)) out)) (case_loop ev cs (filter (\<lambda>r. \<not> ?t r) rows)))"
        unfolding case_loop_Cons [OF False] ok(2) bind_result_simps prod.case
          nth_filter_rows [of rows ?t] nth_filter_rows [of rows "\<lambda>r. \<not> ?t r"] by (rule refl)
      have spec: "case_row (\<lambda>p. row p x) (c # cs) else_expr =
          (if ?t x then row (wt_then c) x else case_row (\<lambda>p. row p x) cs else_expr)" if "x \<in> set rows" for x
        using ok(1) [OF that] case_row_step [of "\<lambda>p. row p x" c] by blast
      show ?thesis
      proof (cases "filter ?t rows = []")
        case True
        then have "case_writes (\<lambda>r. case_row (\<lambda>p. row p r) cs else_expr) rows out
            (case_finish ev else_expr (case_loop ev (c # cs) rows out))"
          using Cons by (simp add: loop)
        then show ?thesis
          using True spec by (simp add: case_writes_def filter_empty_conv)
      next
        case some: False
        have "case_writes (\<lambda>r. case_row (\<lambda>p. row p r) (c # cs) else_expr) rows out
            (bind_result (bind_result (ev (wt_then c) (filter ?t rows))
               (\<lambda>a. copy_rows a (List.enumerate 0 (filter ?t rows)) out))
             (\<lambda>out1. case_finish ev else_expr (case_loop ev cs (filter (\<lambda>r. \<not> ?t r) rows) out1)))"
        proof (rule case_writes_split [where ts = "filter ?t rows" and fs = "filter (\<lambda>r. \<not> ?t r) rows"])
          show "case_writes (row (wt_then c)) (filter ?t rows) out
              (bind_result (ev (wt_then c) (filter ?t rows)) (\<lambda>a. copy_rows a (List.enumerate 0 (filter ?t rows)) out))"
            using Cons.prems by (intro eval_copy_writes ev) auto
          show "case_writes (\<lambda>r. case_row (\<lambda>p. row p r) cs else_expr) (filter (\<lambda>r. \<not> ?t r) rows) out1
              (case_finish ev else_expr (case_loop ev cs (filter (\<lambda>r. \<not> ?t r) rows) out1))"
            if "length out1 = length out" for out1
            using Cons.prems that by (intro Cons.IH) auto
        qed (use spec in auto)
        then show ?thesis
          using some by (simp add: loop case_finish_def bind_result_assoc)
      qed
    qed
  qed (simp add: case_writes_def case_finish_def case_loop.simps(2))
qed

text \<open>
  Expressions in which every CASE is evaluated on the selection that was passed in, and has no
  CASE inside.
\<close>

fun case_outermost :: "physical_expr \<Rightarrow> bool" where
  "case_outermost (PhysColumn idx t) = True"
| "case_outermost (PhysLiteral v) = True"
| "case_outermost (PhysScalarFunction f inputs) = list_all case_outermost inputs"
| "case_outermost (PhysConjunction op f inputs) = list_all case_outermost inputs"
| "case_outermost (PhysCast to e c) = case_outermost e"
| "case_outermost (PhysCase cases else_expr t) =
     (list_all (\<lambda>c. case_free (wt_when c) \<and> case_free (wt_then c)) cases \<and> case_free else_expr)"

lemma case_writes_agrees:
  assumes "case_writes spec [0..<n] out r" and "n \<le> length out"
  shows "agrees (collect_results spec [0..<n]) r"
proof (cases "\<exists>x \<in> set [0..<n]. \<exists>e. spec x = Inl e")
  case True
  then have "\<exists>e. collect_results spec [0..<n] = Inl e" unfolding collect_results_Inl .
  moreover obtain x e where "x \<in> set [0..<n]" "spec x = Inl e" using True by blast
  moreover from this have "\<exists>e'. r = Inl e'" by (rule case_writes_failD [OF assms(1)])
  ultimately show ?thesis by (auto simp: agrees_def)
next
  case False
  then have "\<And>x. x \<in> set [0..<n] \<Longrightarrow> \<exists>v. spec x = Inr v" by (metis sum.exhaust)
  from case_writes_okD [OF assms(1) this] obtain out' where out': "r = Inr out'" "length out' = length out"
      "\<forall>x \<in> set [0..<n]. spec x = Inr (out' ! x)" by auto
  then have "collect_results spec [0..<n] = Inr (map ((!) out') [0..<n])"
    using collect_results_cong [of "[0..<n]" "[0..<n]" spec "\<lambda>x. Inr (out' ! x)"] by simp
  moreover have "map ((!) out') [0..<n] = take n out'"
    using out'(2) assms(2) by (intro nth_equalityI) simp_all
  ultimately show ?thesis using out'(1,2) assms(2) by (simp add: agrees_def)
qed

lemma case_expression_writes:
  assumes wf: "batch_wf b" and size: "0 < env_batch_size env" "batch_num_rows b \<le> env_batch_size env"
    and free: "list_all (\<lambda>c. case_free (wt_when c) \<and> case_free (wt_then c)) cases" "case_free else_expr"
    and cols: "columns_below (length (batch_columns b)) (PhysCase cases else_expr t)"
    and out: "batch_num_rows b \<le> length out"
    and sel: "distinct (selection_rows sel)" "\<forall>r \<in> set (selection_rows sel). r < batch_num_rows b"
  shows "case_writes (\<lambda>r. eval_row (env_lib env) (row_of b r) (PhysCase cases else_expr t)) (selection_rows sel) out
           (eval_expression env b (PhysCase cases else_expr t) sel out)"
proof -
  let ?P = "{p. case_free p \<and> columns_below (length (batch_columns b)) p}"
  let ?R = "{0..<batch_num_rows b}"
  let ?row = "\<lambda>p r. eval_row (env_lib env) (row_of b r) p"
  let ?ev = "\<lambda>p rows. eval_expression env b p (SelSlice rows) (reset_array env)"
  have "agrees (collect_results (?row p) rs) (?ev p rs)" if "p \<in> ?P" "set rs \<subseteq> ?R" "distinct rs" for p rs
  proof -
    have "length rs \<le> batch_num_rows b"
      using card_mono [of ?R "set rs"] that by (simp add: distinct_card)
    then show ?thesis
      using eval_case_free_agrees [OF wf size(1), of p "SelSlice rs" "reset_array env"] that size
      by (simp add: reset_array_def subset_eq)
  qed
  then have "case_writes (\<lambda>r. case_row (\<lambda>p. ?row p r) cases else_expr) (selection_rows sel) out
      (case_finish ?ev else_expr (case_loop ?ev cases (selection_rows sel) out))"
    using free cols out sel by (intro case_loop_writes [where P = ?P and R = ?R]) (auto simp: list_all_iff)
  then show ?thesis
    by (simp add: case_finish_def selection_collect_rows)
qed

lemma eval_case_agrees:
  assumes wf: "batch_wf b" and size: "0 < env_batch_size env" "batch_num_rows b \<le> env_batch_size env"
    and free: "list_all (\<lambda>c. case_free (wt_when c) \<and> case_free (wt_then c)) cases" "case_free else_expr"
    and cols: "columns_below (length (batch_columns b)) (PhysCase cases else_expr t)"
    and sel: "selection_rows sel = [0..<batch_num_rows b]" and out: "batch_num_rows b \<le> length out"
  shows "agrees (collect_results (\<lambda>r. eval_row (env_lib env) (row_of b r) (PhysCase cases else_expr t)) [0..<batch_num_rows b])
           (eval_expression env b (PhysCase cases else_expr t) sel out)"
  using case_writes_agrees [OF _ out] case_expression_writes [OF wf size free cols out, of sel] sel
  by (simp del: eval_expression.simps eval_row.simps)

lemma eval_outermost_agrees:
  assumes wf: "batch_wf b" and size: "0 < env_batch_size env" "batch_num_rows b \<le> env_batch_size env"
    and sel: "selection_rows sel = [0..<batch_num_rows b]"
  shows "case_outermost p \<Longrightarrow> columns_below (length (batch_columns b)) p \<Longrightarrow>
    out \<noteq> [] \<Longrightarrow> batch_num_rows b \<le> length out \<Longrightarrow>
    agrees (collect_results (\<lambda>r. eval_row (env_lib env) (row_of b r) p) [0..<batch_num_rows b])
      (eval_expression env b p sel out)"
proof (induction p arbitrary: out rule: case_outermost.induct)
  case (1 idx t)
  then show ?case using eval_column_agrees [OF wf, of sel idx] sel by simp
next
  case (2 v)
  have "selection_len sel = batch_num_rows b" using sel by (metis length_selection_rows length_upt minus_nat.diff_0)
  with 2 show ?case by (simp add: eval_literal_def agrees_def map_replicate_const)
next
  case (3 f inputs)
  have "agrees (collect_results (\<lambda>r. eval_row (env_lib env) (row_of b r) p) [0..<batch_num_rows b])
      (eval_expression env b p sel (reset_array env))" if "p \<in> set inputs" for p
    using 3 that size by (simp add: list_all_iff reset_array_def)
  moreover have "selection_len sel = batch_num_rows b" using sel by (metis length_selection_rows length_upt minus_nat.diff_0)
  ultimately show ?case
    using eval_inputs_agree [of inputs "\<lambda>p r. eval_row (env_lib env) (row_of b r) p" "[0..<batch_num_rows b]"
        "\<lambda>p. eval_expression env b p sel (reset_array env)" out "call_execute (env_lib env) f"] 3(5) by simp
next
  case (4 op f inputs)
  have "agrees (collect_results (\<lambda>r. eval_row (env_lib env) (row_of b r) p) [0..<batch_num_rows b])
      (eval_expression env b p sel (reset_array env))" if "p \<in> set inputs" for p
    using 4 that size by (simp add: list_all_iff reset_array_def)
  moreover have "selection_len sel = batch_num_rows b" using sel by (metis length_selection_rows length_upt minus_nat.diff_0)
  ultimately show ?case
    using eval_inputs_agree [of inputs "\<lambda>p r. eval_row (env_lib env) (row_of b r) p" "[0..<batch_num_rows b]"
        "\<lambda>p. eval_expression env b p sel (reset_array env)" out "execute_boolean op"] 4(5) by simp
next
  case (5 to e c)
  have "agrees (collect_results (\<lambda>r. eval_row (env_lib env) (row_of b r) e) [0..<batch_num_rows b])
      (eval_expression env b e sel (reset_array env))"
    using 5 size by (simp add: reset_array_def)
  moreover have "selection_len sel = batch_num_rows b" using sel by (metis length_selection_rows length_upt minus_nat.diff_0)
  ultimately show ?case
    using eval_inputs_agree [of "[e]" "\<lambda>p r. eval_row (env_lib env) (row_of b r) p" "[0..<batch_num_rows b]"
        "\<lambda>p. eval_expression env b p sel (reset_array env)" out "\<lambda>row. lib_cast (env_lib env) c to (hd row)"] 5(5)
    by (simp add: bind_result_assoc)
next
  case (6 cases else_expr t)
  then show ?case using eval_case_agrees [OF wf size _ _ _ sel, of cases else_expr t out] by simp
qed


section \<open>Properties\<close>

text \<open>
  The rows of an AND evaluated one input at a time: a row is dropped at the first input that is
  not true, and the inputs after that are not evaluated for it.
\<close>

fun and_row :: "('p \<Rightarrow> scalar_value result) \<Rightarrow> 'p list \<Rightarrow> bool result" where
  "and_row ev [] = Inr True"
| "and_row ev (p # ps) =
     bind_result (ev p) (\<lambda>v. bind_result (as_boolean v) (\<lambda>x.
       if x = Some True then and_row ev ps else Inr False))"

lemma and_row_step:
  assumes "bind_result (ev p) as_boolean = Inr y"
  shows "and_row ev (p # ps) = (if ev p = Inr (SvBoolean True) then and_row ev ps else Inr False)"
proof -
  obtain v where v: "ev p = Inr v" "as_boolean v = Inr y" using assms by (auto simp: bind_result_eq_Inr)
  then show ?thesis using as_boolean_true [of v] by auto
qed

lemma and_row_fail:
  "bind_result (ev p) as_boolean = Inl e \<Longrightarrow> and_row ev (p # ps) = Inl e"
  by (cases "ev p") auto

lemma select_and_Cons:
  "select_and env b (p # ps) rows =
     bind_result (bind_result (eval_expression env b p (SelSlice rows) (reset_array env)) (\<lambda>a. select_rows a (length rows)))
       (\<lambda>(trues, falses). if map ((!) rows) trues = [] then Inr [] else select_and env b ps (map ((!) rows) trues))"
  by (simp add: bind_result_assoc Let_def case_prod_beta cong: if_cong)

lemma select_and_rows:
  assumes wf: "batch_wf b" and size: "0 < env_batch_size env"
  shows "list_all (\<lambda>p. case_free p \<and> columns_below (length (batch_columns b)) p) ps \<Longrightarrow>
    \<forall>r \<in> set rows. r < batch_num_rows b \<Longrightarrow> length rows \<le> env_batch_size env \<Longrightarrow>
    (case collect_results (\<lambda>r. and_row (eval_row (env_lib env) (row_of b r)) ps) rows of
       Inr keep \<Rightarrow> select_and env b ps rows =
         Inr (filter (\<lambda>r. and_row (eval_row (env_lib env) (row_of b r)) ps = Inr True) rows)
     | Inl _ \<Rightarrow> \<exists>e. select_and env b ps rows = Inl e)"
proof (induction ps arbitrary: rows)
  case (Cons p ps)
  let ?ev = "\<lambda>r. eval_row (env_lib env) (row_of b r)"
  let ?t = "\<lambda>r. ?ev r p = Inr (SvBoolean True)"
  have "agrees (collect_results (\<lambda>r. ?ev r p) rows) (eval_expression env b p (SelSlice rows) (reset_array env))"
    using eval_case_free_agrees [OF wf size, of p "SelSlice rows" "reset_array env"] Cons.prems size
    by (simp add: reset_array_def)
  then show ?case
  proof (cases rule: select_agrees)
    case (fail x e)
    then have "and_row (?ev x) (p # ps) = Inl e" by (intro and_row_fail)
    then obtain e' where "collect_results (\<lambda>r. and_row (?ev r) (p # ps)) rows = Inl e'"
      using fail(1) collect_results_Inl [of "\<lambda>r. and_row (?ev r) (p # ps)" rows] by blast
    then show ?thesis using fail(3) unfolding select_and_Cons by auto
  next
    case ok
    have spec: "and_row (?ev r) (p # ps) = (if ?t r then and_row (?ev r) ps else Inr False)" if "r \<in> set rows" for r
      using ok(1) [OF that] and_row_step [of "?ev r" p] by blast
    have run: "select_and env b (p # ps) rows =
        (if filter ?t rows = [] then Inr [] else select_and env b ps (filter ?t rows))"
      unfolding select_and_Cons ok(2) bind_result_simps prod.case nth_filter_rows [of rows ?t] by (rule refl)
    have IH: "case collect_results (\<lambda>r. and_row (?ev r) ps) (filter ?t rows) of
        Inr keep \<Rightarrow> select_and env b ps (filter ?t rows) = Inr (filter (\<lambda>r. and_row (?ev r) ps = Inr True) (filter ?t rows))
      | Inl _ \<Rightarrow> \<exists>e. select_and env b ps (filter ?t rows) = Inl e"
      using Cons.prems le_trans [OF length_filter_le] by (intro Cons.IH) auto
    show ?thesis
    proof (cases "collect_results (\<lambda>r. and_row (?ev r) (p # ps)) rows")
      case (Inl e)
      then obtain r e' where r: "r \<in> set rows" "and_row (?ev r) (p # ps) = Inl e'"
        using collect_results_Inl [of "\<lambda>r. and_row (?ev r) (p # ps)" rows] by blast
      then have t: "?t r" "and_row (?ev r) ps = Inl e'" using spec [OF r(1)] by (auto split: if_splits)
      then have "r \<in> set (filter ?t rows)" using r(1) by simp
      then obtain e'' where "collect_results (\<lambda>r. and_row (?ev r) ps) (filter ?t rows) = Inl e''"
        using t(2) collect_results_Inl [of "\<lambda>r. and_row (?ev r) ps" "filter ?t rows"] by blast
      then show ?thesis using IH Inl run \<open>r \<in> set (filter ?t rows)\<close> by (auto simp del: set_filter select_and.simps)
    next
      case (Inr keep)
      have "\<exists>v. and_row (?ev r) ps = Inr v" if "r \<in> set (filter ?t rows)" for r
        using that spec [of r] Inr collect_results_Inl [of "\<lambda>r. and_row (?ev r) (p # ps)" rows]
        by (cases "and_row (?ev r) ps") auto
      then obtain k where "collect_results (\<lambda>r. and_row (?ev r) ps) (filter ?t rows) = Inr k"
        using collect_results_Inl [of "\<lambda>r. and_row (?ev r) ps" "filter ?t rows"]
        by (cases "collect_results (\<lambda>r. and_row (?ev r) ps) (filter ?t rows)") force+
      moreover have "filter (\<lambda>r. and_row (?ev r) ps = Inr True) (filter ?t rows) =
          filter (\<lambda>r. and_row (?ev r) (p # ps) = Inr True) rows"
        unfolding filter_filter using spec by (intro filter_cong) auto
      ultimately show ?thesis using IH Inr run
        by (simp del: select_and.simps and_row.simps filter_filter) (metis filter.simps(1))
    qed
  qed
qed (simp add: collect_results_Inr)


text \<open>Evaluating several expressions: a row of the result has the values of that row.\<close>

lemma eval_columns_rows:
  assumes ag: "\<And>p. p \<in> set ps \<Longrightarrow> agrees (collect_results (row p) rows) (ev p)"
  shows "case collect_results (\<lambda>r. collect_results (\<lambda>p. row p r) ps) rows of
      Inr vss \<Rightarrow> \<exists>cols. collect_results ev ps = Inr cols \<and>
        vss = map (\<lambda>i. map (\<lambda>col. col ! i) cols) [0..<length rows]
    | Inl _ \<Rightarrow> \<exists>e. collect_results ev ps = Inl e"
proof (cases "\<exists>p \<in> set ps. \<exists>e. ev p = Inl e")
  case True
  then obtain p where p: "p \<in> set ps" "\<exists>e. ev p = Inl e" by blast
  from ag [OF p(1)] obtain r e where "r \<in> set rows" "row p r = Inl e"
    by (cases rule: agrees_cases) (use p(2) in auto)
  then have "\<exists>r \<in> set rows. \<exists>e. collect_results (\<lambda>p. row p r) ps = Inl e"
    using p(1) collect_results_Inl [of "\<lambda>p. row p r" ps] by blast
  then have "\<exists>e. collect_results (\<lambda>r. collect_results (\<lambda>p. row p r) ps) rows = Inl e"
    unfolding collect_results_Inl [of "\<lambda>r. collect_results (\<lambda>p. row p r) ps" rows] .
  moreover have "\<exists>e. collect_results ev ps = Inl e" using True unfolding collect_results_Inl .
  ultimately show ?thesis by auto
next
  case False
  then have "\<forall>p \<in> set ps. \<exists>col. ev p = Inr col \<and> (\<forall>i < length rows. row p (rows ! i) = Inr (col ! i))"
    using ag by (metis agrees_cases)
  then obtain col where col: "\<And>p. p \<in> set ps \<Longrightarrow> ev p = Inr (col p)"
      "\<And>p i. p \<in> set ps \<Longrightarrow> i < length rows \<Longrightarrow> row p (rows ! i) = Inr (col p ! i)" by metis
  have ev: "collect_results ev ps = Inr (map col ps)"
    using col(1) collect_results_cong [of ps ps ev "\<lambda>p. Inr (col p)"] by (simp add: collect_results_Inr)
  have "collect_results (\<lambda>r. collect_results (\<lambda>p. row p r) ps) rows =
      collect_results (\<lambda>i. collect_results (\<lambda>p. row p (rows ! i)) ps) [0..<length rows]"
    using collect_results_map [of "\<lambda>r. collect_results (\<lambda>p. row p r) ps" "(!) rows" "[0..<length rows]"]
    by (simp add: map_nth)
  also have "\<dots> = collect_results (\<lambda>i. Inr (map (\<lambda>c. c ! i) (map col ps))) [0..<length rows]"
  proof (rule collect_results_cong [OF refl])
    fix i assume "i \<in> set [0..<length rows]"
    then have "collect_results (\<lambda>p. row p (rows ! i)) ps = collect_results (\<lambda>p. Inr (col p ! i)) ps"
      by (intro collect_results_cong) (simp_all add: col(2))
    then show "collect_results (\<lambda>p. row p (rows ! i)) ps = Inr (map (\<lambda>c. c ! i) (map col ps))"
      by (simp add: collect_results_Inr comp_def)
  qed
  finally show ?thesis using ev by (simp add: collect_results_Inr)
qed

definition identity_library :: function_library where
  "identity_library = \<lparr>lib_cast_sets = [],
     lib_execute = (\<lambda>f vs. if vs = [] then Inl (DbError ''No input'') else Inr (hd vs)),
     lib_cast = (\<lambda>c to v. Inr v), lib_escape = bracket_escape, lib_regex_new = bracket_new\<rparr>"

definition identity_env :: eval_env where
  "identity_env = \<lparr>env_lib = identity_library, env_batch_size = 4, env_stale = SvNull\<rparr>"

definition boolean_batch :: batch where
  "boolean_batch = \<lparr>batch_columns = [[SvBoolean True, SvBoolean False], [SvBoolean False, SvNull]], batch_num_rows = 2\<rparr>"

text \<open>
  C10. Evaluating expressions on a batch computes them row by row: when no CASE stands inside another
  CASE, the batch has one row per input row, which holds the values of the
  expressions on that input row, and the evaluation fails exactly when some expression fails on
  some row.
\<close>

theorem eval_batch_computes_rows:
  assumes "batch_wf b" and "0 < env_batch_size env" and "batch_num_rows b \<le> env_batch_size env"
    and "list_all case_outermost exprs" and "list_all (columns_below (length (batch_columns b))) exprs"
  shows "case collect_results (\<lambda>r. collect_results (eval_row (env_lib env) (row_of b r)) exprs) [0..<batch_num_rows b] of
      Inr vss \<Rightarrow> \<exists>b'. eval_batch env exprs b (batch_selection b) = Inr b' \<and>
        batch_num_rows b' = batch_num_rows b \<and> map (row_of b') [0..<batch_num_rows b] = vss
    | Inl _ \<Rightarrow> \<exists>e. eval_batch env exprs b (batch_selection b) = Inl e"
proof -
  let ?ev = "\<lambda>p. eval_expression env b p (batch_selection b) (reset_array env)"
  let ?rows = "collect_results (\<lambda>r. collect_results (\<lambda>p. eval_row (env_lib env) (row_of b r) p) exprs) [0..<batch_num_rows b]"
  have "agrees (collect_results (\<lambda>r. eval_row (env_lib env) (row_of b r) p) [0..<batch_num_rows b]) (?ev p)"
    if "p \<in> set exprs" for p
    using assms that by (intro eval_outermost_agrees) (auto simp: list_all_iff batch_selection_def reset_array_def)
  then have "case ?rows of
      Inr vss \<Rightarrow> \<exists>cols. collect_results ?ev exprs = Inr cols \<and>
        vss = map (\<lambda>i. map (\<lambda>col. col ! i) cols) [0..<length [0..<batch_num_rows b]]
    | Inl _ \<Rightarrow> \<exists>e. collect_results ?ev exprs = Inl e"
    by (rule eval_columns_rows)
  then show ?thesis
    by (cases ?rows) (auto simp: eval_batch_def batch_selection_def row_of_def)
qed

theorem eval_batch_computes_rows_witness:
  "\<exists>b'. eval_batch identity_env [PhysCase [WhenThen (PhysColumn 0 boolean_type) (PhysColumn 1 boolean_type)]
        (PhysLiteral (SvBoolean True)) boolean_type] boolean_batch (batch_selection boolean_batch) = Inr b' \<and>
     batch_num_rows b' = 2 \<and> map (row_of b') [0..<2] = [[SvBoolean False], [SvBoolean True]]"
  using eval_batch_computes_rows [of boolean_batch identity_env
      "[PhysCase [WhenThen (PhysColumn 0 boolean_type) (PhysColumn 1 boolean_type)]
        (PhysLiteral (SvBoolean True)) boolean_type]"]
  by (simp add: boolean_batch_def identity_env_def batch_wf_def row_of_def upt_rec numeral_2_eq_2)

text \<open>
  C11. Filtering with a top-level AND whose inputs contain no CASE: the rows selected by narrowing the selection input by input
  are those on which every input is true, in order, where a row is not looked at again after an
  input that is false or NULL for it; and it fails exactly when an input that is looked at fails.
\<close>

theorem selection_select_and:
  assumes "batch_wf b" and "0 < env_batch_size env" and "batch_num_rows b \<le> env_batch_size env"
    and "list_all (\<lambda>p. case_free p \<and> columns_below (length (batch_columns b)) p) inputs"
  shows "case collect_results (\<lambda>r. and_row (eval_row (env_lib env) (row_of b r)) inputs) [0..<batch_num_rows b] of
      Inr keep \<Rightarrow> selection_select env (PhysConjunction ConjAnd f inputs) b =
        Inr (filter (\<lambda>r. and_row (eval_row (env_lib env) (row_of b r)) inputs = Inr True) [0..<batch_num_rows b])
    | Inl _ \<Rightarrow> \<exists>e. selection_select env (PhysConjunction ConjAnd f inputs) b = Inl e"
proof -
  have *: "selection_select env (PhysConjunction ConjAnd f inputs) b = select_and env b inputs [0..<batch_num_rows b]"
    by (simp add: selection_select_def batch_selection_def selection_collect_rows)
  show ?thesis unfolding * using assms by (intro select_and_rows) simp_all
qed

theorem selection_select_and_witness:
  "selection_select identity_env (PhysConjunction ConjAnd (boolean_function ConjAnd)
       [PhysColumn 0 boolean_type, PhysLiteral (SvBoolean True)]) boolean_batch = Inr [0]"
  using selection_select_and [of boolean_batch identity_env "[PhysColumn 0 boolean_type, PhysLiteral (SvBoolean True)]"
      "boolean_function ConjAnd"]
  by (simp add: boolean_batch_def identity_env_def batch_wf_def row_of_def upt_rec numeral_2_eq_2)



end
