(* ===== verification/Semantics.thy ===== *)
theory Semantics
  imports Physical
begin

text \<open>
  The value of a logical expression on a row, and that planning keeps it.

  \<open>sem\<close> is the specification the optimizer rules and the planner are judged by. A column has the
  value the row gives it; an operator has the value of the function its inputs select from the
  operator's set, on the inputs that binding this function returns; AND, OR, CASE and the string
  functions are the modelled ones, and the rest of the function library is a parameter of which
  nothing is assumed.
  \<open>plan_scalar_sem\<close> shows that a planned expression, evaluated on the row that concatenates the
  tuples of the input tables, has the value of the logical expression; \<open>plan_scalar_depth\<close> that the
  planner's result does not depend on its depth bound once that exceeds \<open>sem_measure\<close>; \<open>try_eval_constant_row\<close>
  that evaluating a constant gives its value, CASE included at any depth.
\<close>

section \<open>Row semantics\<close>

record row_semantics =
  rs_column :: "column_reference \<Rightarrow> scalar_value result"
  rs_lib :: function_library

definition is_operator :: "expression \<Rightarrow> bool" where
  "is_operator e = (case e of Comparison _ _ _ \<Rightarrow> True | Arith _ _ _ _ \<Rightarrow> True | Negate _ _ \<Rightarrow> True | _ \<Rightarrow> False)"

text \<open>Binding an operator may put a cast around an input, so an operator counts for more than its size.\<close>

definition sem_measure :: "expression \<Rightarrow> nat" where
  "sem_measure e = 2 * size e + (if is_operator e then 1 else 0)"

lemma sem_measure_child: "c \<in> set (children e) \<Longrightarrow> sem_measure c < sem_measure e"
  using children_size [of c e] by (auto simp: sem_measure_def)

lemma sem_measure_bound: "bound_input sets e e' \<Longrightarrow> sem_measure e' \<le> 2 * size e + 2"
  by (auto simp: bound_input_def sem_measure_def is_operator_def dest!: cast_shape)

lemma sem_measure_operands:
  assumes "bind_operator sets fns name [l, r] = Inr (f, inputs)" and "x \<in> set inputs"
  shows "sem_measure x < 2 * (size l + size r + 1) + 1"
  using bind_operator_inputs [OF assms(1)] assms(2)
  by (auto simp: bound_pair_def dest!: sem_measure_bound)

function sem :: "row_semantics \<Rightarrow> expression \<Rightarrow> scalar_value result" where
  "sem rs e =
     (case e of
        Column c \<Rightarrow> rs_column rs (reference c)
      | Literal v \<Rightarrow> Inr v
      | ScalarFunction f inputs \<Rightarrow> bind_result (collect_results (sem rs) (children e)) (call_execute (rs_lib rs) f)
      | Cast to child c \<Rightarrow> bind_result (collect_results (sem rs) (children e)) (\<lambda>vs. lib_cast (rs_lib rs) c to (hd vs))
      | Comparison op l r \<Rightarrow>
          bind_result (bind_operator (lib_cast_sets (rs_lib rs)) comparison_functions (comparison_function_set op) [l, r])
            (\<lambda>(f, inputs). bind_result (collect_results (sem rs) inputs) (call_execute (rs_lib rs) f))
      | Arith op l r t \<Rightarrow>
          bind_result (bind_operator (lib_cast_sets (rs_lib rs)) (arith_functions op) (arith_function_set op) [l, r])
            (\<lambda>(f, inputs). bind_result (collect_results (sem rs) inputs) (call_execute (rs_lib rs) f))
      | Negate op child \<Rightarrow>
          bind_result (bind_operator (lib_cast_sets (rs_lib rs)) (negate_functions op) (negate_function_set op) [child])
            (\<lambda>(f, inputs). bind_result (collect_results (sem rs) inputs) (call_execute (rs_lib rs) f))
      | Conjunction op es \<Rightarrow>
          bind_result (collect_results (sem rs) (children e)) (\<lambda>vs.
            if length vs = 1 then Inr (hd vs) else execute_boolean op vs)
      | CaseE cases else_expr t \<Rightarrow> case_row (sem rs) cases else_expr
      | _ \<Rightarrow> Inl (DbError ''Unsupported scalar expression''))"
  by pat_completeness auto
termination
proof (relation "measure (\<lambda>(rs, e). sem_measure e)")
  fix rs :: row_semantics and e op child a f inputs x
  assume "e = Negate op child"
    "bind_operator (lib_cast_sets (rs_lib rs)) (negate_functions op) (negate_function_set op) [child] = Inr a"
    "(f, inputs) = a" "x \<in> set inputs"
  then have "x \<in> set (children e)"
    by (auto dest: bind_negate_inputs)
  then show "((rs, x), rs, e) \<in> measure (\<lambda>(rs, e). sem_measure e)" by (simp add: sem_measure_child)
next
  fix rs :: row_semantics and e cases else_expr t c
  assume e: "e = CaseE cases else_expr t"
  then show "((rs, else_expr), rs, e) \<in> measure (\<lambda>(rs, e). sem_measure e)"
    using sem_measure_child [of else_expr e] by simp
  assume "c \<in> set cases"
  then have "wt_when c \<in> set (children e)" "wt_then c \<in> set (children e)" using e by auto
  then show "((rs, wt_when c), rs, e) \<in> measure (\<lambda>(rs, e). sem_measure e)"
    "((rs, wt_then c), rs, e) \<in> measure (\<lambda>(rs, e). sem_measure e)"
    by (auto dest: sem_measure_child)
qed (auto intro: sem_measure_child dest!: sem_measure_operands simp: sem_measure_def [of "Comparison _ _ _"]
    sem_measure_def [of "Arith _ _ _ _"] is_operator_def)

declare sem.simps [simp del]

text \<open>The value of an operator.\<close>

definition operator_sem :: "row_semantics \<Rightarrow> scalar_functions \<Rightarrow> string \<Rightarrow> expression list \<Rightarrow> scalar_value result" where
  "operator_sem rs fns name es =
     bind_result (bind_operator (lib_cast_sets (rs_lib rs)) fns name es)
       (\<lambda>(f, inputs). bind_result (collect_results (sem rs) inputs) (call_execute (rs_lib rs) f))"

lemma sem_simps [simp]:
  "sem rs (Column c) = rs_column rs (reference c)"
  "sem rs (Literal v) = Inr v"
  "sem rs (ScalarFunction f inputs) = bind_result (collect_results (sem rs) inputs) (call_execute (rs_lib rs) f)"
  "sem rs (Cast to child cf) = bind_result (sem rs child) (lib_cast (rs_lib rs) cf to)"
  "sem rs (Comparison op l r) = operator_sem rs comparison_functions (comparison_function_set op) [l, r]"
  "sem rs (Arith aop l r t) = operator_sem rs (arith_functions aop) (arith_function_set aop) [l, r]"
  "sem rs (Negate nop child) = operator_sem rs (negate_functions nop) (negate_function_set nop) [child]"
  "sem rs (Conjunction cop es) = bind_result (collect_results (sem rs) es) (\<lambda>vs.
     if length vs = 1 then Inr (hd vs) else execute_boolean cop vs)"
  "sem rs (CaseE cases else_expr t) = case_row (sem rs) cases else_expr"
  by (subst sem.simps; simp add: bind_result_assoc operator_sem_def)+

lemma sem_single_conjunction: "sem rs (Conjunction op [e]) = sem rs e"
  by (cases "sem rs e") simp_all

text \<open>The depth that the planner needs: every call is on an expression of a smaller measure.\<close>

lemma plan_scalar_Suc:
  "sem_measure e < d \<Longrightarrow> plan_scalar (Suc d) lib tabs refs e = plan_scalar d lib tabs refs e"
proof (induction d arbitrary: e)
  case (Suc d)
  define P Q where "P = plan_scalar (Suc d) lib tabs refs" and "Q = plan_scalar d lib tabs refs"
  note steps = plan_scalar.simps(2) [of "Suc d" lib tabs refs e, folded P_def] plan_scalar.simps(2) [of d lib tabs refs e, folded Q_def]
  have less: "P x = Q x" if "sem_measure x < sem_measure e" for x
    using Suc.IH [of x] that Suc.prems by (simp add: P_def Q_def del: plan_scalar.simps)
  then have child: "P c = Q c" if "c \<in> set (children e)" for c
    using sem_measure_child [OF that] by simp
  have operands: "collect_results P inputs = collect_results Q inputs"
    if "bind_operator sets fns name [l, r] = Inr (f, inputs)" "2 * (size l + size r + 1) + 1 \<le> sem_measure e"
    for sets fns name l r f inputs
    using sem_measure_operands [OF that(1)] that(2) by (intro collect_results_cong less) (fastforce intro: less_le_trans)+
  show ?case
  proof (cases e)
    case (Comparison op l r)
    then show ?thesis unfolding steps
      by (auto simp: Let_def is_operator_def sem_measure_def intro!: bind_result_cong dest!: operands)
  next
    case (Arith op l r t)
    then show ?thesis unfolding steps
      by (auto simp: Let_def is_operator_def sem_measure_def intro!: bind_result_cong dest!: operands)
  next
    case (Negate op x)
    then show ?thesis unfolding steps using child
      by (auto simp: Let_def intro!: bind_result_cong collect_results_cong dest!: bind_negate_inputs)
  next
    case (Conjunction op es)
    then show ?thesis unfolding steps using child
      by (auto simp: Let_def intro!: bind_result_cong collect_results_cong dest!: bind_boolean_inputs)
  qed (unfold steps, use child in \<open>auto simp: Let_def intro!: bind_result_cong collect_results_cong\<close>)
qed simp

lemma plan_scalar_depth:
  assumes "sem_measure e < d"
  shows "plan_scalar d lib tabs refs e = plan_scalar (Suc (sem_measure e)) lib tabs refs e"
proof -
  have "plan_scalar (Suc (sem_measure e) + k) lib tabs refs e = plan_scalar (Suc (sem_measure e)) lib tabs refs e" for k
    by (induction k) (simp_all add: plan_scalar_Suc del: plan_scalar.simps)
  then show ?thesis using assms by (metis Suc_leI le_add_diff_inverse)
qed

section \<open>Refinement of expressions\<close>

text \<open>
  An expression refines another if it has the same type, and the same value on the row wherever the
  other has one.
\<close>

definition refines :: "row_semantics \<Rightarrow> expression \<Rightarrow> expression \<Rightarrow> bool" where
  "refines rs e e' \<longleftrightarrow> expr_datatype e' = expr_datatype e \<and> (\<forall>v. sem rs e = Inr v \<longrightarrow> sem rs e' = Inr v)"

text \<open>
  Binding a decimal operator looks through a cast at an input. For its value to be kept, a cast must
  stay a cast to the same type with the same function, and nothing else may become one.
\<close>

definition same_cast :: "row_semantics \<Rightarrow> expression \<Rightarrow> expression \<Rightarrow> bool" where
  "same_cast rs e e' \<longleftrightarrow>
     (case e of
        Cast t x f \<Rightarrow> \<exists>x'. e' = Cast t x' f \<and> refines rs x x'
      | _ \<Rightarrow> \<forall>t x f. e' \<noteq> Cast t x f)"

definition keeps :: "row_semantics \<Rightarrow> expression \<Rightarrow> expression \<Rightarrow> bool" where
  "keeps rs e e' \<longleftrightarrow> refines rs e e' \<and> same_cast rs e e'"

lemma refines_refl [simp]: "refines rs e e"
  by (simp add: refines_def)

lemma refines_trans: "refines rs e e1 \<Longrightarrow> refines rs e1 e2 \<Longrightarrow> refines rs e e2"
  by (simp add: refines_def)

lemma keeps_refl [simp]: "keeps rs e e"
  by (simp add: keeps_def same_cast_def split: expression.split)

lemma keeps_trans: "keeps rs e e1 \<Longrightarrow> keeps rs e1 e2 \<Longrightarrow> keeps rs e e2"
  by (cases e) (auto simp: keeps_def same_cast_def split: expression.splits intro: refines_trans)

lemma keeps_refines: "keeps rs e e' \<Longrightarrow> refines rs e e'"
  by (simp add: keeps_def)

lemma refines_value: "refines rs e e' \<Longrightarrow> sem rs e = Inr v \<Longrightarrow> sem rs e' = Inr v"
  by (simp add: refines_def)

lemma refines_type: "refines rs e e' \<Longrightarrow> expr_datatype e' = expr_datatype e"
  by (simp add: refines_def)

subsection \<open>Operators\<close>

definition value_kept :: "row_semantics \<Rightarrow> expression \<Rightarrow> expression \<Rightarrow> bool" where
  "value_kept rs e e' \<longleftrightarrow> (\<forall>v. sem rs e = Inr v \<longrightarrow> sem rs e' = Inr v)"

lemma collect_value_kept:
  "list_all2 (value_kept rs) xs ys \<Longrightarrow> collect_results (sem rs) xs = Inr vs \<Longrightarrow> collect_results (sem rs) ys = Inr vs"
  by (induction xs ys arbitrary: vs rule: list_all2_induct) (auto simp: value_kept_def bind_result_eq_Inr)

lemma cast_refined:
  assumes "new_using_default_casts sets e to = Inr x" and "keeps rs e e'"
  shows "\<exists>x'. new_using_default_casts sets e' to = Inr x' \<and> value_kept rs x x'"
proof -
  have r: "refines rs e e'" "same_cast rs e e'" using assms(2) by (simp_all add: keeps_def)
  have wrap: "\<exists>x'. wrap_cast s f src d' to = Inr x' \<and> value_kept rs y x'"
    if "wrap_cast s f src d to = Inr y" "refines rs d d'" for s f src d d' y
    using that by (auto simp: wrap_cast_def bind_result_eq_Inr value_kept_def refines_def)
  have uncond: "\<exists>x'. cast_unconditionally s e' to = Inr x' \<and> value_kept rs y x'"
    if u: "cast_unconditionally s e to = Inr y" for s y
  proof -
    obtain src f where "expr_datatype e = Inr src" "find_cast_function s (type_id src) = Some f" "wrap_cast s f src e to = Inr y"
      using u by (auto simp: cast_unconditionally_def bind_result_eq_Inr split: option.split_asm)
    then show ?thesis using wrap [OF _ r(1)] refines_type [OF r(1)] by (simp add: cast_unconditionally_def)
  qed
  obtain s where s: "find_cast_function_set sets (type_id to) = Some s"
    using assms(1) by (auto simp: new_using_default_casts_def split: option.splits)
  show ?thesis
  proof (cases "\<exists>t y f. e = Cast t y f")
    case True
    then obtain t y f where e: "e = Cast t y f" by blast
    then obtain y' where e': "e' = Cast t y' f" "refines rs y y'" using r(2) by (auto simp: same_cast_def)
    obtain src where src: "expr_datatype y = Inr src"
      using assms(1) s unfolding e by (auto simp: new_using_default_casts_def bind_result_eq_Inr)
    have same: "expr_datatype y' = Inr src" using src refines_type [OF e'(2)] by simp
    show ?thesis
    proof (cases "find_cast_function s (type_id src)")
      case None
      then show ?thesis
        using assms(1) s src same uncond unfolding e e'(1) by (simp add: new_using_default_casts_def)
    next
      case (Some g)
      then show ?thesis
        using assms(1) s src same uncond wrap [OF _ e'(2)] unfolding e e'(1)
        by (cases "cf_flatten g = FlattenSafe") (simp_all add: new_using_default_casts_def)
    qed
  next
    case False
    then have "\<forall>t y f. e' \<noteq> Cast t y f" using r(2) by (cases e) (auto simp: same_cast_def)
    then have "new_using_default_casts sets e' to = cast_unconditionally s e' to"
      using s by (cases e') (auto simp: new_using_default_casts_def)
    moreover have "new_using_default_casts sets e to = cast_unconditionally s e to"
      using s False by (cases e) (auto simp: new_using_default_casts_def)
    ultimately show ?thesis using uncond assms(1) by simp
  qed
qed

lemma cast_inputs_refined:
  assumes "cast_inputs cast l l_to r r_to ret = Inr (t, inputs)"
    and "\<And>e e' to x. keeps rs e e' \<Longrightarrow> cast e to = Inr x \<Longrightarrow> \<exists>x'. cast e' to = Inr x' \<and> value_kept rs x x'"
    and "keeps rs l l'" and "keeps rs r r'"
  shows "\<exists>inputs'. cast_inputs cast l' l_to r' r_to ret = Inr (t, inputs') \<and> list_all2 (value_kept rs) inputs inputs'"
proof -
  have one: "\<exists>x'. (case to of Some t \<Rightarrow> cast e' t | None \<Rightarrow> Inr e') = Inr x' \<and> value_kept rs x x'"
    if "(case to of Some t \<Rightarrow> cast e t | None \<Rightarrow> Inr e) = Inr x" "keeps rs e e'" for e e' to x
    using that assms(2) by (cases to) (auto simp: keeps_def refines_def value_kept_def)
  obtain x y where xy: "(case l_to of Some t \<Rightarrow> cast l t | None \<Rightarrow> Inr l) = Inr x"
      "(case r_to of Some t \<Rightarrow> cast r t | None \<Rightarrow> Inr r) = Inr y" "t = ret" "inputs = [x, y]"
    using assms(1) by (auto simp: cast_inputs_def bind_result_eq_Inr)
  then show ?thesis
    using one [OF xy(1) assms(3)] one [OF xy(2) assms(4)] by (auto simp: cast_inputs_def)
qed

lemma inserts_casts_refined:
  assumes "bind l r = Inr (t, inputs)" and "inserts_casts cast bind l r"
    and "\<And>e e' to x. keeps rs e e' \<Longrightarrow> cast e to = Inr x \<Longrightarrow> \<exists>x'. cast e' to = Inr x' \<and> value_kept rs x x'"
    and k: "keeps rs l l'" "keeps rs r r'"
  shows "\<exists>inputs'. bind l' r' = Inr (t, inputs') \<and> list_all2 (value_kept rs) inputs inputs'"
proof -
  note types = refines_type [OF keeps_refines [OF k(1)]] refines_type [OF keeps_refines [OF k(2)]]
  obtain l_to r_to ret where "bind l r = cast_inputs cast l l_to r r_to ret" "bind l' r' = cast_inputs cast l' l_to r' r_to ret"
    using assms(2) types unfolding inserts_casts_def by metis
  then show ?thesis using cast_inputs_refined [OF _ assms(3) k] assms(1) by simp
qed

lemma impl_bind_refined:
  assumes bind: "impl_bind sets impl [l, r] = Inr (t, inputs)" and k: "keeps rs l l'" "keeps rs r r'"
  shows "\<exists>inputs'. impl_bind sets impl [l', r'] = Inr (t, inputs') \<and> list_all2 (value_kept rs) inputs inputs'"
proof -
  have cast: "\<exists>x'. new_using_default_casts sets e' to = Inr x' \<and> value_kept rs x x'"
    if "keeps rs e e'" "new_using_default_casts sets e to = Inr x" for e e' to x
    using cast_refined that by blast
  then have unwrap_cast: "\<exists>x'. unwrap (new_using_default_casts sets e' to) = Inr x' \<and> value_kept rs x x'"
    if "keeps rs e e'" "unwrap (new_using_default_casts sets e to) = Inr x" for e e' to x
    using that by simp
  show ?thesis
  proof (cases impl)
    case (FlatImpl x)
    then show ?thesis using bind k by (auto simp: keeps_def refines_def value_kept_def)
  next
    case (DecimalComparisonImpl d)
    then have "decimal_bind sets d l r = Inr (t, inputs)" using bind by (simp add: pop_two_def)
    from inserts_casts_refined [where bind = "decimal_bind sets d", OF this decimal_bind_casts [OF this] cast k]
    show ?thesis using DecimalComparisonImpl by (simp add: pop_two_def)
  next
    case (DecimalAddImpl d)
    let ?b = "decimal_add_sub_bind (\<lambda>e t. unwrap (new_using_default_casts sets e t)) d"
    have "?b l r = Inr (t, inputs)" using bind DecimalAddImpl by (simp add: pop_two_def decimal_add_bind_def)
    from inserts_casts_refined [where bind = ?b, OF this decimal_add_sub_bind_casts [OF this] unwrap_cast k]
    show ?thesis using DecimalAddImpl by (simp add: pop_two_def decimal_add_bind_def)
  next
    case (DecimalSubImpl d)
    let ?b = "decimal_add_sub_bind (new_using_default_casts sets) d"
    have "?b l r = Inr (t, inputs)" using bind DecimalSubImpl by (simp add: pop_two_def decimal_sub_bind_def)
    from inserts_casts_refined [where bind = ?b, OF this decimal_add_sub_bind_casts [OF this] cast k]
    show ?thesis using DecimalSubImpl by (simp add: pop_two_def decimal_sub_bind_def)
  next
    case (DecimalMulImpl d)
    then have "decimal_mul_bind sets d l r = Inr (t, inputs)" using bind by (simp add: pop_two_def)
    from inserts_casts_refined [where bind = "decimal_mul_bind sets d", OF this decimal_mul_bind_casts [OF this] cast k]
    show ?thesis using DecimalMulImpl by (simp add: pop_two_def)
  next
    case DivDecimalImpl
    then obtain x y where xy: "new_using_default_casts sets l (new_primitive Float64T) = Inr x"
        "new_using_default_casts sets r (new_primitive Float64T) = Inr y" "t = new_primitive Float64T" "inputs = [x, y]"
      using bind by (auto simp: pop_two_def div_decimal_bind_def bind_result_eq_Inr)
    then show ?thesis
      using cast [OF k(1) xy(1)] cast [OF k(2) xy(2)] DivDecimalImpl by (auto simp: pop_two_def div_decimal_bind_def)
  qed
qed

text \<open>An operator whose inputs the bound function takes as they are.\<close>

definition flat_operator :: "scalar_functions \<Rightarrow> string \<Rightarrow> expression list \<Rightarrow> bool" where
  "flat_operator fns name es \<longleftrightarrow> (case find_operator fns name es of Inr impl \<Rightarrow> is_flat impl | Inl _ \<Rightarrow> True)"

definition binds_flat :: "expression \<Rightarrow> bool" where
  "binds_flat e \<longleftrightarrow>
     (case e of
        Comparison op l r \<Rightarrow> flat_operator comparison_functions (comparison_function_set op) [l, r]
      | Arith op l r t \<Rightarrow> flat_operator (arith_functions op) (arith_function_set op) [l, r]
      | _ \<Rightarrow> True)"

lemma find_operator_types:
  "collect_results expr_datatype es' = collect_results expr_datatype es \<Longrightarrow> find_operator fns name es' = find_operator fns name es"
  by (simp add: find_operator_def)

lemma operator_sem_refined:
  assumes "operator_sem rs fns name [l, r] = Inr v"
    and "refines rs l l'" and "refines rs r r'"
    and "\<not> flat_operator fns name [l, r] \<Longrightarrow> same_cast rs l l' \<and> same_cast rs r r'"
  shows "operator_sem rs fns name [l', r'] = Inr v"
proof -
  let ?sets = "lib_cast_sets (rs_lib rs)"
  obtain impl t inputs vs where b: "find_operator fns name [l, r] = Inr impl" "impl_bind ?sets impl [l, r] = Inr (t, inputs)"
      "collect_results (sem rs) inputs = Inr vs"
      "call_execute (rs_lib rs) \<lparr>pf_name = name, pf_return_type = t, pf_volatility = Consistent\<rparr> vs = Inr v"
    using assms(1) by (auto simp: operator_sem_def bind_operator_def bind_result_eq_Inr)
  have find: "find_operator fns name [l', r'] = Inr impl"
    using b(1) find_operator_types [of "[l', r']" "[l, r]"] refines_type [OF assms(2)] refines_type [OF assms(3)] by simp
  have "\<exists>inputs'. impl_bind ?sets impl [l', r'] = Inr (t, inputs') \<and> list_all2 (value_kept rs) inputs inputs'"
  proof (cases "is_flat impl")
    case True
    then show ?thesis using b(2) assms(2,3) by (cases impl) (auto simp: value_kept_def refines_def)
  next
    case False
    then have "keeps rs l l'" "keeps rs r r'" using assms(2-4) b(1) by (simp_all add: keeps_def flat_operator_def)
    then show ?thesis by (rule impl_bind_refined [OF b(2)])
  qed
  then obtain inputs' where "impl_bind ?sets impl [l', r'] = Inr (t, inputs')" "list_all2 (value_kept rs) inputs inputs'"
    by blast
  then show ?thesis using collect_value_kept [OF _ b(3)] b(4) find by (simp add: operator_sem_def bind_operator_def)
qed

lemma negate_sem_refined:
  assumes "operator_sem rs (negate_functions op) name [c] = Inr v" and "refines rs c c'"
  shows "operator_sem rs (negate_functions op) name [c'] = Inr v"
proof -
  let ?sets = "lib_cast_sets (rs_lib rs)"
  obtain impl t inputs vs where b: "find_operator (negate_functions op) name [c] = Inr impl" "impl_bind ?sets impl [c] = Inr (t, inputs)"
      "collect_results (sem rs) inputs = Inr vs"
      "call_execute (rs_lib rs) \<lparr>pf_name = name, pf_return_type = t, pf_volatility = Consistent\<rparr> vs = Inr v"
    using assms(1) by (auto simp: operator_sem_def bind_operator_def bind_result_eq_Inr)
  have flat: "is_flat impl" using negate_functions_flat find_operator_in [OF b(1)] by blast
  have find: "find_operator (negate_functions op) name [c'] = Inr impl"
    using b(1) find_operator_types [of "[c']" "[c]"] refines_type [OF assms(2)] by simp
  show ?thesis using flat b find assms(2)
    by (cases impl) (auto simp: operator_sem_def bind_operator_def bind_result_eq_Inr refines_def)
qed

subsection \<open>Nodes\<close>

text \<open>A node with children that refine the old ones refines the old node.\<close>

lemma case_row_refines:
  assumes "\<And>x v. x \<in> X \<Longrightarrow> ev x = Inr v \<Longrightarrow> ev (g x) = Inr v"
    and "else_expr \<in> X" and "\<forall>c \<in> set cases. wt_when c \<in> X \<and> wt_then c \<in> X"
    and "case_row ev cases else_expr = Inr v"
  shows "case_row ev (map (\<lambda>c. WhenThen (g (wt_when c)) (g (wt_then c))) cases) (g else_expr) = Inr v"
  using assms(3,4)
proof (induction cases)
  case (Cons c cs)
  then obtain w x where "ev (wt_when c) = Inr w" "as_boolean w = Inr x"
      "(if x = Some True then ev (wt_then c) else case_row ev cs else_expr) = Inr v"
    by (auto simp: bind_result_eq_Inr)
  then show ?case using Cons assms(1) by (auto split: if_splits)
qed (use assms in simp)

lemma collect_results_refines:
  "(\<And>x v. x \<in> set xs \<Longrightarrow> f x = Inr v \<Longrightarrow> f (g x) = Inr v) \<Longrightarrow> collect_results f xs = Inr vs
    \<Longrightarrow> collect_results f (map g xs) = Inr vs"
  by (induction xs arbitrary: vs) (auto simp: bind_result_eq_Inr)

lemma type_map_children:
  "(\<And>c. c \<in> set (children e) \<Longrightarrow> expr_datatype (g c) = expr_datatype c) \<Longrightarrow> expr_datatype (map_children g e) = expr_datatype e"
  by (cases e rule: expr_datatype.cases) auto

lemma sem_map_children:
  assumes r: "\<And>c. c \<in> set (children e) \<Longrightarrow> refines rs c (g c)"
    and k: "\<And>c. \<not> binds_flat e \<Longrightarrow> c \<in> set (children e) \<Longrightarrow> same_cast rs c (g c)"
    and v: "sem rs e = Inr v"
  shows "sem rs (map_children g e) = Inr v"
proof (cases e)
  case (CaseE cases else_expr t)
  then show ?thesis
    using case_row_refines [of "set (children e)" "sem rs" g else_expr cases v] refines_value [OF r] v by auto
next
  case (ScalarFunction f inputs)
  then show ?thesis
    using v collect_results_refines [of inputs "sem rs" g] refines_value [OF r] by (auto simp: bind_result_eq_Inr)
next
  case (Conjunction op es)
  then show ?thesis
    using v collect_results_refines [of es "sem rs" g] refines_value [OF r] by (auto simp: bind_result_eq_Inr)
next
  case (Comparison op x y)
  then show ?thesis
    using v operator_sem_refined [of rs comparison_functions "comparison_function_set op" x y v "g x" "g y"] r [of x] r [of y]
      k [of x] k [of y] by (simp add: binds_flat_def)
next
  case (Arith op x y t)
  then show ?thesis
    using v operator_sem_refined [of rs "arith_functions op" "arith_function_set op" x y v "g x" "g y"] r [of x] r [of y]
      k [of x] k [of y] by (simp add: binds_flat_def)
next
  case (Negate op c)
  then show ?thesis using v negate_sem_refined [of rs op "negate_function_set op" c v "g c"] r [of c] by simp
next
  case (Cast t x f)
  then show ?thesis using v refines_value [OF r [of x]] by (auto simp: bind_result_eq_Inr)
qed (use v in \<open>auto simp: sem.simps [of _ "Subquery _ _ _"] sem.simps [of _ "Is _ _"]
    sem.simps [of _ "Between _ _ _"] sem.simps [of _ "Unnest _"] sem.simps [of _ "GroupingSet _"]
    sem.simps [of _ "Aggregate _ _ _ _"] sem.simps [of _ "Window _ _ _ _ _"]\<close>)

lemma refines_map_children:
  assumes "\<And>c. c \<in> set (children e) \<Longrightarrow> refines rs c (g c)"
    and "\<And>c. \<not> binds_flat e \<Longrightarrow> c \<in> set (children e) \<Longrightarrow> same_cast rs c (g c)"
  shows "refines rs e (map_children g e)"
  unfolding refines_def
  using sem_map_children [of e rs g] type_map_children [of e g] refines_type assms by blast

lemma same_cast_map_children:
  "(\<And>c. c \<in> set (children e) \<Longrightarrow> refines rs c (g c)) \<Longrightarrow> same_cast rs e (map_children g e)"
  by (cases e) (simp_all add: same_cast_def)

lemma keeps_map_children:
  "(\<And>c. c \<in> set (children e) \<Longrightarrow> keeps rs c (g c)) \<Longrightarrow> keeps rs e (map_children g e)"
  using refines_map_children [of e rs g] same_cast_map_children [of e rs g] by (simp add: keeps_def)

section \<open>Planning keeps the value\<close>

definition input_references :: "expression list \<Rightarrow> column_reference set" where
  "input_references inputs = (\<Union>e \<in> set inputs. set (get_column_references e))"

text \<open>The inputs that binding returns refer to no new column.\<close>

lemma bound_input_references: "bound_input sets e e' \<Longrightarrow> set (get_column_references e') \<subseteq> set (get_column_references e)"
  by (auto simp: bound_input_def get_column_references_node dest!: cast_shape)

lemma bound_operator_references:
  "bind_operator sets fns name [l, r] = Inr (f, inputs) \<Longrightarrow> input_references inputs \<subseteq> input_references [l, r]"
  using bound_input_references [of sets l] bound_input_references [of sets r]
  by (fastforce simp: bound_pair_def input_references_def dest: bind_operator_inputs)

text \<open>The tuples of the input tables, side by side.\<close>

definition tuples_fit :: "table_list \<Rightarrow> (table_ref \<Rightarrow> scalar_value list) \<Rightarrow> table_ref list \<Rightarrow> bool" where
  "tuples_fit tabs tup refs \<longleftrightarrow> (\<forall>r \<in> set refs. r < length tabs \<longrightarrow> length (tup r) = num_columns (tabs ! r))"

definition column_of :: "(table_ref \<Rightarrow> scalar_value list) \<Rightarrow> column_reference \<Rightarrow> scalar_value result" where
  "column_of tup c = vec_get (tup (table_scope c)) (column c)"

definition in_tuples :: "row_semantics \<Rightarrow> (table_ref \<Rightarrow> scalar_value list) \<Rightarrow> column_reference set \<Rightarrow> bool" where
  "in_tuples rs tup cols \<longleftrightarrow>
     (\<forall>c \<in> cols. column c < length (tup (table_scope c)) \<and> rs_column rs c = column_of tup c)"

lemma plan_column_row:
  assumes "plan_column tabs refs col (length pre) = Inr p" and "tuples_fit tabs tup refs"
    and "column (reference col) < length (tup (table_scope (reference col)))"
  shows "eval_row lib (pre @ concat (map tup refs)) p = column_of tup (reference col)"
  using assms
proof (induction refs arbitrary: pre)
  case (Cons r refs)
  then have r: "r < length tabs" by (auto simp: table_list_get_def split: if_splits)
  show ?case
  proof (cases "table_scope (reference col) = r")
    case True
    then have "p = PhysColumn (length pre + column (reference col)) (col_datatype col)"
      using Cons.prems(1) r by (simp add: table_list_get_def)
    then show ?thesis using True Cons.prems(3) by (simp add: column_of_def nth_append)
  next
    case False
    have "length (tup r) = num_columns (tabs ! r)" using Cons.prems(2) r by (simp add: tuples_fit_def)
    then show ?thesis
      using Cons.IH [of "pre @ tup r"] Cons.prems False r by (simp add: table_list_get_def tuples_fit_def)
  qed
qed simp

lemma collect_results_bind:
  assumes "collect_results plan es = Inr ps"
    and "\<And>e p. e \<in> set es \<Longrightarrow> plan e = Inr p \<Longrightarrow> ev p = f e"
  shows "collect_results ev ps = collect_results f es"
  using assms
proof (induction es arbitrary: ps)
  case (Cons e es)
  then obtain p ps' where ps: "ps = p # ps'" "plan e = Inr p" "collect_results plan es = Inr ps'"
    by (auto simp: bind_result_eq_Inr)
  moreover have "ev p = f e" using Cons.prems(2) ps(2) by simp
  moreover have "collect_results ev ps' = collect_results f es" using ps(3) Cons.prems(2) by (intro Cons.IH) auto
  ultimately show ?case by simp
qed simp

lemma case_row_planned:
  assumes "collect_results (\<lambda>c. bind_result (plan (wt_when c)) (\<lambda>w. bind_result (plan (wt_then c)) (\<lambda>t. Inr (WhenThen w t)))) cases = Inr cs"
    and "plan else_expr = Inr el" and "ev el = f else_expr"
    and "\<And>c p. c \<in> set cases \<Longrightarrow> plan (wt_when c) = Inr p \<Longrightarrow> ev p = f (wt_when c)"
    and "\<And>c p. c \<in> set cases \<Longrightarrow> plan (wt_then c) = Inr p \<Longrightarrow> ev p = f (wt_then c)"
  shows "case_row ev cs el = case_row f cases else_expr"
  using assms
proof (induction cases arbitrary: cs)
  case (Cons c cases)
  then obtain w t cs' where cs: "cs = WhenThen w t # cs'" "plan (wt_when c) = Inr w" "plan (wt_then c) = Inr t"
      "collect_results (\<lambda>c. bind_result (plan (wt_when c)) (\<lambda>w. bind_result (plan (wt_then c)) (\<lambda>t. Inr (WhenThen w t)))) cases = Inr cs'"
    by (auto simp: bind_result_eq_Inr)
  moreover have "ev w = f (wt_when c)" "ev t = f (wt_then c)" using Cons.prems(4,5) [of c] cs(2,3) by simp_all
  moreover have "case_row ev cs' el = case_row f cases else_expr"
    using cs(4) Cons.prems(2-5) by (intro Cons.IH) auto
  ultimately show ?case by (simp cong: if_cong)
qed simp

lemma input_references_children:
  "\<forall>c. e \<noteq> Column c \<Longrightarrow> set (get_column_references e) = input_references (children e)"
  by (simp add: get_column_references_node input_references_def)

lemma in_tuples_mono: "in_tuples rs tup cols \<Longrightarrow> cols' \<subseteq> cols \<Longrightarrow> in_tuples rs tup cols'"
  by (auto simp: in_tuples_def)

lemma in_tuples_input: "in_tuples rs tup (input_references es) \<Longrightarrow> e \<in> set es \<Longrightarrow> in_tuples rs tup (set (get_column_references e))"
  by (auto simp: in_tuples_def input_references_def)

lemma plan_scalar_sem:
  assumes fit: "tuples_fit tabs tup refs"
  shows "plan_scalar d (rs_lib rs) tabs refs e = Inr p \<Longrightarrow> in_tuples rs tup (set (get_column_references e)) \<Longrightarrow>
    eval_row (rs_lib rs) (concat (map tup refs)) p = sem rs e"
proof (induction d arbitrary: e p)
  case (Suc d)
  let ?plan = "plan_scalar d (rs_lib rs) tabs refs" and ?ev = "eval_row (rs_lib rs) (concat (map tup refs))"
  let ?bind = "bind_operator (lib_cast_sets (rs_lib rs))"
  have inputs: "collect_results ?ev ps = collect_results (sem rs) es"
    if "collect_results ?plan es = Inr ps" "in_tuples rs tup (input_references es)" for es ps
    using that Suc.IH in_tuples_input by (intro collect_results_bind) blast+
  have child: "?ev p = sem rs c" if "?plan c = Inr p" "c \<in> set (children e)" "\<forall>c. e \<noteq> Column c" for c p
    using that Suc.IH Suc.prems(2) in_tuples_input input_references_children by metis
  have operator: "?ev p = operator_sem rs fns name es"
    if "?bind fns name es = Inr (f, inputs')" "collect_results ?plan inputs' = Inr ps" "p = PhysScalarFunction f ps"
      "input_references inputs' \<subseteq> input_references es" "in_tuples rs tup (input_references es)" for fns name es f inputs' ps
    using that(1,3) inputs [OF that(2) in_tuples_mono [OF that(5,4)]] by (simp add: operator_sem_def)
  have refs: "in_tuples rs tup (input_references (children e))" if "\<forall>c. e \<noteq> Column c"
    using that Suc.prems(2) input_references_children by simp
  show ?case
  proof (cases e)
    case (Column col)
    then have "in_tuples rs tup {reference col}" using Suc.prems(2) by simp
    then show ?thesis
      using Column Suc.prems plan_column_row [of tabs refs col "[]" p tup "rs_lib rs"] fit
      by (simp add: in_tuples_def)
  next
    case (ScalarFunction f es)
    then show ?thesis using Suc.prems(1) inputs refs by (auto simp: bind_result_eq_Inr)
  next
    case (Cast to c f)
    then show ?thesis using Suc.prems(1) child by (auto simp: bind_result_eq_Inr)
  next
    case (Comparison op l r)
    then obtain f xs ps where "?bind comparison_functions (comparison_function_set op) [l, r] = Inr (f, xs)"
        "collect_results ?plan xs = Inr ps" "p = PhysScalarFunction f ps"
      using Suc.prems(1) by (auto simp: bind_result_eq_Inr Let_def)
    then show ?thesis using operator bound_operator_references refs Comparison by simp
  next
    case (Arith op l r t)
    then obtain f xs ps where "?bind (arith_functions op) (arith_function_set op) [l, r] = Inr (f, xs)"
        "collect_results ?plan xs = Inr ps" "p = PhysScalarFunction f ps"
      using Suc.prems(1) by (auto simp: bind_result_eq_Inr Let_def)
    then show ?thesis using operator bound_operator_references refs Arith by simp
  next
    case (Negate op c)
    then obtain f xs ps where b: "?bind (negate_functions op) (negate_function_set op) [c] = Inr (f, xs)"
        "collect_results ?plan xs = Inr ps" "p = PhysScalarFunction f ps"
      using Suc.prems(1) by (auto simp: bind_result_eq_Inr Let_def)
    then show ?thesis using operator [OF b] bind_negate_inputs [OF b(1)] refs Negate by simp
  next
    case (CaseE cases else_expr t)
    then obtain cs el where p: "p = PhysCase cs el t" "?plan else_expr = Inr el"
        "collect_results (\<lambda>c. bind_result (?plan (wt_when c)) (\<lambda>w. bind_result (?plan (wt_then c)) (\<lambda>t. Inr (WhenThen w t)))) cases = Inr cs"
      using Suc.prems(1) by (auto simp: bind_result_eq_Inr Let_def)
    have "case_row ?ev cs el = case_row (sem rs) cases else_expr"
      using p(3,2) CaseE child by (intro case_row_planned [of ?plan]) auto
    then show ?thesis using p(1) CaseE by simp
  next
    case (Conjunction op es)
    show ?thesis
    proof (cases "length es = 1")
      case True
      then obtain x where "es = [x]" by (cases es) auto
      then show ?thesis
        using Conjunction Suc.prems(1) child [of x p] sem_single_conjunction [of rs op x] by simp
    next
      case False
      then obtain f xs ps where b: "?bind boolean_functions (conjunction_function_set op) es = Inr (f, xs)"
          "collect_results ?plan xs = Inr ps" "p = PhysConjunction op f ps"
        using Suc.prems(1) Conjunction by (auto simp: bind_result_eq_Inr Let_def)
      then have "collect_results ?plan es = Inr ps" "p = PhysConjunction op f ps"
        using bind_boolean_inputs [OF b(1)] by simp_all
      moreover from this have "length ps \<noteq> 1" using False collect_results_length by metis
      moreover have "collect_results ?ev ps = collect_results (sem rs) es"
        using calculation(1) refs Conjunction by (intro inputs) simp_all
      ultimately show ?thesis
        using Conjunction False collect_results_length [of "sem rs" es] by (auto intro!: bind_result_cong)
    qed
  qed (use Suc.prems in auto)
qed simp

section \<open>Constants\<close>

text \<open>
  On a batch with a single row every selection inside an evaluation is empty or the row itself, so
  a nested CASE writes where its value is read.
\<close>

definition constant_batch :: batch where
  "constant_batch = \<lparr>batch_columns = [], batch_num_rows = 1\<rparr>"

lemma single_row_selections: "set rs \<subseteq> {0 :: nat} \<Longrightarrow> distinct rs \<Longrightarrow> rs = [] \<or> rs = [0]"
proof (cases rs)
  case (Cons r rs')
  assume "set rs \<subseteq> {0}" "distinct rs"
  then show ?thesis using Cons by (cases rs') auto
qed simp

lemma case_writes_single:
  assumes "case_writes spec rows out r" and "rows = [] \<or> rows = [0]" and "length rows \<le> length out"
  shows "agrees (collect_results spec rows) r"
proof (cases "rows = []")
  case False
  then have "rows = [0..<1]" using assms(2) by simp
  then show ?thesis using case_writes_agrees [of spec 1 out r] assms by simp
qed (use assms in \<open>auto simp: case_writes_def agrees_def\<close>)

lemma selection_fits: "selection_rows sel = [] \<or> selection_rows sel = [0] \<Longrightarrow> length out = 1 \<Longrightarrow> selection_len sel \<le> length out"
  by (auto simp flip: length_selection_rows)

lemma eval_constant_agrees:
  assumes size: "env_batch_size env = 1"
  shows "columns_below 0 p \<Longrightarrow> selection_rows sel = [] \<or> selection_rows sel = [0] \<Longrightarrow> length out = 1 \<Longrightarrow>
    agrees (collect_results (\<lambda>r. eval_row (env_lib env) [] p) (selection_rows sel))
      (eval_expression env constant_batch p sel out)"
proof (induction p arbitrary: sel out rule: measure_induct_rule [of size])
  case (less p)
  let ?row = "\<lambda>p r. eval_row (env_lib env) [] p"
  let ?ev = "\<lambda>p. eval_expression env constant_batch p sel (reset_array env)"
  have sub: "agrees (collect_results (?row q) (selection_rows sel')) (eval_expression env constant_batch q sel' (reset_array env))"
    if "size q < size p" "columns_below 0 q" "selection_rows sel' = [] \<or> selection_rows sel' = [0]" for q sel'
    using less.IH that size by (simp add: reset_array_def)
  have inputs: "agrees (collect_results (?row q) (selection_rows sel)) (?ev q)"
    if "q \<in> set qs" "list_all (columns_below 0) qs" "size_list size qs < size p" for q qs
    using that less.prems(2) phys_input_size [of q qs] by (intro sub) (auto simp: list_all_iff)
  note len = selection_fits [OF less.prems(2,3)]
  show ?case
  proof (cases p)
    case (PhysLiteral v)
    then show ?thesis using less.prems by (auto simp: eval_literal_def agrees_def map_replicate_const)
  next
    case (PhysScalarFunction f qs)
    then show ?thesis
      using eval_inputs_agree [of qs ?row "selection_rows sel" ?ev out "call_execute (env_lib env) f"] less.prems(1) inputs len
      by simp
  next
    case (PhysConjunction op f qs)
    then show ?thesis
      using eval_inputs_agree [of qs ?row "selection_rows sel" ?ev out "execute_boolean op"] less.prems(1) inputs len
      by simp
  next
    case (PhysCast to e c)
    then have "agrees (collect_results (?row e) (selection_rows sel)) (?ev e)"
      using less.prems by (intro sub) simp_all
    then show ?thesis
      using eval_inputs_agree [of "[e]" ?row "selection_rows sel" ?ev out "\<lambda>row. lib_cast (env_lib env) c to (hd row)"]
        PhysCast len by (simp add: bind_result_assoc)
  next
    case (PhysCase cases else_expr t)
    let ?evs = "\<lambda>p rows. eval_expression env constant_batch p (SelSlice rows) (reset_array env)"
    let ?P = "{q. size q < size p \<and> columns_below 0 q}"
    have "case_writes (\<lambda>r. case_row (\<lambda>p. ?row p r) cases else_expr) (selection_rows sel) out
        (case_finish ?evs else_expr (case_loop ?evs cases (selection_rows sel) out))"
    proof (rule case_loop_writes [where P = ?P and R = "{0}"])
      show "agrees (collect_results (?row q) rs) (?evs q rs)" if "q \<in> ?P" "set rs \<subseteq> {0}" "distinct rs" for q rs
        using sub [of q "SelSlice rs"] that single_row_selections [of rs] by simp
      show "\<forall>c \<in> set cases. wt_when c \<in> ?P \<and> wt_then c \<in> ?P"
        using PhysCase less.prems(1) by (auto simp: list_all_iff dest: when_then_size)
    qed (use PhysCase less.prems in auto)
    then have "agrees (collect_results (\<lambda>r. case_row (\<lambda>p. ?row p r) cases else_expr) (selection_rows sel))
        (case_finish ?evs else_expr (case_loop ?evs cases (selection_rows sel) out))"
      using less.prems(2) len by (intro case_writes_single) auto
    then show ?thesis using PhysCase by (simp add: case_finish_def selection_collect_rows)
  qed (use less.prems in simp)
qed

text \<open>A constant evaluates to its value, and evaluation fails exactly when the value does.\<close>

lemma try_eval_constant_row:
  assumes "env_batch_size env = 1" and "columns_below 0 p"
  shows "try_eval_constant env [p] = Inr v \<longleftrightarrow> eval_row (env_lib env) [] p = Inr v"
proof -
  have "agrees (collect_results (\<lambda>r. eval_row (env_lib env) [] p) [0 :: nat])
      (eval_expression env constant_batch p (SelLinear 0 1) [env_stale env])"
    using eval_constant_agrees [OF assms, of "SelLinear 0 1" "[env_stale env]"] by simp
  then have ag: "agrees (bind_result (eval_row (env_lib env) [] p) (\<lambda>v. Inr [v]))
      (eval_expression env constant_batch p (SelLinear 0 1) [env_stale env])" by simp
  have ev: "try_eval_constant env [p] =
      bind_result (eval_expression env constant_batch p (SelLinear 0 1) [env_stale env])
        (\<lambda>out. if out = [] then Inl (DbError ''Index out of bounds'') else Inr (out ! 0))"
    by (simp add: try_eval_constant_def constant_batch_def)
  show ?thesis
  proof (cases "eval_row (env_lib env) [] p")
    case (Inl e)
    then obtain e' where "eval_expression env constant_batch p (SelLinear 0 1) [env_stale env] = Inl e'"
      using ag agrees_InlD [of e "eval_expression env constant_batch p (SelLinear 0 1) [env_stale env]"] by auto
    then show ?thesis using Inl unfolding ev by simp
  next
    case (Inr w)
    then obtain out where "eval_expression env constant_batch p (SelLinear 0 1) [env_stale env] = Inr out"
        "1 \<le> length out" "take 1 out = [w]"
      using ag agrees_InrD [of "[w]"] by auto
    moreover from this have "out \<noteq> []" "out ! 0 = w" by (cases out; simp)+
    ultimately show ?thesis unfolding ev using Inr by simp
  qed
qed

lemma plan_scalar_no_columns: "plan_scalar d lib tabs [] e = Inr p \<Longrightarrow> columns_below 0 p"
proof (induction d arbitrary: e p)
  case (Suc d)
  have all: "list_all (columns_below 0) ps" if "collect_results (plan_scalar d lib tabs []) es = Inr ps" for es ps
    using that Suc.IH by (auto simp: collect_results_list_all2 list_all_length list_all2_conv_all_nth)
  have cases: "list_all (\<lambda>c. columns_below 0 (wt_when c) \<and> columns_below 0 (wt_then c)) cs"
    if "collect_results (\<lambda>c. bind_result (plan_scalar d lib tabs [] (wt_when c)) (\<lambda>w.
        bind_result (plan_scalar d lib tabs [] (wt_then c)) (\<lambda>t. Inr (WhenThen w t)))) cases = Inr cs" for cases cs
    using that
  proof (induction cases arbitrary: cs)
    case (Cons c cases)
    then show ?case using Suc.IH by (auto simp: bind_result_eq_Inr)
  qed simp
  show ?case
    using Suc by (cases e) (auto simp: bind_result_eq_Inr Let_def all cases split: if_splits)
qed simp

section \<open>Truth values\<close>

text \<open>
  Where an expression has a truth value, the value of a conjunction depends only on the set of the
  truth values of its inputs, because AND and OR answer NULL as soon as one input is NULL.
\<close>

definition truth :: "row_semantics \<Rightarrow> expression \<Rightarrow> bool option result" where
  "truth rs e = bind_result (sem rs e) as_boolean"

definition has_truth :: "row_semantics \<Rightarrow> expression \<Rightarrow> bool" where
  "has_truth rs e \<longleftrightarrow> (\<exists>b. truth rs e = Inr b)"

definition truth_of :: "row_semantics \<Rightarrow> expression \<Rightarrow> bool option" where
  "truth_of rs e = (case truth rs e of Inr b \<Rightarrow> b | Inl _ \<Rightarrow> None)"

fun connective :: "conjunction_operator \<Rightarrow> bool option set \<Rightarrow> bool option" where
  "connective ConjAnd bs = (if None \<in> bs then None else Some (Some False \<notin> bs))"
| "connective ConjOr bs = (if None \<in> bs then None else Some (Some True \<in> bs))"

lemma of_boolean_inverse: "as_boolean v = Inr b \<Longrightarrow> of_boolean b = v"
  by (cases v) (auto simp: of_boolean_def)

lemma as_boolean_of_boolean [simp]: "as_boolean (of_boolean b) = Inr b"
  by (cases b) (simp_all add: of_boolean_def)

lemma sem_of_truth: "has_truth rs e \<Longrightarrow> sem rs e = Inr (of_boolean (truth_of rs e))"
  by (auto simp: has_truth_def truth_of_def truth_def bind_result_eq_Inr of_boolean_inverse)

lemma has_truthI: "sem rs e = Inr (of_boolean b) \<Longrightarrow> has_truth rs e"
  by (simp add: has_truth_def truth_def)

lemma truth_of_eq: "sem rs e = Inr (of_boolean b) \<Longrightarrow> truth_of rs e = b"
  by (simp add: truth_of_def truth_def)

lemma has_truth_sem: "has_truth rs e \<longleftrightarrow> (\<exists>b. sem rs e = Inr (of_boolean b))"
  using sem_of_truth has_truthI by blast

lemma those_Some: "those (map Some xs) = Some xs"
  by (induction xs) simp_all

lemma combine_all_connective: "connective op (set (map Some xs)) = Some (combine_all op xs)"
  by (cases op) (auto simp: list_all_iff list_ex_iff)

lemma those_None: "None \<in> set bs \<Longrightarrow> those bs = None"
  by (induction bs) (auto split: option.splits)

lemma connective_list: "map_option (combine_all op) (those bs) = connective op (set bs)"
proof (cases "None \<in> set bs")
  case True
  then show ?thesis using those_None [OF True] by (cases op) simp_all
next
  case False
  have "map (\<lambda>b. Some (the b)) bs = bs" using False by (intro map_idI) (metis option.collapse)
  then show ?thesis
    using those_Some [of "map the bs"] combine_all_connective [of op "map the bs"] by (simp only: map_map comp_def) simp
qed

lemma execute_boolean_connective:
  assumes "bs \<noteq> []"
  shows "execute_boolean op (map of_boolean bs) = Inr (of_boolean (connective op (set bs)))"
proof -
  have all: "collect_results as_boolean (map of_boolean bs) = Inr bs" for bs
    by (simp add: collect_results_map)
  consider a where "bs = [a]" | a b where "bs = [a, b]" | a b c cs where "bs = a # b # c # cs"
    using assms by (metis neq_Nil_conv)
  then show ?thesis
  proof cases
    case 1
    then show ?thesis by (cases op; cases a) auto
  next
    case 2
    then show ?thesis by (cases op; cases a; cases b) auto
  next
    case 3
    then show ?thesis using all [of bs] connective_list [of op bs] by simp
  qed
qed

lemma truth_list:
  assumes "\<forall>e \<in> set es. has_truth rs e"
  shows "collect_results (sem rs) es = Inr (map of_boolean (map (truth_of rs) es))"
  using collect_results_cong [of es es "sem rs" "\<lambda>e. Inr (of_boolean (truth_of rs e))"] sem_of_truth assms
  by (simp add: comp_def)

lemma sem_conjunction:
  assumes "es \<noteq> []" and "\<forall>e \<in> set es. has_truth rs e"
  shows "sem rs (Conjunction op es) = Inr (of_boolean (connective op (truth_of rs ` set es)))"
proof (cases "length es = 1")
  case True
  then obtain e where e: "es = [e]" by (cases es) auto
  have "connective op {truth_of rs e} = truth_of rs e" by (cases op; cases "truth_of rs e") auto
  then show ?thesis using assms(2) sem_of_truth [of rs e] by (simp add: e)
next
  case False
  then show ?thesis
    using truth_list [OF assms(2)] execute_boolean_connective [of "map (truth_of rs) es" op] assms(1) by simp
qed

lemma conjunction_truths:
  assumes "es \<noteq> []"
  shows "has_truth rs (Conjunction op es) \<longleftrightarrow> (\<forall>e \<in> set es. has_truth rs e)"
    and "has_truth rs (Conjunction op es) \<Longrightarrow> truth_of rs (Conjunction op es) = connective op (truth_of rs ` set es)"
    and "length es \<noteq> 1 \<Longrightarrow> sem rs (Conjunction op es) = Inr v \<Longrightarrow> has_truth rs (Conjunction op es)"
proof -
  have long: "\<forall>e \<in> set es. has_truth rs e" if run: "sem rs (Conjunction op es) = Inr v" "length es \<noteq> 1" for v
  proof -
    obtain vs where vs: "collect_results (sem rs) es = Inr vs" "execute_boolean op vs = Inr v"
      using run collect_results_length [of "sem rs" es] by (auto simp: bind_result_eq_Inr split: if_splits)
    have "\<forall>w \<in> set vs. \<exists>b. as_boolean w = Inr b"
      using vs(2) by (cases "(op, vs)" rule: execute_boolean.cases)
        (auto simp: bind_result_eq_Inr collect_results_list_all2 list_all2_Cons1 list_all2_conv_all_nth in_set_conv_nth)
    then show ?thesis
      using vs(1) by (fastforce simp: has_truth_def truth_def collect_results_list_all2 list_all2_conv_all_nth in_set_conv_nth)
  qed
  have single: "has_truth rs (Conjunction op [e]) = has_truth rs e" for e
    using sem_single_conjunction [of rs op e] by (simp add: has_truth_def truth_def del: sem_simps)
  show iff: "has_truth rs (Conjunction op es) \<longleftrightarrow> (\<forall>e \<in> set es. has_truth rs e)"
  proof (cases "length es = 1")
    case True
    then obtain e where "es = [e]" by (cases es) auto
    then show ?thesis using single by simp
  next
    case False
    then show ?thesis using sem_conjunction [OF assms] long has_truth_sem by blast
  qed
  show "truth_of rs (Conjunction op es) = connective op (truth_of rs ` set es)" if "has_truth rs (Conjunction op es)"
    using that iff sem_conjunction [OF assms] truth_of_eq by blast
  show "has_truth rs (Conjunction op es)" if "length es \<noteq> 1" "sem rs (Conjunction op es) = Inr v"
    using that iff long by blast
qed

section \<open>Properties\<close>

definition identity_semantics :: "(table_ref \<Rightarrow> scalar_value list) \<Rightarrow> row_semantics" where
  "identity_semantics tup = \<lparr>rs_column = column_of tup, rs_lib = identity_library\<rparr>"

text \<open>
  A library with the casts to 64-bit decimals of scale 2, and addition of decimals.
\<close>

definition decimal_library :: function_library where
  "decimal_library = \<lparr>
     lib_cast_sets = decimal_casts,
     lib_execute = (\<lambda>f vs. case vs of
         [SvDecimal64 a, SvDecimal64 b] \<Rightarrow> Inr (SvDecimal64 (a\<lparr>ds_value := ds_value a + ds_value b\<rparr>))
       | _ \<Rightarrow> Inl (DbError ''invalid cast when trying to downcast array buffer'')),
     lib_cast = (\<lambda>c to v. case v of
         SvInt32 i \<Rightarrow> Inr (SvDecimal64 \<lparr>ds_precision = 13, ds_scale = 2, ds_value = 100 * sint i\<rparr>)
       | SvDecimal64 d \<Rightarrow> Inr (SvDecimal64 (d\<lparr>ds_precision := 13\<rparr>))
       | _ \<Rightarrow> Inl (DbError ''cast'')),
     lib_escape = bracket_escape, lib_regex_new = bracket_new\<rparr>"

text \<open>
  C5. Planning keeps the meaning: an expression that the planner accepts for a list of input
  tables, evaluated on the tuples of these tables laid side by side, has the value of the logical
  expression. The tuples have the widths of their tables, and every column of the expression lies
  in the tuple of its table and denotes the value found there. An operator denotes the function
  that its inputs select, on the inputs that binding the function returns.
\<close>

theorem planned_expression_value:
  assumes "plan_scalar d (rs_lib rs) tabs refs e = Inr p"
    and "tuples_fit tabs tup refs"
    and "in_tuples rs tup (set (get_column_references e))"
  shows "eval_row (rs_lib rs) (concat (map tup refs)) p = sem rs e"
  using plan_scalar_sem assms by blast

definition price_tables :: table_list where
  "price_tables = [\<lparr>tbl_column_types = [boolean_type, new_primitive Int32T], tbl_column_names = [''a'', ''n'']\<rparr>,
                   \<lparr>tbl_column_types = [decimal_type], tbl_column_names = [''price'']\<rparr>]"

definition price_sum :: expression where
  "price_sum = Arith ArithAdd price_column count_column sum_type"

definition planned_sum :: physical_expr where
  "planned_sum = PhysScalarFunction \<lparr>pf_name = ''+'', pf_return_type = sum_type, pf_volatility = Consistent\<rparr>
     [PhysCast sum_type (PhysColumn 0 decimal_type) \<lparr>pc_name = ''to_decimal64'', pc_src = Decimal64T\<rparr>,
      PhysCast sum_type (PhysColumn 2 (new_primitive Int32T)) \<lparr>pc_name = ''to_decimal64'', pc_src = Int32T\<rparr>]"

lemma price_sum_planned: "plan_scalar 3 decimal_library price_tables [1, 0] price_sum = Inr planned_sum"
  using sum_found sum_bound
  by (simp add: price_sum_def price_tables_def planned_sum_def decimal_library_def bind_operator_def sum_inputs_def
      price_column_def count_column_def table_list_get_def num_columns_def numeral_3_eq_3)

lemma price_sum_references: "get_column_references price_sum = [ColumnReference 1 0, ColumnReference 0 1]"
  by (simp add: price_sum_def price_column_def count_column_def get_column_references_node)

theorem planned_expression_value_witness:
  "let tup = (\<lambda>r. if r = 0 then [SvBoolean True, SvInt32 3] else [SvDecimal64 \<lparr>ds_precision = 12, ds_scale = 2, ds_value = 150\<rparr>]);
       rs = \<lparr>rs_column = column_of tup, rs_lib = decimal_library\<rparr>
   in plan_scalar 3 decimal_library price_tables [1, 0] price_sum = Inr planned_sum \<and>
      eval_row decimal_library (concat (map tup [1, 0])) planned_sum = sem rs price_sum \<and>
      sem rs price_sum = Inr (SvDecimal64 \<lparr>ds_precision = 13, ds_scale = 2, ds_value = 450\<rparr>)"
proof -
  let ?tup = "\<lambda>r :: nat. if r = 0 then [SvBoolean True, SvInt32 3]
    else [SvDecimal64 \<lparr>ds_precision = 12, ds_scale = 2, ds_value = 150\<rparr>]"
  let ?rs = "\<lparr>rs_column = column_of ?tup, rs_lib = decimal_library\<rparr>"
  have "plan_scalar 3 (rs_lib ?rs) price_tables [1, 0] price_sum = Inr planned_sum"
    by (simp only: row_semantics.simps price_sum_planned)
  then have "eval_row (rs_lib ?rs) (concat (map ?tup [1, 0])) planned_sum = sem ?rs price_sum"
    by (rule planned_expression_value)
      (simp_all add: price_sum_references tuples_fit_def num_columns_def price_tables_def in_tuples_def)
  moreover have "eval_row decimal_library (concat (map ?tup [1, 0])) planned_sum =
      Inr (SvDecimal64 \<lparr>ds_precision = 13, ds_scale = 2, ds_value = 450\<rparr>)"
    by (simp add: planned_sum_def decimal_library_def call_execute_def)
  ultimately show ?thesis using price_sum_planned by (simp add: Let_def)
qed

end
