(* ===== verification/Rewrites.thy ===== *)
theory Rewrites
  imports Semantics Like
begin

text \<open>
  The expression rewrites of the optimizer (\<open>optimizer/expr_rewrite/\<close>) and the reordering of filter
  predicates (\<open>optimizer/selection_reorder.rs\<close>).

  Every rule is a function of an expression with the source's recursion. The contract of a rule is
  the locale \<open>sound_rewrite\<close>: the rewritten expression has the type of the original and, where the
  original has a value on a row, the same value. The rules that meet it without conditions are
  interpretations. The others meet it under conditions on the run: constant folding when the
  folded values have the types of the expressions they replace and no constant cast is taken away
  from under a decimal operator (\<open>fold_safe\<close>), the rewriting of LIKE for patterns without escapes and
  strings without line feeds (\<open>like_safe\<close>), the OR distribution when it does not absorb some
  disjuncts of an OR and keep others (\<open>distributive_safe\<close>).
\<close>

section \<open>Conjunctions without inputs\<close>

text \<open>No conjunction is empty: the binder and the optimizer build them from at least one input.\<close>

function conj_ok :: "expression \<Rightarrow> bool" where
  "conj_ok e \<longleftrightarrow> (\<forall>op. e \<noteq> Conjunction op []) \<and> list_all conj_ok (children e)"
  by pat_completeness auto
termination by (relation "measure size", rule wf_measure, unfold in_measure, (erule children_size)+)

declare conj_ok.simps [simp del]

lemma conj_ok_children: "conj_ok e \<Longrightarrow> c \<in> set (children e) \<Longrightarrow> conj_ok c"
  by (subst (asm) conj_ok.simps) (simp add: list_all_iff)

lemma conj_ok_Conjunction [simp]: "conj_ok (Conjunction op es) \<longleftrightarrow> es \<noteq> [] \<and> (\<forall>e \<in> set es. conj_ok e)"
  by (subst conj_ok.simps) (auto simp: list_all_iff)

lemma conj_ok_Literal [simp]: "conj_ok (Literal v)"
  by (simp add: conj_ok.simps)

lemma conj_ok_map_children:
  "conj_ok e \<Longrightarrow> (\<And>c. c \<in> set (children e) \<Longrightarrow> conj_ok (g c)) \<Longrightarrow> conj_ok (map_children g e)"
  by (subst conj_ok.simps) (cases e; auto simp: list_all_iff children_map_children)

section \<open>The contract\<close>

locale sound_rewrite =
  fixes rs :: row_semantics
    and rewrite :: "expression \<Rightarrow> expression result"
  assumes rewrite_ok: "conj_ok e \<Longrightarrow> rewrite e = Inr e' \<Longrightarrow> conj_ok e'"
    and rewrite_refines: "conj_ok e \<Longrightarrow> rewrite e = Inr e' \<Longrightarrow> refines rs e e'"
begin

lemma rewrite_sem: "conj_ok e \<Longrightarrow> rewrite e = Inr e' \<Longrightarrow> sem rs e = Inr v \<Longrightarrow> sem rs e' = Inr v"
  using rewrite_refines refines_value by blast

text \<open>\<open>apply_rewrites_all\<close>: rewriting a list of projections.\<close>

lemma rewrite_all:
  assumes "list_all conj_ok es" and "collect_results rewrite es = Inr es'" and "collect_results (sem rs) es = Inr vs"
  shows "list_all conj_ok es' \<and> collect_results (sem rs) es' = Inr vs"
  using assms
proof (induction es arbitrary: es' vs)
  case (Cons e es)
  then obtain e1 es1 v vs1 where "rewrite e = Inr e1" "collect_results rewrite es = Inr es1" "es' = e1 # es1"
      "sem rs e = Inr v" "collect_results (sem rs) es = Inr vs1" "vs = v # vs1"
    by (auto simp: bind_result_eq_Inr)
  then show ?case using Cons rewrite_ok [of e e1] rewrite_sem [of e e1 v] by simp
qed simp

end

lemma rewrite_sequence:
  assumes "sound_rewrite rs f" and "sound_rewrite rs g"
  shows "sound_rewrite rs (\<lambda>e. bind_result (f e) g)"
proof (rule sound_rewrite.intro)
  fix e e'
  assume e: "conj_ok e" "bind_result (f e) g = Inr e'"
  then obtain e1 where e1: "f e = Inr e1" "g e1 = Inr e'" by (auto simp: bind_result_eq_Inr)
  have ok: "conj_ok e1" by (rule sound_rewrite.rewrite_ok [OF assms(1) e(1) e1(1)])
  show "conj_ok e'" by (rule sound_rewrite.rewrite_ok [OF assms(2) ok e1(2)])
  show "refines rs e e'"
    using refines_trans [OF sound_rewrite.rewrite_refines [OF assms(1) e(1) e1(1)]
        sound_rewrite.rewrite_refines [OF assms(2) ok e1(2)]] .
qed

text \<open>A conjunction replaced by a conjunction with its value.\<close>

lemma keeps_conjunction:
  "(\<And>v. sem rs (Conjunction op es) = Inr v \<Longrightarrow> sem rs (Conjunction op' es') = Inr v) \<Longrightarrow>
     keeps rs (Conjunction op es) (Conjunction op' es')"
  by (simp add: keeps_def refines_def same_cast_def)

section \<open>Unnesting conjunctions\<close>

function unnest_op :: "conjunction_operator \<Rightarrow> expression \<Rightarrow> expression list" where
  "unnest_op search_op e =
     (case e of
        Conjunction op es \<Rightarrow> if op = search_op then concat (map (unnest_op search_op) (children e)) else [e]
      | _ \<Rightarrow> [e])"
  by pat_completeness auto
termination by (relation "measure (\<lambda>(_, e). size e)", rule wf_measure, unfold in_measure prod.case, (erule children_size)+)

declare unnest_op.simps [simp del]

lemma unnest_op_same [simp]: "unnest_op op (Conjunction op es) = concat (map (unnest_op op) es)"
  by (simp add: unnest_op.simps)

lemma unnest_op_other: "(\<And>es. e \<noteq> Conjunction op es) \<Longrightarrow> unnest_op op e = [e]"
  by (subst unnest_op.simps) (auto split: expression.splits)

lemma unnest_op_size: "x \<in> set (unnest_op op e) \<Longrightarrow> size x \<le> size e"
proof (induction e arbitrary: x rule: children_induct)
  case (node e)
  show ?case
  proof (cases "\<exists>es. e = Conjunction op es")
    case True
    then obtain es where "e = Conjunction op es" by blast
    then show ?thesis using node size_list_in [of _ es] by fastforce
  qed (use node unnest_op_other in fastforce)
qed

function unnest_conjunction :: "expression \<Rightarrow> expression" where
  "unnest_conjunction e =
     (case e of
        Conjunction op es \<Rightarrow> Conjunction op (map unnest_conjunction (concat (map (unnest_op op) es)))
      | _ \<Rightarrow> map_children unnest_conjunction e)"
  by pat_completeness auto
termination
proof (relation "measure size")
  fix e op es x assume "e = Conjunction op es" "x \<in> set (concat (map (unnest_op op) es))"
  then show "(x, e) \<in> measure size" using unnest_op_size [of x op] size_list_in [of _ es] by fastforce
qed (simp_all only: wf_measure in_measure, (erule children_size)+)

declare unnest_conjunction.simps [simp del]

lemma unnest_Conjunction:
  "unnest_conjunction (Conjunction op es) = map_children unnest_conjunction (Conjunction op (unnest_op op (Conjunction op es)))"
  by (subst unnest_conjunction.simps) simp

lemma unnest_node:
  "(\<And>op es. e \<noteq> Conjunction op es) \<Longrightarrow> unnest_conjunction e = map_children unnest_conjunction e"
  by (subst unnest_conjunction.simps) (auto split: expression.splits)

lemma unnest_op_ok: "conj_ok e \<Longrightarrow> unnest_op op e \<noteq> [] \<and> (\<forall>x \<in> set (unnest_op op e). conj_ok x)"
proof (induction e rule: children_induct)
  case (node e)
  show ?case
  proof (cases "\<exists>es. e = Conjunction op es")
    case True
    then obtain es where "e = Conjunction op es" by blast
    then show ?thesis using node by auto
  qed (use node unnest_op_other in auto)
qed

lemma connective_singleton: "connective op {b} = b"
  by (cases op; cases b) auto

lemma connective_union:
  "B \<noteq> {} \<Longrightarrow> (\<And>b. b \<in> B \<Longrightarrow> f b \<noteq> {}) \<Longrightarrow> connective op (\<Union>b \<in> B. f b) = connective op ((\<lambda>b. connective op (f b)) ` B)"
  by (cases op) (auto split: if_splits)

lemma unnest_op_truth:
  "conj_ok e \<Longrightarrow> has_truth rs e \<Longrightarrow>
     (\<forall>x \<in> set (unnest_op op e). has_truth rs x) \<and> connective op (truth_of rs ` set (unnest_op op e)) = truth_of rs e"
proof (induction e rule: children_induct)
  case (node e)
  show ?case
  proof (cases "\<exists>es. e = Conjunction op es")
    case True
    then obtain es where e: "e = Conjunction op es" and es: "es \<noteq> []" "\<forall>x \<in> set es. conj_ok x"
      using node.prems(1) by auto
    have x: "has_truth rs x" if "x \<in> set es" for x
      using that node.prems(2) conjunction_truths(1) [OF es(1)] e by blast
    have "truth_of rs ` set (unnest_op op e) = (\<Union>x \<in> set es. truth_of rs ` set (unnest_op op x))"
      by (auto simp: e)
    also have "connective op \<dots> = connective op ((\<lambda>x. connective op (truth_of rs ` set (unnest_op op x))) ` set es)"
      using es unnest_op_ok by (intro connective_union) auto
    also have "\<dots> = connective op (truth_of rs ` set es)"
      using node.IH e es(2) x by (intro arg_cong [of _ _ "connective op"] image_cong) auto
    finally show ?thesis
      using node.IH e es x conjunction_truths(2) [OF es(1), of rs op] node.prems(2) by auto
  qed (use node.prems unnest_op_other connective_singleton in auto)
qed

lemma unnest_op_sem:
  "conj_ok e \<Longrightarrow> sem rs e = Inr v \<Longrightarrow> sem rs (Conjunction op (unnest_op op e)) = Inr v"
proof (induction e rule: children_induct)
  case (node e)
  show ?case
  proof (cases "\<exists>es. e = Conjunction op es")
    case True
    then obtain es where e: "e = Conjunction op es" and es: "es \<noteq> []" "\<forall>x \<in> set es. conj_ok x"
      using node.prems(1) by auto
    show ?thesis
    proof (cases "length es = 1")
      case True
      then obtain x where x: "es = [x]" by (cases es) auto
      then have "sem rs x = Inr v" using node.prems(2) sem_single_conjunction [of rs op x] e by simp
      then show ?thesis using node.IH [of x] x e es by (simp del: sem_simps)
    next
      case False
      then have t: "has_truth rs e" using conjunction_truths(3) [OF es(1)] node.prems(2) e by blast
      have "sem rs (Conjunction op (unnest_op op e)) = Inr (of_boolean (truth_of rs e))"
        using sem_conjunction [of "unnest_op op e" rs op] unnest_op_truth [OF node.prems(1) t, of op]
          unnest_op_ok [OF node.prems(1), of op] by simp
      then show ?thesis using sem_of_truth [OF t] node.prems(2) by simp
    qed
  next
    case False
    then have "unnest_op op e = [e]" by (intro unnest_op_other) blast
    then show ?thesis using sem_single_conjunction node.prems(2) by metis
  qed
qed

lemma unnest_conjunction_sound:
  "conj_ok e \<Longrightarrow> conj_ok (unnest_conjunction e) \<and> keeps rs e (unnest_conjunction e)"
proof (induction e rule: measure_induct_rule [of size])
  case (less e)
  let ?n = "case e of Conjunction op es \<Rightarrow> Conjunction op (unnest_op op e) | _ \<Rightarrow> e"
  have n: "unnest_conjunction e = map_children unnest_conjunction ?n"
    by (cases e) (simp_all add: unnest_Conjunction unnest_node)
  have small: "size c < size e" if "c \<in> set (children ?n)" for c
  proof (cases "\<exists>op es. e = Conjunction op es")
    case True
    then obtain op es where "e = Conjunction op es" by blast
    then show ?thesis using that unnest_op_size [of c op] size_list_in [of _ es] by fastforce
  next
    case False
    then have "?n = e" by (cases e) simp_all
    then show ?thesis using that children_size [of c e] by metis
  qed
  have ok: "conj_ok ?n" using less.prems unnest_op_ok [OF less.prems] by (cases e) (simp_all del: unnest_op_same)
  have node: "keeps rs e ?n"
    using unnest_op_sem [OF less.prems, of rs] by (cases e) (auto intro: keeps_conjunction simp del: sem_simps unnest_op_same)
  have child: "conj_ok (unnest_conjunction c)" "keeps rs c (unnest_conjunction c)" if "c \<in> set (children ?n)" for c
    using less.IH [OF small [OF that] conj_ok_children [OF ok that]] by blast+
  show ?case
    unfolding n using ok child by (auto intro: conj_ok_map_children keeps_trans [OF node] keeps_map_children)
qed

interpretation unnest: sound_rewrite rs "\<lambda>e. Inr (unnest_conjunction e)" for rs
  using unnest_conjunction_sound keeps_refines by unfold_locales blast+

section \<open>Constant folding\<close>

text \<open>\<open>maybe_fold\<close>: \<open>d\<close> bounds the depth of the planner, \<open>env\<close> evaluates with batches of one row.\<close>

function maybe_fold :: "nat \<Rightarrow> eval_env \<Rightarrow> expression \<Rightarrow> expression result" where
  "maybe_fold d env e =
     (if (case e of Literal _ \<Rightarrow> True | _ \<Rightarrow> False) then Inr e
      else if is_const_foldable e
      then bind_result (plan_scalar d (env_lib env) [] [] e) (\<lambda>p.
           bind_result (try_eval_constant env [p]) (\<lambda>v. Inr (Literal v)))
      else if (case e of CaseE _ _ _ \<Rightarrow> True | _ \<Rightarrow> False) then Inr e
      else try_map_children (maybe_fold d env) e)"
  by pat_completeness auto
termination by (relation "measure (\<lambda>(_, _, e). size e)", rule wf_measure, unfold in_measure prod.case, (erule children_size)+)

declare maybe_fold.simps [simp del]

lemma folded_value:
  assumes env: "env_lib env = rs_lib rs" "env_batch_size env = 1"
    and const: "is_const_foldable e" and plan: "plan_scalar d (env_lib env) [] [] e = Inr p"
    and eval: "try_eval_constant env [p] = Inr v"
  shows "sem rs e = Inr v"
proof -
  have "columns_below 0 p" by (rule plan_scalar_no_columns [OF plan])
  then have "eval_row (rs_lib rs) [] p = Inr v"
    using try_eval_constant_row [OF env(2)] eval env(1) by simp
  moreover have "get_column_references e = []"
    using const const_foldable_references [of "{}" e] by (simp add: is_const_foldable_def)
  ultimately show ?thesis
    using plan_scalar_sem [of "[]" "\<lambda>_. []" "[]" d rs e p] plan env(1)
    by (simp add: tuples_fit_def in_tuples_def)
qed

text \<open>
  The condition under which folding keeps types and values: the value of a folded expression has the
  type of the expression (a NULL does not: its type is \<open>Null\<close>), and an operator on decimals keeps
  its constant casts, which binding it may look through.
\<close>

definition const_cast :: "expression \<Rightarrow> bool" where
  "const_cast e = (case e of Cast _ _ _ \<Rightarrow> is_const_foldable e | _ \<Rightarrow> False)"

function fold_safe :: "nat \<Rightarrow> eval_env \<Rightarrow> expression \<Rightarrow> bool" where
  "fold_safe d env e =
     (if (case e of Literal _ \<Rightarrow> True | _ \<Rightarrow> False) then True
      else if is_const_foldable e
      then (case bind_result (plan_scalar d (env_lib env) [] [] e) (\<lambda>p. try_eval_constant env [p]) of
              Inr v \<Rightarrow> scalar_datatype v = expr_datatype e
            | Inl _ \<Rightarrow> True)
      else if (case e of CaseE _ _ _ \<Rightarrow> True | _ \<Rightarrow> False) then True
      else list_all (fold_safe d env) (children e) \<and> (binds_flat e \<or> \<not> list_ex const_cast (children e)))"
  by pat_completeness auto
termination by (relation "measure (\<lambda>(_, _, e). size e)", rule wf_measure, unfold in_measure prod.case, (erule children_size)+)

declare fold_safe.simps [simp del]

lemma maybe_fold_cases:
  assumes "maybe_fold d env e = Inr e'"
  obtains (same) "e' = e"
  | (fold) p v where "is_const_foldable e" "plan_scalar d (env_lib env) [] [] e = Inr p"
      "try_eval_constant env [p] = Inr v" "e' = Literal v" "\<not> (case e of Literal _ \<Rightarrow> True | _ \<Rightarrow> False)"
  | (children) "\<not> is_const_foldable e" "\<not> (case e of Literal _ \<Rightarrow> True | _ \<Rightarrow> False)"
      "\<not> (case e of CaseE _ _ _ \<Rightarrow> True | _ \<Rightarrow> False)" "try_map_children (maybe_fold d env) e = Inr e'"
proof -
  let ?literal = "case e of Literal _ \<Rightarrow> True | _ \<Rightarrow> False" and ?case_expr = "case e of CaseE _ _ _ \<Rightarrow> True | _ \<Rightarrow> False"
  note unfold = assms [unfolded maybe_fold.simps [of d env e]]
  consider "?literal" | "\<not> ?literal" "is_const_foldable e" | "\<not> ?literal" "\<not> is_const_foldable e" "?case_expr"
    | "\<not> ?literal" "\<not> is_const_foldable e" "\<not> ?case_expr" by blast
  then show ?thesis
  proof cases
    case 1
    then have "e' = e" using unfold by (simp only: if_True sum.inject)
    then show ?thesis by (rule same)
  next
    case 2
    then obtain p v where "plan_scalar d (env_lib env) [] [] e = Inr p" "try_eval_constant env [p] = Inr v" "e' = Literal v"
      using unfold by (auto simp only: if_False if_True bind_result_eq_Inr sum.inject)
    then show ?thesis using 2 fold by blast
  next
    case 3
    then have "e' = e" using unfold by (simp only: if_True if_False sum.inject)
    then show ?thesis by (rule same)
  next
    case 4
    then have "try_map_children (maybe_fold d env) e = Inr e'" using unfold by (simp only: if_False)
    then show ?thesis using children 4 by blast
  qed
qed

lemma maybe_fold_sound:
  assumes env: "env_lib env = rs_lib rs" "env_batch_size env = 1"
  shows "conj_ok e \<Longrightarrow> fold_safe d env e \<Longrightarrow> maybe_fold d env e = Inr e' \<Longrightarrow>
    conj_ok e' \<and> refines rs e e' \<and> (\<not> const_cast e \<longrightarrow> same_cast rs e e')"
proof (induction e arbitrary: e' rule: children_induct)
  case (node e)
  from node.prems(3) show ?case
  proof (cases rule: maybe_fold_cases)
    case same
    then show ?thesis using node.prems by (cases e) (simp_all add: same_cast_def)
  next
    case (fold p v)
    have "scalar_datatype v = expr_datatype e"
      using node.prems(2) fold by (simp add: fold_safe.simps [of d env e])
    then have "refines rs e e'" using folded_value [OF env fold(1-3)] fold(4) by (simp add: refines_def)
    moreover have "\<not> const_cast e \<longrightarrow> same_cast rs e e'" using fold(1,4) by (cases e) (simp_all add: const_cast_def same_cast_def)
    ultimately show ?thesis using fold(4) by simp
  next
    case children
    then obtain g where g: "e' = map_children g e" "\<forall>c \<in> set (children e). maybe_fold d env c = Inr (g c)"
      using try_map_children_eq_Inr by blast
    have safe: "list_all (fold_safe d env) (children e)" "binds_flat e \<or> \<not> list_ex const_cast (children e)"
      using node.prems(2) unfolding fold_safe.simps [of d env e]
      by (simp_all only: children(1-3) if_False)
    have c: "conj_ok (g c)" "refines rs c (g c)" "\<not> const_cast c \<Longrightarrow> same_cast rs c (g c)" if "c \<in> set (children e)" for c
      using node.IH [OF that conj_ok_children [OF node.prems(1) that], of "g c"] g(2) that safe(1) by (auto simp: list_all_iff)
    have "refines rs e e'" unfolding g(1)
      using c(2,3) safe(2) by (intro refines_map_children) (auto simp: list_ex_iff)
    then show ?thesis
      unfolding g(1) using node.prems(1) c(1,2) by (auto intro: conj_ok_map_children same_cast_map_children)
  qed
qed

text \<open>The value of a folded pattern, whatever its type.\<close>

lemma maybe_fold_literal:
  assumes "env_lib env = rs_lib rs" and "env_batch_size env = 1" and "is_const_foldable e"
    and "maybe_fold d env e = Inr (Literal v)"
  shows "sem rs e = Inr v"
  using assms(4)
proof (cases rule: maybe_fold_cases)
  case same
  then show ?thesis by (metis sem_simps(2))
next
  case (fold p w)
  then show ?thesis using folded_value [OF assms(1,2)] by blast
qed (use assms(3) in simp)

section \<open>Distributing OR over AND\<close>

text \<open>An \<open>IndexSet\<close>: the elements in the order of their first insertion.\<close>

definition index_set :: "'a list \<Rightarrow> 'a list" where
  "index_set xs = rev (remdups (rev xs))"

lemma set_index_set [simp]: "set (index_set xs) = set xs"
  by (simp add: index_set_def)

lemma index_set_Nil [simp]: "index_set xs = [] \<longleftrightarrow> xs = []"
  by (simp add: index_set_def)

fun insert_children_to_common_set :: "expression \<Rightarrow> expression list" where
  "insert_children_to_common_set (Conjunction ConjAnd es) = es"
| "insert_children_to_common_set e = [e]"

definition common_exprs :: "expression list \<Rightarrow> expression list" where
  "common_exprs es =
     filter (\<lambda>x. \<forall>e \<in> set (tl es). x \<in> set (insert_children_to_common_set e))
       (index_set (insert_children_to_common_set (hd es)))"

text \<open>The remaining inputs of a conjunction: nothing, the only input, or a conjunction.\<close>

fun conjunction_of :: "conjunction_operator \<Rightarrow> expression list \<Rightarrow> expression list" where
  "conjunction_of op [] = []"
| "conjunction_of op [x] = [x]"
| "conjunction_of op xs = [Conjunction op xs]"

fun remove_common :: "expression list \<Rightarrow> expression \<Rightarrow> expression list" where
  "remove_common common (Conjunction ConjAnd es) = conjunction_of ConjAnd (filter (\<lambda>x. x \<notin> set common) es)"
| "remove_common common e = (if e \<in> set common then [] else [e])"

definition maybe_rewrite_or :: "expression list \<Rightarrow> (conjunction_operator \<times> expression list) result" where
  "maybe_rewrite_or es =
     (if es = [] then Inl (DbError ''Missing child expression for OR'')
      else let common = common_exprs es
           in if common = [] then Inr (ConjOr, es)
              else Inr (ConjAnd, common @ conjunction_of ConjOr (concat (map (remove_common common) es))))"

lemma conjunction_of_size: "size_list size (conjunction_of op xs) \<le> Suc (Suc (size_list size xs))"
  by (cases "(op, xs)" rule: conjunction_of.cases) auto

lemma conjunction_of_Nil [simp]: "conjunction_of op xs = [] \<longleftrightarrow> xs = []"
  by (cases "(op, xs)" rule: conjunction_of.cases) auto

lemma conjunction_of_ok: "\<forall>x \<in> set xs. conj_ok x \<Longrightarrow> \<forall>y \<in> set (conjunction_of op xs). conj_ok y"
  by (cases "(op, xs)" rule: conjunction_of.cases) auto

lemma conjunction_of_truth:
  assumes "xs \<noteq> []" and "\<forall>x \<in> set xs. has_truth rs x" and "\<forall>x \<in> set xs. conj_ok x"
  obtains y where "conjunction_of op xs = [y]" and "has_truth rs y" and "conj_ok y"
    and "truth_of rs y = connective op (truth_of rs ` set xs)"
proof (cases "length xs = 1")
  case True
  then obtain x where "xs = [x]" by (cases xs) auto
  then show ?thesis using that [of x] assms connective_singleton [of op "truth_of rs x"] by simp
next
  case False
  then have "conjunction_of op xs = [Conjunction op xs]"
    using assms(1) by (cases "(op, xs)" rule: conjunction_of.cases) simp_all
  then show ?thesis using that conjunction_truths [OF assms(1), of rs op] assms by auto
qed

subsection \<open>The rewritten disjuncts are smaller\<close>

lemma insert_children_cases:
  obtains (conj) es where "e = Conjunction ConjAnd es" "insert_children_to_common_set e = es"
    "\<And>common. remove_common common e = conjunction_of ConjAnd (filter (\<lambda>x. x \<notin> set common) es)"
  | (other) "insert_children_to_common_set e = [e]" "\<And>common. remove_common common e = (if e \<in> set common then [] else [e])"
  by (cases e rule: insert_children_to_common_set.cases) (auto intro: that)

lemma size_list_filter_less:
  "x \<in> set xs \<Longrightarrow> \<not> P x \<Longrightarrow> size_list size (filter P xs) < size_list size xs"
proof (induction xs)
  case (Cons y ys)
  have "size_list size (filter P ys) \<le> size_list size ys" by (induction ys) auto
  with Cons show ?case by auto
qed simp

lemma size_list_member: "x \<in> set xs \<Longrightarrow> size x < size_list size xs"
  by (induction xs) auto

lemma insert_children_size: "x \<in> set (insert_children_to_common_set e) \<Longrightarrow> size x \<le> size e"
  by (cases e rule: insert_children_cases) (auto dest: size_list_in)

lemma remove_common_size:
  assumes "c \<in> set common" and "c \<in> set (insert_children_to_common_set e)"
  shows "size_list size (remove_common common e) \<le> size e"
proof (cases e rule: insert_children_cases)
  case (conj es)
  have less: "size_list size (filter (\<lambda>x. x \<notin> set common) es) < size_list size es"
    using assms conj by (intro size_list_filter_less) auto
  from le_trans [OF conjunction_of_size] less show ?thesis using conj(1) by (simp add: conj(3))
qed (use assms in simp)

lemma remove_common_concat_size:
  assumes "es \<noteq> []" and "c \<in> set common" and "\<forall>e \<in> set es. c \<in> set (insert_children_to_common_set e)"
  shows "size_list size (concat (map (remove_common common) es)) < size_list size es"
  using assms
proof (induction es)
  case (Cons e es)
  have app: "size_list size (xs @ ys) = size_list size xs + size_list size ys" for xs ys :: "expression list"
    by (induction xs) auto
  have "size_list size (remove_common common e) \<le> size e" using Cons.prems by (intro remove_common_size) auto
  moreover have "size_list size (concat (map (remove_common common) es)) \<le> size_list size es"
    using Cons by (cases es) auto
  ultimately show ?case by (simp add: app)
qed simp

lemma common_exprs_in:
  "c \<in> set (common_exprs es) \<Longrightarrow> es \<noteq> [] \<Longrightarrow> e \<in> set es \<Longrightarrow> c \<in> set (insert_children_to_common_set e)"
  by (cases es) (auto simp: common_exprs_def)

lemma maybe_rewrite_or_size:
  assumes "maybe_rewrite_or es = Inr (op, es')" and "x \<in> set es'"
  shows "size x < size (Conjunction ConjOr es)"
proof (cases "common_exprs es = []")
  case True
  then show ?thesis using assms size_list_in [of x es] by (auto simp: maybe_rewrite_or_def split: if_splits)
next
  case False
  then obtain c where c: "c \<in> set (common_exprs es)" by (cases "common_exprs es") auto
  have ne: "es \<noteq> []" using assms(1) by (auto simp: maybe_rewrite_or_def)
  let ?rest = "concat (map (remove_common (common_exprs es)) es)"
  have rest: "size_list size ?rest < size_list size es"
    using remove_common_concat_size [OF ne c] common_exprs_in [OF c ne] by blast
  have common: "size y < Suc (size_list size es)" if "y \<in> set (common_exprs es)" for y
    using common_exprs_in [OF that ne, of "hd es"] insert_children_size [of y "hd es"] size_list_in [of "hd es" es] ne
    by simp
  have "size y < size_list size (conjunction_of ConjOr ?rest)" if "y \<in> set (conjunction_of ConjOr ?rest)" for y
    using that by (rule size_list_member)
  moreover have "es' = common_exprs es @ conjunction_of ConjOr ?rest"
    using assms(1) False ne by (simp add: maybe_rewrite_or_def Let_def)
  ultimately show ?thesis using assms(2) common rest conjunction_of_size [of ConjOr ?rest] by force
qed

function distributive_or :: "expression \<Rightarrow> expression result" where
  "distributive_or e =
     (case e of
        Conjunction ConjOr es \<Rightarrow>
          bind_result (maybe_rewrite_or es) (\<lambda>(op, es').
          bind_result (collect_results distributive_or es') (\<lambda>es''. Inr (Conjunction op es'')))
      | _ \<Rightarrow> try_map_children distributive_or e)"
  by pat_completeness auto
termination
proof (relation "measure size")
  fix e op es a op' es' x
  assume "e = Conjunction op es" "op = ConjOr" "maybe_rewrite_or es = Inr a" "(op', es') = a" "x \<in> set es'"
  then show "(x, e) \<in> measure size" using maybe_rewrite_or_size [of es op' es' x] by simp
qed (simp_all only: wf_measure in_measure, (erule children_size)+)

declare distributive_or.simps [simp del]

lemma distributive_or_Or:
  "distributive_or (Conjunction ConjOr es) =
     bind_result (maybe_rewrite_or es) (\<lambda>(op, es'). try_map_children distributive_or (Conjunction op es'))"
  by (subst distributive_or.simps) (simp add: try_map_children_def with_children_def)

lemma distributive_or_node:
  "(\<And>es. e \<noteq> Conjunction ConjOr es) \<Longrightarrow> distributive_or e = try_map_children distributive_or e"
  by (subst distributive_or.simps) (auto split: expression.splits conjunction_operator.splits)

subsection \<open>When the rewrite keeps the value\<close>

text \<open>
  Either no disjunct consists of common expressions only, or all do. The source drops a disjunct
  that does, which is right only if none is left.
\<close>

definition absorbs_evenly :: "expression list \<Rightarrow> bool" where
  "absorbs_evenly es \<longleftrightarrow>
     (\<forall>e \<in> set es. remove_common (common_exprs es) e = []) \<or> (\<forall>e \<in> set es. remove_common (common_exprs es) e \<noteq> [])"

lemma connective_distrib:
  assumes "E \<noteq> {}"
  shows "connective ConjOr ((\<lambda>e. connective ConjAnd (C \<union> D e)) ` E) =
    connective ConjAnd (insert (connective ConjOr ((\<lambda>e. connective ConjAnd (D e)) ` E)) C)"
  using assms by (auto split: if_splits)

lemma disjunct_truth:
  assumes "conj_ok e" and "has_truth rs e"
  shows "\<forall>x \<in> set (insert_children_to_common_set e). has_truth rs x"
    and "truth_of rs e = connective ConjAnd (truth_of rs ` set (insert_children_to_common_set e))"
proof -
  show "\<forall>x \<in> set (insert_children_to_common_set e). has_truth rs x"
    using assms conjunction_truths(1) [of _ rs ConjAnd] by (cases e rule: insert_children_cases) auto
  show "truth_of rs e = connective ConjAnd (truth_of rs ` set (insert_children_to_common_set e))"
    using assms conjunction_truths(2) [of _ rs ConjAnd] connective_singleton [of ConjAnd "truth_of rs e"]
    by (cases e rule: insert_children_cases) auto
qed

lemma remove_common_truth:
  assumes "conj_ok e" and "has_truth rs e" and "remove_common common e \<noteq> []"
  obtains x where "remove_common common e = [x]" and "has_truth rs x" and "conj_ok x"
    and "truth_of rs x = connective ConjAnd (truth_of rs ` (set (insert_children_to_common_set e) - set common))"
proof (cases e rule: insert_children_cases)
  case (conj es)
  let ?xs = "filter (\<lambda>x. x \<notin> set common) es"
  have xs: "set (insert_children_to_common_set e) - set common = set ?xs" using conj(2) by auto
  have t: "\<forall>x \<in> set ?xs. has_truth rs x" using disjunct_truth(1) [OF assms(1,2)] xs by blast
  have ok: "\<forall>x \<in> set ?xs. conj_ok x" using assms(1) conj(1) by simp
  have ne: "?xs \<noteq> []" using assms(3) conj(3) by simp
  show ?thesis
    using conjunction_of_truth [OF ne t ok, of ConjAnd] that unfolding xs conj(3) by blast
next
  case other
  then have "e \<notin> set common" "remove_common common e = [e]" using assms(3) by (auto split: if_splits)
  moreover from this have "set (insert_children_to_common_set e) - set common = {e}" using other(1) by auto
  ultimately show ?thesis
    using that [of e] assms(1,2) connective_singleton [of ConjAnd "truth_of rs e"] by simp
qed

lemma remove_common_empty: "remove_common common e = [] \<Longrightarrow> set (insert_children_to_common_set e) \<subseteq> set common"
  by (cases e rule: insert_children_cases) (auto simp: filter_empty_conv split: if_splits)

lemma insert_children_ok: "conj_ok e \<Longrightarrow> x \<in> set (insert_children_to_common_set e) \<Longrightarrow> conj_ok x"
  by (cases e rule: insert_children_cases) auto

lemma common_exprs_ok:
  assumes "es \<noteq> []" and "\<forall>e \<in> set es. conj_ok e" and "x \<in> set (common_exprs es)"
  shows "conj_ok x"
  using assms common_exprs_in [OF assms(3,1), of "hd es"] insert_children_ok [of "hd es" x] by simp

lemma remove_common_ok:
  assumes "conj_ok e" and "x \<in> set (remove_common common e)"
  shows "conj_ok x"
proof (cases e rule: insert_children_cases)
  case (conj es)
  have "\<forall>y \<in> set (filter (\<lambda>x. x \<notin> set common) es). conj_ok y" using assms(1) conj(1) by simp
  then show ?thesis using assms(2) conjunction_of_ok unfolding conj(3) by blast
next
  case other
  have "x = e" using assms(2) unfolding other(2) by (cases "e \<in> set common") simp_all
  then show ?thesis using assms(1) by simp
qed

lemma rewritten_or_ok:
  assumes "conj_ok (Conjunction ConjOr es)" and "maybe_rewrite_or es = Inr (op, es')"
  shows "conj_ok (Conjunction op es')"
proof (cases "common_exprs es = []")
  case True
  then show ?thesis using assms by (auto simp: maybe_rewrite_or_def)
next
  case False
  let ?rest = "concat (map (remove_common (common_exprs es)) es)"
  have es: "es \<noteq> []" "\<forall>e \<in> set es. conj_ok e" using assms(1) by simp_all
  have es': "es' = common_exprs es @ conjunction_of ConjOr ?rest"
    using assms(2) False es(1) by (simp add: maybe_rewrite_or_def Let_def)
  have "conj_ok x" if "x \<in> set ?rest" for x
  proof -
    obtain e where "e \<in> set es" "x \<in> set (remove_common (common_exprs es) e)" using \<open>x \<in> set ?rest\<close> by auto
    then show ?thesis using remove_common_ok es(2) by blast
  qed
  then have "\<forall>y \<in> set (conjunction_of ConjOr ?rest). conj_ok y" by (intro conjunction_of_ok) blast
  moreover have "\<forall>y \<in> set (common_exprs es). conj_ok y" using common_exprs_ok [OF es] by blast
  ultimately show ?thesis unfolding es' conj_ok_Conjunction set_append using False by blast
qed

text \<open>All disjuncts have truth values: the AND of the common expressions and the remaining OR.\<close>

lemma rewritten_or_truth:
  assumes es: "es \<noteq> []" "\<forall>e \<in> set es. conj_ok e" "\<forall>e \<in> set es. has_truth rs e"
    and common: "common_exprs es \<noteq> []" and even: "absorbs_evenly es"
    and run: "maybe_rewrite_or es = Inr (op, es')"
  shows "op = ConjAnd \<and> conj_ok (Conjunction op es') \<and> (\<forall>e \<in> set es'. has_truth rs e) \<and>
    connective op (truth_of rs ` set es') = connective ConjOr (truth_of rs ` set es)"
proof -
  let ?C = "common_exprs es" and ?ins = insert_children_to_common_set
  let ?rest = "concat (map (remove_common ?C) es)"
  have op: "op = ConjAnd" and es': "es' = ?C @ conjunction_of ConjOr ?rest"
    using run common es(1) by (simp_all add: maybe_rewrite_or_def Let_def)
  have sub: "set ?C \<subseteq> set (?ins e)" if "e \<in> set es" for e
    using common_exprs_in [OF _ es(1) that] by blast
  have C: "\<forall>x \<in> set ?C. has_truth rs x \<and> conj_ok x"
    using disjunct_truth(1) [of "hd es" rs] es sub [of "hd es"] common_exprs_ok [OF es(1,2)] by auto
  have val: "connective ConjOr (truth_of rs ` set es) =
      connective ConjOr ((\<lambda>e. connective ConjAnd (truth_of rs ` set (?ins e))) ` set es)"
    using disjunct_truth(2) [of _ rs] es(2,3) by (intro arg_cong [of _ _ "connective ConjOr"] image_cong) auto
  show ?thesis
  proof (cases "\<forall>e \<in> set es. remove_common ?C e = []")
    case True
    then have rest: "?rest = []" by (induction es) simp_all
    have "set (?ins e) = set ?C" if "e \<in> set es" for e using sub [OF that] remove_common_empty [of ?C e] True that by blast
    then have "(\<lambda>e. connective ConjAnd (truth_of rs ` set (?ins e))) ` set es = {connective ConjAnd (truth_of rs ` set ?C)}"
      using es(1) by (simp add: image_constant_conv del: connective.simps cong: image_cong)
    then show ?thesis using val connective_singleton C common op es' rest by (auto simp del: connective.simps)
  next
    case False
    then have keep: "remove_common ?C e \<noteq> []" if "e \<in> set es" for e
      using even that by (auto simp: absorbs_evenly_def)
    have "\<exists>x. remove_common ?C e = [x] \<and> has_truth rs x \<and> conj_ok x \<and>
        truth_of rs x = connective ConjAnd (truth_of rs ` (set (?ins e) - set ?C))" if "e \<in> set es" for e
      using remove_common_truth [of e rs ?C] es(2,3) keep [OF that] that by metis
    then obtain x where x: "\<And>e. e \<in> set es \<Longrightarrow> remove_common ?C e = [x e]"
        "\<And>e. e \<in> set es \<Longrightarrow> has_truth rs (x e)" "\<And>e. e \<in> set es \<Longrightarrow> conj_ok (x e)"
        "\<And>e. e \<in> set es \<Longrightarrow> truth_of rs (x e) = connective ConjAnd (truth_of rs ` (set (?ins e) - set ?C))"
      by metis
    have single: "map (remove_common ?C) es = map (\<lambda>e. [x e]) es" using x(1) by simp
    have rest: "?rest = map x es" unfolding single by simp
    obtain y where y: "conjunction_of ConjOr ?rest = [y]"
        "has_truth rs y" "conj_ok y" "truth_of rs y = connective ConjOr (truth_of rs ` set ?rest)"
      using conjunction_of_truth [of ?rest rs ConjOr] es(1) x(2,3) unfolding rest by auto
    have "truth_of rs ` set ?rest = (\<lambda>e. connective ConjAnd (truth_of rs ` (set (?ins e) - set ?C))) ` set es"
      using x(4) by (simp add: rest image_image cong: image_cong)
    moreover have "truth_of rs ` set (?ins e) = truth_of rs ` set ?C \<union> truth_of rs ` (set (?ins e) - set ?C)"
      if "e \<in> set es" for e using sub [OF that] by blast
    ultimately have "connective ConjOr (truth_of rs ` set es) = connective ConjAnd (insert (truth_of rs y) (truth_of rs ` set ?C))"
      unfolding val y(4)
      using connective_distrib [of "set es" "truth_of rs ` set ?C" "\<lambda>e. truth_of rs ` (set (?ins e) - set ?C)"] es(1)
      by (simp cong: image_cong del: connective.simps)
    then show ?thesis unfolding op es' y(1) using C y(2,3) by (auto simp del: connective.simps)
  qed
qed

lemma maybe_rewrite_or_sem:
  assumes ok: "conj_ok (Conjunction ConjOr es)" and even: "absorbs_evenly es"
    and run: "maybe_rewrite_or es = Inr (op, es')"
    and v: "sem rs (Conjunction ConjOr es) = Inr v"
  shows "sem rs (Conjunction op es') = Inr v"
proof -
  have es: "es \<noteq> []" "\<forall>e \<in> set es. conj_ok e" using ok by simp_all
  show ?thesis
  proof (cases "common_exprs es = []")
    case True
    then show ?thesis using run v es(1) by (simp add: maybe_rewrite_or_def)
  next
    case False
    show ?thesis
    proof (cases "has_truth rs (Conjunction ConjOr es)")
      case True
      then have t: "\<forall>e \<in> set es. has_truth rs e" using conjunction_truths(1) [OF es(1)] by blast
      note r = rewritten_or_truth [OF es t False even run]
      have "sem rs (Conjunction op es') = Inr (of_boolean (connective op (truth_of rs ` set es')))"
        using r by (intro sem_conjunction) simp_all
      also have "\<dots> = sem rs (Conjunction ConjOr es)" unfolding sem_conjunction [OF es(1) t] using r by metis
      finally show ?thesis using v by simp
    next
      case no_truth: False
      then obtain e where e: "es = [e]" using conjunction_truths(3) [OF es(1) _ v] by (cases es rule: remdups_adj.cases) auto
      then have ve: "sem rs e = Inr v" "\<not> has_truth rs e"
        using v no_truth sem_single_conjunction [of rs ConjOr e] conjunction_truths(1) [of "[e]" rs ConjOr] by auto
      show ?thesis
      proof (cases e rule: insert_children_cases)
        case (conj ys)
        then have "ys \<noteq> []" "length ys = 1" using ok e ve conjunction_truths(3) [of ys rs ConjAnd v] by auto
        then obtain y where "ys = [y]" by (cases ys) auto
        then show ?thesis using run ve(1) e conj sem_single_conjunction [of rs ConjAnd y]
          by (simp add: maybe_rewrite_or_def common_exprs_def index_set_def)
      next
        case other
        then show ?thesis using run ve(1) e sem_single_conjunction [of rs ConjAnd e]
          by (simp add: maybe_rewrite_or_def common_exprs_def index_set_def)
      qed
    qed
  qed
qed

function distributive_safe :: "expression \<Rightarrow> bool" where
  "distributive_safe e =
     (case e of
        Conjunction ConjOr es \<Rightarrow>
          absorbs_evenly es \<and>
          (case maybe_rewrite_or es of Inl _ \<Rightarrow> True | Inr r \<Rightarrow> list_all distributive_safe (snd r))
      | _ \<Rightarrow> list_all distributive_safe (children e))"
  by pat_completeness auto
termination
proof (relation "measure size")
  fix e op es r x
  assume "e = Conjunction op es" "op = ConjOr" "maybe_rewrite_or es = Inr r" "x \<in> set (snd r)"
  then show "(x, e) \<in> measure size" using maybe_rewrite_or_size [of es "fst r" "snd r" x] by simp
qed (simp_all only: wf_measure in_measure, (erule children_size)+)

declare distributive_safe.simps [simp del]

lemma distributive_safe_node:
  "(\<And>es. e \<noteq> Conjunction ConjOr es) \<Longrightarrow> distributive_safe e \<longleftrightarrow> list_all distributive_safe (children e)"
  by (subst distributive_safe.simps) (auto split: expression.splits conjunction_operator.splits)

lemma distributive_safe_Or:
  "maybe_rewrite_or es = Inr (op, es') \<Longrightarrow> distributive_safe (Conjunction ConjOr es) \<longleftrightarrow>
     absorbs_evenly es \<and> list_all distributive_safe es'"
  by (subst distributive_safe.simps) simp

lemma distributive_or_sound:
  "conj_ok e \<Longrightarrow> distributive_safe e \<Longrightarrow> distributive_or e = Inr e' \<Longrightarrow> conj_ok e' \<and> keeps rs e e'"
proof (induction e arbitrary: e' rule: measure_induct_rule [of size])
  case (less e)
  have step: "conj_ok e' \<and> keeps rs n e'"
    if run: "try_map_children distributive_or n = Inr e'" and ok: "conj_ok n"
      and c: "\<And>c. c \<in> set (children n) \<Longrightarrow> size c < size e" "list_all distributive_safe (children n)" for n
  proof -
    obtain g where g: "e' = map_children g n" "\<forall>c \<in> set (children n). distributive_or c = Inr (g c)"
      using try_map_children_eq_Inr [OF run] by blast
    have child: "conj_ok (g c)" "keeps rs c (g c)" if "c \<in> set (children n)" for c
      using less.IH [OF c(1) [OF that] conj_ok_children [OF ok that]] c(2) g(2) that by (auto simp: list_all_iff)
    show ?thesis unfolding g(1) using ok child by (auto intro!: conj_ok_map_children keeps_map_children)
  qed
  show ?case
  proof (cases "\<exists>es. e = Conjunction ConjOr es")
    case True
    then obtain es where e: "e = Conjunction ConjOr es" by blast
    then obtain op es' where r: "maybe_rewrite_or es = Inr (op, es')"
        "try_map_children distributive_or (Conjunction op es') = Inr e'"
      using less.prems(3) by (auto simp: distributive_or_Or bind_result_eq_Inr)
    have safe: "absorbs_evenly es" "list_all distributive_safe es'"
      using less.prems(2) distributive_safe_Or [OF r(1)] e by simp_all
    have "conj_ok e' \<and> keeps rs (Conjunction op es') e'"
      using step [OF r(2) rewritten_or_ok [OF _ r(1)]] less.prems(1) e maybe_rewrite_or_size [OF r(1)] safe(2) by simp
    moreover have "keeps rs e (Conjunction op es')"
      unfolding e using maybe_rewrite_or_sem [OF _ safe(1) r(1)] less.prems(1) e by (intro keeps_conjunction) blast
    ultimately show ?thesis using keeps_trans by blast
  next
    case False
    then show ?thesis
      using step [of e] less.prems distributive_or_node [of e] distributive_safe_node [of e] children_size by auto
  qed
qed

section \<open>Join filters\<close>

text \<open>
  The hash map of extracted expressions is an association list in insertion order, and \<open>iter\<close> is
  the unspecified order in which its entries are visited.
\<close>

type_synonym extracted = "(table_ref \<times> expression list) list"

fun entry_push :: "table_ref \<Rightarrow> expression \<Rightarrow> extracted \<Rightarrow> extracted" where
  "entry_push t e [] = [(t, [e])]"
| "entry_push t e ((t', es) # m) = (if t = t' then (t', es @ [e]) # m else (t', es) # entry_push t e m)"

definition extract_leaf :: "expression \<Rightarrow> extracted \<Rightarrow> extracted" where
  "extract_leaf e m =
     (let tables = get_table_references e
      in if card tables \<noteq> 1 then m else entry_push (the_elem tables) e m)"

function extract_and_exprs :: "expression \<Rightarrow> extracted \<Rightarrow> extracted" where
  "extract_and_exprs e m =
     (case e of
        Conjunction ConjAnd es \<Rightarrow> fold extract_and_exprs (children e) m
      | _ \<Rightarrow> extract_leaf e m)"
  by pat_completeness auto
termination by (relation "measure (\<lambda>(e, _). size e)", rule wf_measure, unfold in_measure prod.case, (erule children_size)+)

declare extract_and_exprs.simps [simp del]

definition references_both_sides :: "expression \<Rightarrow> bool" where
  "references_both_sides e =
     (case e of Conjunction ConjAnd es \<Rightarrow> card (get_table_references e) > 1 | _ \<Rightarrow> False)"

definition join_or_conjuncts :: "(extracted \<Rightarrow> extracted) \<Rightarrow> expression list \<Rightarrow> expression list" where
  "join_or_conjuncts iter es =
     (let extracted = map (\<lambda>e. extract_and_exprs e []) es;
          others = butlast extracted
      in concat (map (\<lambda>(t, exprs).
           if list_all (\<lambda>m. map_of m t \<noteq> None) others
           then [Conjunction ConjOr (concat (map (\<lambda>m. the (map_of m t)) others) @ exprs)]
           else []) (iter (last extracted))))"

definition join_rewrite_or ::
  "(extracted \<Rightarrow> extracted) \<Rightarrow> expression list \<Rightarrow> conjunction_operator \<times> expression list" where
  "join_rewrite_or iter es =
     (if \<not> list_ex references_both_sides es then (ConjOr, es)
      else (ConjAnd, join_or_conjuncts iter es @ [Conjunction ConjOr es]))"

function join_filter_or :: "(extracted \<Rightarrow> extracted) \<Rightarrow> expression \<Rightarrow> expression" where
  "join_filter_or iter e =
     (case e of
        Conjunction ConjOr es \<Rightarrow> (case join_rewrite_or iter es of (op, es') \<Rightarrow> Conjunction op es')
      | _ \<Rightarrow> map_children (join_filter_or iter) e)"
  by pat_completeness auto
termination by (relation "measure (\<lambda>(_, e). size e)", rule wf_measure, unfold in_measure prod.case, (erule children_size)+)

declare join_filter_or.simps [simp del]

subsection \<open>The added conjuncts are implied\<close>

lemma extract_and_exprs_leaves: "extract_and_exprs e m = fold extract_leaf (unnest_op ConjAnd e) m"
proof (induction e arbitrary: m rule: children_induct)
  case (node e)
  show ?case
  proof (cases "\<exists>es. e = Conjunction ConjAnd es")
    case True
    then obtain es where e: "e = Conjunction ConjAnd es" by blast
    have "fold extract_and_exprs es m = fold extract_leaf (concat (map (unnest_op ConjAnd) es)) m"
      if "set es \<subseteq> set (children e)" for es m
      using that node by (induction es arbitrary: m) simp_all
    from this [of es m] show ?thesis by (subst extract_and_exprs.simps) (simp add: e)
  next
    case False
    then have "unnest_op ConjAnd e = [e]" by (intro unnest_op_other) blast
    moreover have "extract_and_exprs e m = extract_leaf e m"
      using False by (subst extract_and_exprs.simps) (auto split: expression.splits conjunction_operator.splits)
    ultimately show ?thesis by simp
  qed
qed

lemma map_of_entry_push:
  "map_of (entry_push t e m) t' =
     (if t = t' then Some ((case map_of m t of None \<Rightarrow> [] | Some es \<Rightarrow> es) @ [e]) else map_of m t')"
  by (induction t e m rule: entry_push.induct) auto

lemma map_of_extract_leaf:
  "map_of (extract_leaf e m) t =
     (if get_table_references e = {t} then Some ((case map_of m t of None \<Rightarrow> [] | Some es \<Rightarrow> es) @ [e]) else map_of m t)"
proof (cases "card (get_table_references e) = 1")
  case True
  then obtain r where "get_table_references e = {r}" by (auto simp: card_1_singleton_iff)
  then show ?thesis by (simp add: extract_leaf_def map_of_entry_push)
qed (auto simp: extract_leaf_def)

lemma map_of_extracted:
  "map_of (fold extract_leaf xs m) t =
     (let ys = filter (\<lambda>x. get_table_references x = {t}) xs
      in if ys = [] then map_of m t else Some ((case map_of m t of None \<Rightarrow> [] | Some es \<Rightarrow> es) @ ys))"
  by (induction xs arbitrary: m) (auto simp: map_of_extract_leaf Let_def split: option.splits)

lemma entry_push_keys: "distinct (map fst m) \<Longrightarrow> distinct (map fst (entry_push t e m)) \<and> fst ` set (entry_push t e m) = insert t (fst ` set m)"
  by (induction t e m rule: entry_push.induct) auto

lemma extracted_distinct: "distinct (map fst m) \<Longrightarrow> distinct (map fst (fold extract_leaf xs m))"
  by (induction xs arbitrary: m) (auto simp: extract_leaf_def Let_def entry_push_keys)

lemma extracted_entry:
  assumes "(t, xs) \<in> set (extract_and_exprs e [])"
  shows "xs \<noteq> [] \<and> set xs \<subseteq> set (unnest_op ConjAnd e)"
proof -
  have "map_of (fold extract_leaf (unnest_op ConjAnd e) []) t = Some xs"
    using assms extracted_distinct [of "[]" "unnest_op ConjAnd e"] by (simp add: extract_and_exprs_leaves)
  then show ?thesis by (auto simp: map_of_extracted Let_def split: if_splits)
qed

text \<open>Every added conjunct is an OR of leaves with at least one leaf of every disjunct.\<close>

lemma join_or_conjunct:
  assumes iter: "\<And>m. set (iter m) \<subseteq> set m" and es: "es \<noteq> []" and x: "x \<in> set (join_or_conjuncts iter es)"
  obtains ys where "x = Conjunction ConjOr ys" and "ys \<noteq> []"
    and "\<forall>y \<in> set ys. \<exists>e \<in> set es. y \<in> set (unnest_op ConjAnd e)"
    and "\<forall>e \<in> set es. \<exists>y \<in> set ys. y \<in> set (unnest_op ConjAnd e)"
proof -
  let ?ex = "\<lambda>e. extract_and_exprs e []"
  let ?others = "map ?ex (butlast es)"
  obtain t exprs where entry: "(t, exprs) \<in> set (iter (?ex (last es)))"
      and others: "list_all (\<lambda>m. map_of m t \<noteq> None) ?others"
      and eq: "x = Conjunction ConjOr (concat (map (\<lambda>m. the (map_of m t)) ?others) @ exprs)"
    using x es by (auto simp: join_or_conjuncts_def last_map map_butlast Let_def comp_def split: if_splits)
  have last: "exprs \<noteq> []" "set exprs \<subseteq> set (unnest_op ConjAnd (last es))"
    using extracted_entry [of t exprs "last es"] entry iter by blast+
  have other: "\<exists>zs. map_of (?ex e) t = Some zs \<and> zs \<noteq> [] \<and> set zs \<subseteq> set (unnest_op ConjAnd e)"
    if e: "e \<in> set (butlast es)" for e
  proof -
    obtain zs where zs: "map_of (?ex e) t = Some zs" using others e by (auto simp: list_all_iff)
    then show ?thesis using extracted_entry [OF map_of_SomeD [OF zs]] by blast
  qed
  have split: "set es = insert (last es) (set (butlast es))"
    using es by (metis append_butlast_last_id list.simps(15) rotate1.simps(2) set_rotate1)
  let ?ys = "concat (map (\<lambda>m. the (map_of m t)) ?others) @ exprs"
  show ?thesis
  proof (rule that [of ?ys])
    show "x = Conjunction ConjOr ?ys" by (rule eq)
    show "?ys \<noteq> []" using last(1) by simp
    show "\<forall>y \<in> set ?ys. \<exists>e \<in> set es. y \<in> set (unnest_op ConjAnd e)"
      using last(2) other split by fastforce
    show "\<forall>e \<in> set es. \<exists>y \<in> set ?ys. y \<in> set (unnest_op ConjAnd e)"
    proof
      fix e assume "e \<in> set es"
      then consider "e = last es" | "e \<in> set (butlast es)" using split by blast
      then show "\<exists>y \<in> set ?ys. y \<in> set (unnest_op ConjAnd e)"
      proof cases
        case 1
        then show ?thesis using last hd_in_set [of exprs] unfolding set_append by blast
      next
        case 2
        then obtain zs where zs: "map_of (?ex e) t = Some zs" "zs \<noteq> []" "set zs \<subseteq> set (unnest_op ConjAnd e)"
          using other by blast
        have "\<exists>m \<in> set ?others. the (map_of m t) = zs" using zs(1) 2 by (intro bexI [of _ "?ex e"]) simp_all
        then have "set zs \<subseteq> set ?ys" by auto
        then show ?thesis using zs(2,3) hd_in_set [of zs] by blast
      qed
    qed
  qed
qed

lemma connective_None: "connective op S = None \<longleftrightarrow> None \<in> S"
  by (cases op) auto

lemma connective_And_True: "connective ConjAnd S = Some True \<longleftrightarrow> S \<subseteq> {Some True}"
proof
  assume "connective ConjAnd S = Some True"
  then have no: "None \<notin> S" "Some False \<notin> S" by (auto split: if_splits)
  show "S \<subseteq> {Some True}"
  proof
    fix x assume "x \<in> S"
    then have "x \<noteq> None" "x \<noteq> Some False" using no by metis+
    then show "x \<in> {Some True}" by (cases x) auto
  qed
qed auto

lemma connective_Or_True: "connective ConjOr S = Some True \<longleftrightarrow> None \<notin> S \<and> Some True \<in> S"
  by simp

lemma implied_conjuncts:
  assumes "\<And>x. x \<in> X \<Longrightarrow> b = Some True \<Longrightarrow> f x = Some True" and "\<And>x. x \<in> X \<Longrightarrow> b \<noteq> None \<Longrightarrow> f x \<noteq> None"
  shows "connective ConjAnd (insert b (f ` X)) = b"
proof (cases b)
  case (Some c)
  have "None \<notin> insert b (f ` X)" using Some assms(2) by force
  moreover have "Some False \<in> insert b (f ` X) \<longleftrightarrow> \<not> c" using Some assms(1) by (cases c) force+
  ultimately show ?thesis using Some by simp
qed simp

lemma join_or_truth:
  assumes iter: "\<And>m. set (iter m) \<subseteq> set m" and es: "es \<noteq> []" "\<forall>e \<in> set es. conj_ok e" "\<forall>e \<in> set es. has_truth rs e"
    and x: "x \<in> set (join_or_conjuncts iter es)"
  shows "has_truth rs x" and "conj_ok x"
    and "connective ConjOr (truth_of rs ` set es) = Some True \<Longrightarrow> truth_of rs x = Some True"
    and "connective ConjOr (truth_of rs ` set es) \<noteq> None \<Longrightarrow> truth_of rs x \<noteq> None"
proof -
  obtain ys where ys: "x = Conjunction ConjOr ys" "ys \<noteq> []"
      "\<forall>y \<in> set ys. \<exists>e \<in> set es. y \<in> set (unnest_op ConjAnd e)"
      "\<forall>e \<in> set es. \<exists>y \<in> set ys. y \<in> set (unnest_op ConjAnd e)"
    using join_or_conjunct [OF iter es(1) x] by blast
  have leaf: "has_truth rs y" "conj_ok y" if "e \<in> set es" "y \<in> set (unnest_op ConjAnd e)" for e y
    using that es unnest_op_truth [of e rs ConjAnd] unnest_op_ok [of e ConjAnd] by blast+
  have value_of: "truth_of rs e = connective ConjAnd (truth_of rs ` set (unnest_op ConjAnd e))" if "e \<in> set es" for e
    using that es unnest_op_truth [of e rs ConjAnd] by metis
  have t: "\<forall>y \<in> set ys. has_truth rs y" using ys(3) leaf(1) by blast
  show "has_truth rs x" unfolding ys(1) using conjunction_truths(1) [OF ys(2)] t by blast
  then have tx: "truth_of rs x = connective ConjOr (truth_of rs ` set ys)"
    unfolding ys(1) by (rule conjunction_truths(2) [OF ys(2)])
  show "conj_ok x" unfolding ys(1) using ys(2,3) leaf(2) by auto
  show no_null: "truth_of rs x \<noteq> None" if "connective ConjOr (truth_of rs ` set es) \<noteq> None"
  proof
    assume "truth_of rs x = None"
    then obtain y where y: "y \<in> set ys" "truth_of rs y = None" unfolding tx connective_None by auto
    then obtain e where e: "e \<in> set es" "y \<in> set (unnest_op ConjAnd e)" using ys(3) by blast
    then have "truth_of rs e = None" unfolding value_of [OF e(1)] connective_None using y(2) by force
    then have "connective ConjOr (truth_of rs ` set es) = None" unfolding connective_None using e(1) by force
    then show False using that by contradiction
  qed
  show "truth_of rs x = Some True" if true: "connective ConjOr (truth_of rs ` set es) = Some True"
  proof -
    obtain e where e: "e \<in> set es" "truth_of rs e = Some True" using true unfolding connective_Or_True by force
    then obtain y where y: "y \<in> set ys" "y \<in> set (unnest_op ConjAnd e)" using ys(4) by blast
    have "truth_of rs ` set (unnest_op ConjAnd e) \<subseteq> {Some True}"
      using value_of [OF e(1)] e(2) connective_And_True by metis
    then have "Some True \<in> truth_of rs ` set ys" using y by force
    moreover have "truth_of rs x \<noteq> None" by (rule no_null) (simp add: true del: connective.simps)
    then have "None \<notin> truth_of rs ` set ys" unfolding tx connective_None .
    ultimately show ?thesis unfolding tx connective_Or_True by blast
  qed
qed

text \<open>A disjunct without truth value is not looked at.\<close>

lemma extract_no_truth:
  "conj_ok e \<Longrightarrow> sem rs e = Inr v \<Longrightarrow> \<not> has_truth rs e \<Longrightarrow> card (get_table_references e) \<noteq> 1 \<Longrightarrow> extract_and_exprs e m = m"
proof (induction e arbitrary: m rule: children_induct)
  case (node e)
  show ?case
  proof (cases "\<exists>es. e = Conjunction ConjAnd es")
    case True
    then obtain es where e: "e = Conjunction ConjAnd es" by blast
    have ne: "es \<noteq> []" using node.prems(1) unfolding e by simp
    have "length es = 1"
      using conjunction_truths(3) [OF ne, of rs ConjAnd v] node.prems(2,3) unfolding e by metis
    then obtain y where y: "es = [y]" by (cases es) auto
    have s: "sem rs y = Inr v" using node.prems(2) sem_single_conjunction [of rs ConjAnd y] unfolding e y by metis
    have t: "\<not> has_truth rs y" using node.prems(3) conjunction_truths(1) [of "[y]" rs ConjAnd] unfolding e y by simp
    have r: "get_table_references e = get_table_references y"
      unfolding e y by (subst get_table_references_node) simp_all
    have "extract_and_exprs y m = m"
      by (rule node.IH [OF _ _ s t]) (use node.prems(1,4) r in \<open>simp_all add: e y\<close>)
    then show ?thesis by (subst extract_and_exprs.simps) (simp add: e y)
  next
    case False
    then have "extract_and_exprs e m = extract_leaf e m"
      by (subst extract_and_exprs.simps) (auto split: expression.splits conjunction_operator.splits)
    then show ?thesis using node.prems(4) by (simp add: extract_leaf_def)
  qed
qed

lemma join_rewrite_or_sound:
  assumes iter: "\<And>m. set (iter m) \<subseteq> set m" and ok: "conj_ok (Conjunction ConjOr es)"
    and run: "join_rewrite_or iter es = (op, es')"
  shows "sem rs (Conjunction ConjOr es) = Inr v \<Longrightarrow> sem rs (Conjunction op es') = Inr v"
proof (cases "list_ex references_both_sides es")
  case True
  assume v: "sem rs (Conjunction ConjOr es) = Inr v"
  have es: "es \<noteq> []" "\<forall>e \<in> set es. conj_ok e" using ok by simp_all
  let ?X = "join_or_conjuncts iter es"
  have r: "op = ConjAnd" "es' = ?X @ [Conjunction ConjOr es]" using run True by (simp_all add: join_rewrite_or_def)
  show ?thesis
  proof (cases "has_truth rs (Conjunction ConjOr es)")
    case True
    then have t: "\<forall>e \<in> set es. has_truth rs e" using conjunction_truths(1) [OF es(1)] by blast
    note x = join_or_truth [OF iter es t]
    let ?b = "truth_of rs (Conjunction ConjOr es)"
    have b: "?b = connective ConjOr (truth_of rs ` set es)" using True by (rule conjunction_truths(2) [OF es(1)])
    have "connective ConjAnd (insert ?b (truth_of rs ` set ?X)) = ?b"
      using x(3,4) b by (intro implied_conjuncts) (simp_all del: connective.simps)
    then have "connective ConjAnd (truth_of rs ` set es') = ?b" unfolding r(2) by (simp del: connective.simps)
    moreover have "\<forall>e \<in> set es'. has_truth rs e" unfolding r(2) using x(1) True by auto
    ultimately have "sem rs (Conjunction ConjAnd es') = Inr (of_boolean ?b)"
      using sem_conjunction [of es' rs ConjAnd] r(2) by (simp del: sem_simps connective.simps)
    then show ?thesis using sem_of_truth [OF True] v r(1) by (simp del: sem_simps)
  next
    case False
    then obtain e where e: "es = [e]"
      using conjunction_truths(3) [OF es(1) _ v] by (cases es rule: remdups_adj.cases) auto
    have ve: "sem rs e = Inr v" "\<not> has_truth rs e"
      using v False e sem_single_conjunction [of rs ConjOr e] conjunction_truths(1) [OF es(1), of rs ConjOr] by simp_all
    have "card (get_table_references e) \<noteq> 1"
      using \<open>list_ex references_both_sides es\<close> e by (auto simp: references_both_sides_def split: expression.splits conjunction_operator.splits)
    then have "extract_and_exprs e [] = []" using extract_no_truth [OF _ ve] es(2) e by simp
    then have "?X = []" using iter [of "[]"] e by (simp add: join_or_conjuncts_def)
    then show ?thesis using r v sem_single_conjunction [of rs ConjAnd "Conjunction ConjOr es"] by (simp del: sem_simps)
  qed
qed (use run in \<open>simp add: join_rewrite_or_def\<close>)

lemma join_filter_or_Or: "join_filter_or iter (Conjunction ConjOr es) = (case join_rewrite_or iter es of (op, es') \<Rightarrow> Conjunction op es')"
  by (subst join_filter_or.simps) simp

lemma join_filter_or_node:
  "(\<And>es. e \<noteq> Conjunction ConjOr es) \<Longrightarrow> join_filter_or iter e = map_children (join_filter_or iter) e"
  by (subst join_filter_or.simps) (auto split: expression.splits conjunction_operator.splits)

lemma join_filter_or_keeps:
  assumes iter: "\<And>m. set (iter m) \<subseteq> set m"
  shows "conj_ok e \<Longrightarrow> keeps rs e (join_filter_or iter e)"
proof (induction e rule: children_induct)
  case (node e)
  show ?case
  proof (cases "\<exists>es. e = Conjunction ConjOr es")
    case True
    then obtain es where e: "e = Conjunction ConjOr es" by blast
    obtain op es' where r: "join_rewrite_or iter es = (op, es')" by (cases "join_rewrite_or iter es")
    show ?thesis
      unfolding e join_filter_or_Or r prod.case
      using join_rewrite_or_sound [OF iter _ r] node.prems e by (intro keeps_conjunction) blast
  next
    case False
    then have "join_filter_or iter e = map_children (join_filter_or iter) e" by (intro join_filter_or_node) blast
    then show ?thesis using node conj_ok_children [OF node.prems] keeps_map_children by metis
  qed
qed

section \<open>LIKE\<close>

definition string_function :: "string \<Rightarrow> planned_function" where
  "string_function name = \<lparr>pf_name = name, pf_return_type = boolean_type, pf_volatility = Consistent\<rparr>"

definition like_call :: "expression \<Rightarrow> string \<Rightarrow> expression option" where
  "like_call input p =
     (if can_str_compare p then Some (Comparison CmpEq input (Literal (SvUtf8 p)))
      else if is_prefix_pattern p
      then Some (ScalarFunction (string_function ''starts_with'') [input, Literal (SvUtf8 (trim_matches percent p))])
      else if is_suffix_pattern p
      then Some (ScalarFunction (string_function ''ends_with'') [input, Literal (SvUtf8 (trim_matches percent p))])
      else if is_contains_pattern p
      then Some (ScalarFunction (string_function ''contains'') [input, Literal (SvUtf8 (trim_matches percent p))])
      else None)"

definition like_node :: "nat \<Rightarrow> eval_env \<Rightarrow> expression \<Rightarrow> expression list \<Rightarrow> expression result" where
  "like_node d env e inputs =
     bind_result (vec_get inputs 1) (\<lambda>pattern.
     if \<not> is_const_foldable pattern then Inr e
     else bind_result (maybe_fold d env pattern) (\<lambda>l.
          bind_result (try_into_scalar l) (\<lambda>v.
          bind_result (try_into_string v) (\<lambda>p.
          case like_call (inputs ! 0) p of None \<Rightarrow> Inr e | Some e' \<Rightarrow> Inr e'))))"

function like_rewrite :: "nat \<Rightarrow> eval_env \<Rightarrow> expression \<Rightarrow> expression result" where
  "like_rewrite d env e =
     (if (case e of ScalarFunction f inputs \<Rightarrow> pf_name f = ''like'' | _ \<Rightarrow> False)
      then like_node d env e (children e)
      else try_map_children (like_rewrite d env) e)"
  by pat_completeness auto
termination by (relation "measure (\<lambda>(_, _, e). size e)", rule wf_measure, unfold in_measure prod.case, (erule children_size)+)

declare like_rewrite.simps [simp del]

text \<open>The whole sequence of rules.\<close>

definition apply_rewrites :: "nat \<Rightarrow> eval_env \<Rightarrow> expression \<Rightarrow> expression result" where
  "apply_rewrites d env e =
     bind_result (like_rewrite d env e) (\<lambda>e.
     bind_result (maybe_fold d env e) (\<lambda>e.
     bind_result (Inr (unnest_conjunction e)) distributive_or))"

definition apply_rewrites_all :: "nat \<Rightarrow> eval_env \<Rightarrow> expression list \<Rightarrow> expression list result" where
  "apply_rewrites_all d env es = collect_results (apply_rewrites d env) es"

section \<open>Reordering predicates\<close>

definition expr_cost :: "expression \<Rightarrow> nat" where
  "expr_cost e =
     (case e of
        Literal _ \<Rightarrow> 0
      | Column _ \<Rightarrow> 1
      | Is _ _ \<Rightarrow> 2
      | Comparison op _ _ \<Rightarrow>
          (if op = CmpEq \<or> op = CmpIsNotDistinctFrom then 5
           else if op = CmpNotEq \<or> op = CmpIsDistinctFrom then 6 else 7)
      | _ \<Rightarrow> 50)"

text \<open>\<open>sort_by\<close> is the standard library's unstable sort, which leaves the order of equal elements open.\<close>

definition reorder_conj :: "((expression \<Rightarrow> nat) \<Rightarrow> expression list \<Rightarrow> expression list) \<Rightarrow> expression \<Rightarrow> expression" where
  "reorder_conj sort_by e = (case e of Conjunction op es \<Rightarrow> Conjunction op (sort_by expr_cost es) | _ \<Rightarrow> e)"

lemma conjunction_permuted:
  assumes "conj_ok (Conjunction op es)" and "mset es' = mset es" and "sem rs (Conjunction op es) = Inr v"
  shows "sem rs (Conjunction op es') = Inr v"
proof (cases "length es = 1")
  case True
  then obtain e where "es = [e]" by (cases es) auto
  then have "es' = [e]" using assms(2) by simp
  then show ?thesis using \<open>es = [e]\<close> assms(3) by simp
next
  case False
  have ne: "es \<noteq> []" "es' \<noteq> []" using assms(1,2) by auto
  have set: "set es' = set es" using assms(2) by (rule mset_eq_setD)
  have t: "\<forall>e \<in> set es. has_truth rs e"
    using conjunction_truths(1,3) [OF ne(1), of rs op] False assms(3) by blast
  then have "sem rs (Conjunction op es') = sem rs (Conjunction op es)"
    using sem_conjunction [OF ne(1)] sem_conjunction [OF ne(2), of rs op] unfolding set by metis
  then show ?thesis using assms(3) by simp
qed

section \<open>LIKE keeps the value\<close>

text \<open>
  A LIKE call as the binder builds it, on a string input, and its safety on the given row: if the
  pattern is constant it has no escape character, and the string has no line feed.
\<close>

definition like_inputs_safe :: "row_semantics \<Rightarrow> planned_function \<Rightarrow> expression list \<Rightarrow> bool" where
  "like_inputs_safe rs f inputs \<longleftrightarrow>
     pf_return_type f = boolean_type \<and>
     (\<exists>input pattern. inputs = [input, pattern] \<and> expr_datatype input = Inr (new_primitive Utf8T) \<and>
        (\<forall>p. is_const_foldable pattern \<longrightarrow> sem rs pattern = Inr (SvUtf8 p) \<longrightarrow>
           backslash \<notin> set p \<and> (\<forall>s. sem rs input = Inr (SvUtf8 s) \<longrightarrow> newline \<notin> set s)))"

function like_safe :: "row_semantics \<Rightarrow> expression \<Rightarrow> bool" where
  "like_safe rs e \<longleftrightarrow>
     (if (case e of ScalarFunction f inputs \<Rightarrow> pf_name f = ''like'' | _ \<Rightarrow> False)
      then (case e of ScalarFunction f inputs \<Rightarrow> like_inputs_safe rs f inputs | _ \<Rightarrow> False)
      else list_all (like_safe rs) (children e))"
  by pat_completeness auto
termination by (relation "measure (\<lambda>(_, e). size e)", rule wf_measure, unfold in_measure prod.case, (erule children_size)+)

declare like_safe.simps [simp del]

text \<open>The string tests on a row with a known pattern.\<close>

lemma string_row_pattern:
  "string_row test [SvNull, SvUtf8 p] = Inr SvNull"
  "string_row test [SvUtf8 s, SvUtf8 p] = bind_result (test s p) (\<lambda>b. Inr (SvBoolean b))"
  "string_row test [u, SvUtf8 p] = Inr v \<Longrightarrow> u = SvNull \<or> (\<exists>s. u = SvUtf8 s)"
  by (auto simp: string_row_def split: scalar_value.splits)

lemma utf8_equality:
  assumes "expr_datatype input = Inr (new_primitive Utf8T)"
  shows "sem rs (Comparison CmpEq input (Literal (SvUtf8 p))) =
    bind_result (sem rs input) (\<lambda>u. string_row (\<lambda>l r. Inr (l = r)) [u, SvUtf8 p])"
  using assms
  by (simp add: operator_sem_def bind_operator_def find_operator_first comparison_functions_def flat2_def new_primitive_def
      call_execute_def eq_utf8_execute_def bind_result_assoc)

lemma like_call_value:
  assumes regex: "regex_matches (lib_escape (rs_lib rs)) (lib_regex_new (rs_lib rs))"
    and input: "expr_datatype input = Inr (new_primitive Utf8T)"
    and p: "backslash \<notin> set p" and call: "like_call input p = Some e'"
  shows "sem rs input = Inr SvNull \<Longrightarrow> sem rs e' = Inr SvNull"
    and "sem rs input = Inr (SvUtf8 s) \<Longrightarrow> newline \<notin> set s \<Longrightarrow>
      like (lib_escape (rs_lib rs)) (lib_regex_new (rs_lib rs)) s p = Inr b \<Longrightarrow> sem rs e' = Inr (SvBoolean b)"
proof -
  note defs = call_execute_def starts_with_execute_def ends_with_execute_def contains_execute_def string_function_def
    utf8_equality [OF input] string_row_pattern
  show "sem rs e' = Inr SvNull" if "sem rs input = Inr SvNull"
    using call that by (auto simp: like_call_def defs simp del: sem_simps(5) split: if_splits)
  show "sem rs e' = Inr (SvBoolean b)" if "sem rs input = Inr (SvUtf8 s)" "newline \<notin> set s"
      "like (lib_escape (rs_lib rs)) (lib_regex_new (rs_lib rs)) s p = Inr b"
    using call that like_rewrites [OF regex p that(2,3)]
    by (auto simp: like_call_def defs simp del: sem_simps(5) split: if_splits)
qed

lemma like_call_node: "like_call input p = Some e' \<Longrightarrow> expr_datatype e' = Inr boolean_type \<and> (\<forall>t x f. e' \<noteq> Cast t x f)"
  by (auto simp: like_call_def string_function_def split: if_splits)

lemma like_call_ok: "conj_ok input \<Longrightarrow> like_call input p = Some e' \<Longrightarrow> conj_ok e'"
  by (auto simp: like_call_def conj_ok.simps [of "Comparison _ _ _"] conj_ok.simps [of "ScalarFunction _ _"] split: if_splits)

lemma like_node_sound:
  assumes env: "env_lib env = rs_lib rs" "env_batch_size env = 1"
    and regex: "regex_matches (lib_escape (rs_lib rs)) (lib_regex_new (rs_lib rs))"
    and f: "pf_name f = ''like''" and safe: "like_inputs_safe rs f inputs"
    and ok: "conj_ok (ScalarFunction f inputs)"
    and run: "like_node d env (ScalarFunction f inputs) inputs = Inr e'"
  shows "conj_ok e' \<and> keeps rs (ScalarFunction f inputs) e'"
proof -
  obtain input pat where i: "inputs = [input, pat]" "expr_datatype input = Inr (new_primitive Utf8T)"
      "\<And>p. is_const_foldable pat \<Longrightarrow> sem rs pat = Inr (SvUtf8 p) \<Longrightarrow>
        backslash \<notin> set p \<and> (\<forall>s. sem rs input = Inr (SvUtf8 s) \<longrightarrow> newline \<notin> set s)"
    using safe unfolding like_inputs_safe_def by blast
  show ?thesis
  proof (cases "e' = ScalarFunction f inputs")
    case False
    then have const: "is_const_foldable pat" using run i(1) by (auto simp: like_node_def split: if_splits)
    obtain l w p where fold: "maybe_fold d env pat = Inr l" "try_into_scalar l = Inr w" "try_into_string w = Inr p"
        "like_call input p = Some e'"
      using run i(1) const False by (auto simp: like_node_def bind_result_eq_Inr split: option.splits)
    have "l = Literal (SvUtf8 p)" using fold(2,3) by (cases l; cases w) auto
    then have pat: "sem rs pat = Inr (SvUtf8 p)" using maybe_fold_literal [OF env const] fold(1) by simp
    have p: "backslash \<notin> set p" "sem rs input = Inr (SvUtf8 s) \<Longrightarrow> newline \<notin> set s" for s using i(3) [OF const pat] by blast+
    note call_value = like_call_value [OF regex i(2) p(1) fold(4)]
    have "sem rs e' = Inr v" if v: "sem rs (ScalarFunction f inputs) = Inr v" for v
    proof -
      obtain u where u: "sem rs input = Inr u" "like_execute (rs_lib rs) [u, SvUtf8 p] = Inr v"
        using v i(1) pat f by (auto simp: bind_result_eq_Inr call_execute_def)
      then consider "u = SvNull" | s where "u = SvUtf8 s"
        using string_row_pattern(3) [of _ u p v] by (auto simp: like_execute_def)
      then show ?thesis
        using u p(2) call_value by cases (auto simp: like_execute_def string_row_pattern bind_result_eq_Inr)
    qed
    moreover have "pf_return_type f = boolean_type" using safe by (simp add: like_inputs_safe_def)
    ultimately have "keeps rs (ScalarFunction f inputs) e'"
      using like_call_node [OF fold(4)] by (simp add: keeps_def refines_def same_cast_def)
    moreover have "conj_ok e'" using like_call_ok [OF _ fold(4)] ok i(1) by (simp add: conj_ok.simps [of "ScalarFunction _ _"])
    ultimately show ?thesis by blast
  qed (use ok in simp)
qed

lemma like_rewrite_sound:
  assumes env: "env_lib env = rs_lib rs" "env_batch_size env = 1"
    and regex: "regex_matches (lib_escape (rs_lib rs)) (lib_regex_new (rs_lib rs))"
  shows "conj_ok e \<Longrightarrow> like_safe rs e \<Longrightarrow> like_rewrite d env e = Inr e' \<Longrightarrow> conj_ok e' \<and> keeps rs e e'"
proof (induction e arbitrary: e' rule: children_induct)
  case (node e)
  let ?like = "case e of ScalarFunction f inputs \<Rightarrow> pf_name f = ''like'' | _ \<Rightarrow> False"
  show ?case
  proof (cases ?like)
    case True
    then obtain f inputs where e: "e = ScalarFunction f inputs" "pf_name f = ''like''" by (auto split: expression.splits)
    have "like_inputs_safe rs f inputs" "like_node d env e inputs = Inr e'"
      using node.prems(2,3) e
      by (simp_all add: like_safe.simps [of rs "ScalarFunction f inputs"] like_rewrite.simps [of d env "ScalarFunction f inputs"])
    then show ?thesis
      using like_node_sound [OF env regex e(2), of inputs d e'] node.prems(1) unfolding e(1) by blast
  next
    case False
    then have run: "try_map_children (like_rewrite d env) e = Inr e'" and safe: "list_all (like_safe rs) (children e)"
      using node.prems(2,3) by (simp_all add: like_safe.simps [of rs e] like_rewrite.simps [of d env e])
    obtain g where g: "e' = map_children g e" "\<forall>c \<in> set (children e). like_rewrite d env c = Inr (g c)"
      using try_map_children_eq_Inr [OF run] by blast
    have c: "conj_ok (g c)" "keeps rs c (g c)" if "c \<in> set (children e)" for c
      using node.IH [OF that conj_ok_children [OF node.prems(1) that]] g(2) safe that by (auto simp: list_all_iff)
    show ?thesis unfolding g(1) using node.prems(1) c by (auto intro!: conj_ok_map_children keeps_map_children)
  qed
qed

section \<open>Properties\<close>

lemma apply_rewrites_steps:
  assumes "apply_rewrites d env e = Inr e'"
  obtains e1 e2 where "like_rewrite d env e = Inr e1" "maybe_fold d env e1 = Inr e2" "distributive_or (unnest_conjunction e2) = Inr e'"
  using assms by (auto simp: apply_rewrites_def bind_result_eq_Inr)

text \<open>The conditions on the later rules, about the expressions that the earlier rules hand them.\<close>

definition rewrites_fold_safely :: "nat \<Rightarrow> eval_env \<Rightarrow> expression \<Rightarrow> bool" where
  "rewrites_fold_safely d env e = (case like_rewrite d env e of Inr e1 \<Rightarrow> fold_safe d env e1 | Inl _ \<Rightarrow> True)"

definition rewrites_absorb_evenly :: "nat \<Rightarrow> eval_env \<Rightarrow> expression \<Rightarrow> bool" where
  "rewrites_absorb_evenly d env e =
     (case bind_result (like_rewrite d env e) (maybe_fold d env) of
        Inr e2 \<Rightarrow> distributive_safe (unnest_conjunction e2)
      | Inl _ \<Rightarrow> True)"

text \<open>
  C4. The optimizer's expression rewrites keep the value of an expression: if LIKE rewriting, constant
  folding, unnesting and OR distribution all succeed and the original expression has a value on
  a row, the rewritten one has the same value. The conditions: no conjunction is empty; folding
  evaluates with the function library of the row, one row at a time; the \<open>regex\<close> crate matches the
  expressions LIKE builds as documented; the LIKE calls are well typed, constant patterns have
  no escape character and the strings matched against them no line feed; a folded value has the
  type of the expression it replaces, and no constant cast below an operator on decimals is
  folded; no OR absorbs some of its disjuncts only.
\<close>

theorem apply_rewrites_value:
  assumes "apply_rewrites d env e = Inr e'" and "sem rs e = Inr v" and "conj_ok e"
    and "env_lib env = rs_lib rs" and "env_batch_size env = 1"
    and "regex_matches (lib_escape (rs_lib rs)) (lib_regex_new (rs_lib rs))"
    and "like_safe rs e" and "rewrites_fold_safely d env e" and "rewrites_absorb_evenly d env e"
  shows "sem rs e' = Inr v"
proof -
  obtain e1 e2 where r: "like_rewrite d env e = Inr e1" "maybe_fold d env e1 = Inr e2"
      "distributive_or (unnest_conjunction e2) = Inr e'"
    using apply_rewrites_steps [OF assms(1)] .
  have e1: "conj_ok e1" "keeps rs e e1" using like_rewrite_sound [OF assms(4-6,3,7) r(1)] by blast+
  have "fold_safe d env e1" using assms(8) r(1) by (simp add: rewrites_fold_safely_def)
  then have e2: "conj_ok e2" "refines rs e1 e2" using maybe_fold_sound [OF assms(4,5) e1(1) _ r(2)] by blast+
  have e3: "conj_ok (unnest_conjunction e2)" "refines rs e2 (unnest_conjunction e2)"
    using unnest.rewrite_ok [OF e2(1) refl] unnest.rewrite_refines [OF e2(1) refl] by blast+
  have "distributive_safe (unnest_conjunction e2)" using assms(9) r(1,2) by (simp add: rewrites_absorb_evenly_def)
  then have "refines rs (unnest_conjunction e2) e'"
    using distributive_or_sound [OF e3(1) _ r(3)] keeps_refines by blast
  then have "refines rs e e'" using refines_trans keeps_refines e1(2) e2(2) e3(2) by meson
  then show ?thesis using assms(2) by (rule refines_value)
qed

text \<open>A library that compares integers, and a row with one string column.\<close>

definition string_library :: function_library where
  "string_library = \<lparr>lib_cast_sets = [],
     lib_execute = (\<lambda>f vs. case vs of
         [SvInt32 a, SvInt32 b] \<Rightarrow> Inr (SvBoolean (sint a < sint b))
       | _ \<Rightarrow> Inl (DbError ''invalid cast when trying to downcast array buffer'')),
     lib_cast = (\<lambda>c to v. Inr v), lib_escape = bracket_escape, lib_regex_new = bracket_new\<rparr>"

definition string_semantics :: "scalar_value \<Rightarrow> row_semantics" where
  "string_semantics v = \<lparr>rs_column = (\<lambda>c. Inr v), rs_lib = string_library\<rparr>"

definition string_env :: eval_env where
  "string_env = \<lparr>env_lib = string_library, env_batch_size = 1, env_stale = SvNull\<rparr>"

text \<open>\<open>name LIKE 'he%' AND 1 < 2\<close>, and the two predicates after rewriting.\<close>

definition name_column :: expression where
  "name_column = Column (ColumnExpr (ColumnReference 0 0) (new_primitive Utf8T))"

definition like_predicate :: expression where
  "like_predicate = ScalarFunction (string_function ''like'') [name_column, Literal (SvUtf8 ''he%'')]"

definition prefix_predicate :: expression where
  "prefix_predicate = ScalarFunction (string_function ''starts_with'') [name_column, Literal (SvUtf8 ''he'')]"

definition constant_predicate :: expression where
  "constant_predicate = Comparison CmpLt (Literal (SvInt32 1)) (Literal (SvInt32 2))"

lemma constant_predicate_bound:
  "bind_operator sets comparison_functions name [Literal (SvInt32 a), Literal (SvInt32 b)] =
     Inr (\<lparr>pf_name = name, pf_return_type = boolean_type, pf_volatility = Consistent\<rparr>,
          [Literal (SvInt32 a), Literal (SvInt32 b)])"
  by (simp add: bind_operator_def find_operator_first comparison_functions_def flat2_def new_primitive_def)

lemma predicates_foldable:
  "is_const_foldable (Literal (SvUtf8 s))" "\<not> is_const_foldable name_column" "\<not> is_const_foldable prefix_predicate"
  "is_const_foldable constant_predicate"
  by (simp_all add: name_column_def prefix_predicate_def constant_predicate_def is_const_foldable_def
      is_const_foldable_with_column_check.simps [of _ "ScalarFunction _ _"]
      is_const_foldable_with_column_check.simps [of _ "Comparison _ _ _"])

lemma constant_predicate_value: "bind_result (plan_scalar 3 string_library [] [] constant_predicate)
    (\<lambda>p. try_eval_constant string_env [p]) = Inr (SvBoolean True)"
  by (simp add: constant_predicate_def constant_predicate_bound numeral_3_eq_3 try_eval_constant_def eval_literal_def
      execute_rows_def reset_array_def string_env_def string_library_def call_execute_def)

lemma string_env_simps [simp]: "env_lib string_env = string_library" "env_batch_size string_env = 1"
  by (simp_all add: string_env_def)

lemma predicates_like:
  "like_rewrite 3 string_env like_predicate = Inr prefix_predicate"
  "like_rewrite 3 string_env constant_predicate = Inr constant_predicate"
proof -
  have "maybe_fold 3 string_env (Literal w) = Inr (Literal w)" for w by (simp add: maybe_fold.simps [of _ _ "Literal _"])
  then have "like_node 3 string_env like_predicate [name_column, Literal (SvUtf8 ''he%'')] = Inr prefix_predicate"
    using predicates_foldable(1) [of "''he%''"]
    by (simp add: like_node_def like_call_def can_str_compare_def is_prefix_pattern_def trim_matches_def prefix_predicate_def)
  then show "like_rewrite 3 string_env like_predicate = Inr prefix_predicate"
    by (simp add: like_predicate_def like_rewrite.simps [of _ _ "ScalarFunction _ _"] string_function_def)
  show "like_rewrite 3 string_env constant_predicate = Inr constant_predicate"
    by (simp add: constant_predicate_def like_rewrite.simps [of _ _ "Comparison _ _ _"] like_rewrite.simps [of _ _ "Literal _"]
        try_map_children_def with_children_def)
qed

lemma predicates_fold:
  "maybe_fold 3 string_env prefix_predicate = Inr prefix_predicate"
  "maybe_fold 3 string_env constant_predicate = Inr (Literal (SvBoolean True))"
  "fold_safe 3 string_env prefix_predicate" "fold_safe 3 string_env constant_predicate"
proof -
  have leaf: "maybe_fold 3 string_env name_column = Inr name_column" "maybe_fold 3 string_env (Literal w) = Inr (Literal w)"
      "fold_safe 3 string_env name_column" "fold_safe 3 string_env (Literal w)" for w
    using predicates_foldable(2)
    by (simp_all add: name_column_def maybe_fold.simps [of _ _ "Literal _"] maybe_fold.simps [of _ _ "Column _"]
        fold_safe.simps [of _ _ "Literal _"] fold_safe.simps [of _ _ "Column _"] try_map_children_def with_children_def binds_flat_def)
  show "maybe_fold 3 string_env prefix_predicate = Inr prefix_predicate" "fold_safe 3 string_env prefix_predicate"
    using leaf predicates_foldable(3)
    by (simp_all add: prefix_predicate_def maybe_fold.simps [of _ _ "ScalarFunction _ _"]
        fold_safe.simps [of _ _ "ScalarFunction _ _"] try_map_children_def with_children_def binds_flat_def)
  obtain p where "plan_scalar 3 string_library [] [] constant_predicate = Inr p" "try_eval_constant string_env [p] = Inr (SvBoolean True)"
    using constant_predicate_value by (auto simp: bind_result_eq_Inr)
  then show "maybe_fold 3 string_env constant_predicate = Inr (Literal (SvBoolean True))" "fold_safe 3 string_env constant_predicate"
    using predicates_foldable(4)
    by (simp_all add: constant_predicate_def maybe_fold.simps [of _ _ "Comparison _ _ _"] fold_safe.simps [of _ _ "Comparison _ _ _"])
qed

lemma predicates_unnest:
  "unnest_conjunction prefix_predicate = prefix_predicate" "unnest_op op prefix_predicate = [prefix_predicate]"
  "distributive_or prefix_predicate = Inr prefix_predicate" "distributive_safe prefix_predicate"
  by (simp_all add: prefix_predicate_def name_column_def unnest_conjunction.simps [of "ScalarFunction _ _"]
      unnest_conjunction.simps [of "Column _"] unnest_conjunction.simps [of "Literal _"] unnest_op.simps [of _ "ScalarFunction _ _"]
      distributive_or_node distributive_safe_node try_map_children_def with_children_def)

theorem apply_rewrites_value_witness:
  "let rs = string_semantics (SvUtf8 ''hello''); e = Conjunction ConjAnd [like_predicate, constant_predicate];
       e' = Conjunction ConjAnd [prefix_predicate, Literal (SvBoolean True)]
   in apply_rewrites 3 string_env e = Inr e' \<and> sem rs e = Inr (SvBoolean True) \<and> sem rs e' = Inr (SvBoolean True)"
proof -
  let ?rs = "string_semantics (SvUtf8 ''hello'')"
  let ?e = "Conjunction ConjAnd [like_predicate, constant_predicate]"
  let ?e1 = "Conjunction ConjAnd [prefix_predicate, constant_predicate]"
  let ?e2 = "Conjunction ConjAnd [prefix_predicate, Literal (SvBoolean True)]"
  have like: "like_rewrite 3 string_env ?e = Inr ?e1"
    using predicates_like by (simp add: like_rewrite.simps [of _ _ "Conjunction _ _"] try_map_children_def with_children_def)
  have "\<not> is_const_foldable ?e1"
    using predicates_foldable(3) by (simp add: is_const_foldable_def is_const_foldable_with_column_check.simps [of _ "Conjunction _ _"])
  then have fold: "maybe_fold 3 string_env ?e1 = Inr ?e2" "fold_safe 3 string_env ?e1"
    using predicates_fold by (simp_all add: maybe_fold.simps [of _ _ "Conjunction _ _"] fold_safe.simps [of _ _ "Conjunction _ _"]
        try_map_children_def with_children_def binds_flat_def)
  have lit: "unnest_conjunction (Literal w) = Literal w" "unnest_op ConjAnd (Literal w) = [Literal w]" for w
    by (simp_all add: unnest_conjunction.simps [of "Literal _"] unnest_op.simps [of _ "Literal _"])
  have unnest: "unnest_conjunction ?e2 = ?e2"
    using predicates_unnest(1,2) lit by (simp add: unnest_conjunction.simps [of "Conjunction _ _"])
  have dist: "distributive_or ?e2 = Inr ?e2" "distributive_safe ?e2"
    using predicates_unnest(3,4) by (simp_all add: distributive_or_node distributive_safe_node try_map_children_def with_children_def)
  have run: "apply_rewrites 3 string_env ?e = Inr ?e2" by (simp add: apply_rewrites_def like fold(1) unnest dist(1))
  have "sem ?rs like_predicate = Inr (SvBoolean True)" "sem ?rs constant_predicate = Inr (SvBoolean True)"
    by (simp_all add: like_predicate_def name_column_def constant_predicate_def string_semantics_def string_library_def
        string_function_def call_execute_def like_execute_def string_row_pattern bracket_like operator_sem_def
        constant_predicate_bound)
  then have sem: "sem ?rs ?e = Inr (SvBoolean True)" by (simp add: of_boolean_def)
  have "like_safe ?rs ?e"
    by (simp add: like_safe.simps [of _ "Conjunction _ _"] like_safe.simps [of _ "ScalarFunction _ _"]
        like_safe.simps [of _ "Comparison _ _ _"] like_safe.simps [of _ "Literal _"] like_predicate_def constant_predicate_def
        name_column_def string_function_def like_inputs_safe_def string_semantics_def)
  moreover have "conj_ok ?e"
    by (simp add: like_predicate_def name_column_def constant_predicate_def conj_ok.simps [of "ScalarFunction _ _"]
        conj_ok.simps [of "Column _"] conj_ok.simps [of "Comparison _ _ _"])
  ultimately have "sem ?rs ?e2 = Inr (SvBoolean True)"
    using like fold dist unnest
    by (intro apply_rewrites_value [OF run sem])
      (simp_all add: string_semantics_def string_library_def rewrites_fold_safely_def rewrites_absorb_evenly_def bracket_regex
        del: sem_simps)
  with run sem show ?thesis by (simp add: Let_def del: sem_simps)
qed

text \<open>
  C25. The OR distribution loses a disjunct that consists of common expressions only: \<open>a OR (a AND
  b)\<close> becomes \<open>a AND b\<close>, which is false where \<open>a\<close> is true and \<open>b\<close> is false, although
  the original is true there.
\<close>

theorem distributive_or_loses_disjunct:
  assumes "a \<noteq> b" and "rs_column rs (reference a) = Inr (SvBoolean True)"
    and "rs_column rs (reference b) = Inr (SvBoolean False)"
  shows "distributive_or (Conjunction ConjOr [Column a, Conjunction ConjAnd [Column a, Column b]]) =
           Inr (Conjunction ConjAnd [Column a, Column b]) \<and>
         sem rs (Conjunction ConjOr [Column a, Conjunction ConjAnd [Column a, Column b]]) = Inr (SvBoolean True) \<and>
         sem rs (Conjunction ConjAnd [Column a, Column b]) = Inr (SvBoolean False)"
  using assms
  by (simp add: distributive_or_Or maybe_rewrite_or_def common_exprs_def index_set_def try_map_children_def
      distributive_or_node with_children_def of_boolean_def)

theorem distributive_or_loses_disjunct_witness:
  "let rs = (identity_semantics (\<lambda>r. [SvBoolean True, SvBoolean False]));
       a = ColumnExpr (ColumnReference 0 0) boolean_type; b = ColumnExpr (ColumnReference 0 1) boolean_type
   in sem rs (Conjunction ConjOr [Column a, Conjunction ConjAnd [Column a, Column b]]) = Inr (SvBoolean True) \<and>
      sem rs (Conjunction ConjAnd [Column a, Column b]) = Inr (SvBoolean False)"
  using distributive_or_loses_disjunct [of "ColumnExpr (ColumnReference 0 0) boolean_type"
      "ColumnExpr (ColumnReference 0 1) boolean_type" "identity_semantics (\<lambda>r. [SvBoolean True, SvBoolean False])"]
  by (simp add: Let_def identity_semantics_def column_of_def)

text \<open>
  C6. Adding per-table conditions to a join filter keeps its value on every row, whatever order
  the hash map of conditions is visited in.
\<close>

theorem join_filter_or_value:
  assumes "\<And>m. set (iter m) \<subseteq> set m" and "conj_ok e" and "sem rs e = Inr v"
  shows "sem rs (join_filter_or iter e) = Inr v"
  using refines_value [OF keeps_refines [OF join_filter_or_keeps]] assms by blast

theorem join_filter_or_value_witness:
  "sem (identity_semantics (\<lambda>r. [SvBoolean (r = 0)]))
     (join_filter_or rev (Conjunction ConjOr
        [Conjunction ConjAnd [Column (ColumnExpr (ColumnReference 0 0) boolean_type), Column (ColumnExpr (ColumnReference 1 0) boolean_type)],
         Column (ColumnExpr (ColumnReference 0 0) boolean_type)])) = Inr (SvBoolean True)"
  by (rule join_filter_or_value)
    (simp_all add: identity_semantics_def column_of_def of_boolean_def conj_ok.simps [of "Column _"])

text \<open>
  Reordering a filter keeps its value on every row, whatever an unstable sort does with
  predicates of equal cost, and the result is ordered by cost.
\<close>

lemma reorder_conj_value:
  assumes "sorts sort_by" and "conj_ok e" and "sem rs e = Inr v"
  shows "sem rs (reorder_conj sort_by e) = Inr v \<and>
         (\<forall>op es. reorder_conj sort_by e = Conjunction op es \<longrightarrow> sorted (map expr_cost es))"
proof (cases e)
  case (Conjunction op es)
  have "mset (sort_by expr_cost es) = mset es" "sorted (map expr_cost (sort_by expr_cost es))"
    using assms(1) by (simp_all add: sorts_def)
  then show ?thesis
    using conjunction_permuted [of op es "sort_by expr_cost es" rs v] assms(2,3) Conjunction by (simp add: reorder_conj_def)
qed (use assms(3) in \<open>simp_all add: reorder_conj_def\<close>)

lemma reorder_conj_value_witness:
  "sem (identity_semantics (\<lambda>r. [SvBoolean True]))
     (reorder_conj sort_key (Conjunction ConjAnd
        [Column (ColumnExpr (ColumnReference 0 0) boolean_type), Literal (SvBoolean False)])) = Inr (SvBoolean False)"
  using reorder_conj_value [of sort_key "Conjunction ConjAnd
        [Column (ColumnExpr (ColumnReference 0 0) boolean_type), Literal (SvBoolean False)]"
      "identity_semantics (\<lambda>r. [SvBoolean True])" "SvBoolean False"]
  by (simp add: sorts_def identity_semantics_def column_of_def of_boolean_def conj_ok.simps [of "Column _"])

end
