(* ===== verification/Bit_Util.thy ===== *)
theory Bit_Util
  imports Prelude
begin

text \<open>
  Bit streams of the Parquet reader and writer (\<open>glaredb_ext_parquet/src/util/bit_util.rs\<close>
  and \<open>util/bit_pack.rs\<close>): the \<open>BitWriter\<close> and the \<open>BitReader\<close>, variable length
  integers with their zigzag form, and the unrolled \<open>unpack\<close> kernels behind
  \<open>BitReader::get_batch\<close>.

  A byte is an \<open>8 word\<close> and the 64-bit staging registers of both structs are \<open>64 word\<close>s.
  Offsets and lengths (\<open>usize\<close>, and the \<open>u8\<close> bit offset, which stays below 128) are
  naturals; a subtraction that would underflow and an index past the end are panics. A
  generic integer parameter \<open>T\<close> is a word type \<open>'a word\<close> of the same width.

  The specification is a list of bits, least significant first: a writer denotes the bits
  written so far, a reader the bits still to come.
\<close>

unbundle bit_operations_syntax

named_theorems stream_simps \<open>bits of words and byte strings\<close>

section \<open>Words, bytes and bits\<close>

type_synonym byte = "8 word"

type_synonym u64 = "64 word"

definition to_le_bytes :: "'a::len word \<Rightarrow> byte list" where
  "to_le_bytes v = map (\<lambda>i. ucast (drop_bit (8 * i) v)) [0..<LENGTH('a) div 8]"

fun from_le_bytes :: "byte list \<Rightarrow> 'a::len word" where
  "from_le_bytes [] = 0"
| "from_le_bytes (b # bs) = ucast b OR push_bit 8 (from_le_bytes bs)"

definition bits :: "nat \<Rightarrow> 'a::len word \<Rightarrow> bool list" where
  "bits n v = map (bit v) [0..<n]"

definition of_bits :: "bool list \<Rightarrow> 'a::len word" where
  "of_bits bl = horner_sum of_bool 2 bl"

definition stream :: "byte list \<Rightarrow> bool list" where
  "stream bs = concat (map (bits 8) bs)"

lemma length_bits [simp]: "length (bits n v) = n"
  by (simp add: bits_def)

lemma nth_bits [simp]: "i < n \<Longrightarrow> bits n v ! i = bit v i"
  by (simp add: bits_def)

lemma bits_0 [simp]: "bits 0 v = []"
  by (simp add: bits_def)

lemma length_to_le_bytes [simp]: "length (to_le_bytes (v :: 'a::len word)) = LENGTH('a) div 8"
  by (simp add: to_le_bytes_def)

lemma stream_simps_list [simp]:
  "stream [] = []" "stream (b # bs) = bits 8 b @ stream bs" "stream (bs @ cs) = stream bs @ stream cs"
  by (simp_all add: stream_def)

lemma length_stream [simp]: "length (stream bs) = 8 * length bs"
  by (induction bs) auto

lemma nth_stream: "i < 8 * length bs \<Longrightarrow> stream bs ! i = bit (bs ! (i div 8)) (i mod 8)"
proof (induction bs arbitrary: i)
  case (Cons b bs)
  show ?case
  proof (cases "i < 8")
    case False
    then obtain j where "i = j + 8" using le_Suc_ex [of 8 i] by (metis add.commute not_less)
    then show ?thesis using Cons by (simp add: nth_append div_add_self2)
  qed (simp add: nth_append)
qed simp

lemma drop_stream: "drop (8 * n) (stream bs) = stream (drop n bs)"
proof (induction bs arbitrary: n)
  case (Cons b bs)
  then show ?case by (cases n) (simp_all flip: drop_drop)
qed simp

lemma take_stream: "take (8 * n) (stream bs) = stream (take n bs)"
proof (induction bs arbitrary: n)
  case (Cons b bs)
  then show ?case by (cases n) simp_all
qed simp

lemma stream_inject: "stream bs = stream cs \<longleftrightarrow> bs = cs"
proof
  assume eq: "stream bs = stream cs"
  then have len: "length bs = length cs" by (metis length_stream mult_cancel1 zero_neq_numeral)
  show "bs = cs"
  proof (rule nth_equalityI [OF len], rule bit_word_eqI)
    fix i n assume "i < length bs" "n < LENGTH(8)"
    then show "bit (bs ! i) n = bit (cs ! i) n"
      using arg_cong [OF eq, of "\<lambda>s. s ! (8 * i + n)"] len by (simp add: nth_stream)
  qed
qed simp

lemma bit_of_bits [stream_simps]:
  "bit (of_bits bl :: 'a::len word) n \<longleftrightarrow> n < LENGTH('a) \<and> n < length bl \<and> bl ! n"
  by (auto simp: of_bits_def bit_horner_sum_bit_word_iff)

lemma of_bits_bits: "of_bits (bits n v) = take_bit n (v :: 'a::len word)"
  by (rule bit_word_eqI) (auto simp: stream_simps bit_simps)

lemma bits_of_bits: "length bl \<le> LENGTH('a) \<Longrightarrow> bits (length bl) (of_bits bl :: 'a::len word) = bl"
  by (rule nth_equalityI) (auto simp: stream_simps)

lemma bits_eqI:
  "length bl = n \<Longrightarrow> (\<And>i. i < n \<Longrightarrow> bl ! i \<longleftrightarrow> bit v i) \<Longrightarrow> bits n v = bl"
  by (rule nth_equalityI) auto

lemma bit_from_le_bytes [stream_simps]:
  "bit (from_le_bytes bs :: 'a::len word) n \<longleftrightarrow>
     n < LENGTH('a) \<and> n < 8 * length bs \<and> stream bs ! n"
proof (induction bs arbitrary: n)
  case (Cons b bs)
  have "\<not> bit b n" if "8 \<le> n" using that bit_imp_le_length [of b n] by auto
  then have "bit (from_le_bytes (b # bs) :: 'a word) n \<longleftrightarrow>
      n < LENGTH('a) \<and> (if n < 8 then bit b n else bit (from_le_bytes bs :: 'a word) (n - 8))"
    by (auto simp: bit_or_iff bit_push_bit_iff bit_ucast_iff dest: bit_imp_le_length)
  then show ?case by (cases "n < 8") (auto simp: Cons.IH nth_append)
qed simp

lemma from_le_bytes_of_bits: "from_le_bytes bs = of_bits (stream bs)"
  by (rule bit_word_eqI) (simp add: stream_simps)

lemma stream_to_le_bytes:
  assumes "8 dvd LENGTH('a)"
  shows "stream (to_le_bytes (v :: 'a::len word)) = bits LENGTH('a) v"
proof (rule nth_equalityI)
  have len: "8 * (LENGTH('a) div 8) = LENGTH('a)" using assms by simp
  then show "length (stream (to_le_bytes v)) = length (bits LENGTH('a) v)" by simp
  fix i assume "i < length (stream (to_le_bytes v))"
  then have i: "i < LENGTH('a)" using len by simp
  then have "i div 8 < LENGTH('a) div 8" using len by (metis less_mult_imp_div_less mult.commute)
  then show "stream (to_le_bytes v) ! i = bits LENGTH('a) v ! i"
    using i len by (simp add: nth_stream to_le_bytes_def bit_simps)
qed

lemma from_to_le_bytes:
  "8 dvd LENGTH('a) \<Longrightarrow> from_le_bytes (to_le_bytes (v :: 'a::len word)) = v"
  by (simp add: from_le_bytes_of_bits stream_to_le_bytes of_bits_bits)


section \<open>Helpers\<close>

definition ceil :: "nat \<Rightarrow> nat \<Rightarrow> nat" where
  "ceil a d = (a + d - 1) div d"

definition trailing_bits :: "u64 \<Rightarrow> nat \<Rightarrow> u64" where
  "trailing_bits v num_bits = (if 64 \<le> num_bits then v else v AND (push_bit num_bits 1 - 1))"

fun leading_zeros :: "nat \<Rightarrow> u64 \<Rightarrow> nat" where
  "leading_zeros 0 x = 64"
| "leading_zeros (Suc n) x = (if bit x n then 64 - Suc n else leading_zeros n x)"

definition num_required_bits :: "u64 \<Rightarrow> nat" where
  "num_required_bits x = 64 - leading_zeros 64 x"

definition get_bit :: "byte list \<Rightarrow> nat \<Rightarrow> bool result" where
  "get_bit data i =
     bind_result (vec_get data (drop_bit 3 i)) (\<lambda>b.
     bind_result (vec_get [1, 2, 4, 8, 16, 32, 64, 128] (i AND 7)) (\<lambda>m. Inr (b AND m \<noteq> 0)))"

definition checked_shr_or_zero :: "u64 \<Rightarrow> nat \<Rightarrow> u64" where
  "checked_shr_or_zero v n = (if n < 64 then drop_bit n v else 0)"

definition usize_sub :: "nat \<Rightarrow> nat \<Rightarrow> nat result" where
  "usize_sub a b =
     (if b \<le> a then Inr (a - b) else Inl (Panic ''attempt to subtract with overflow''))"

lemma usize_sub_ok [simp]: "b \<le> a \<Longrightarrow> usize_sub a b = Inr (a - b)"
  by (simp add: usize_sub_def)

lemma ceil_8: "ceil n 8 = (n + 7) div 8"
  by (simp add: ceil_def)

lemma ceil_mult_8 [simp]: "ceil (8 * n) 8 = n"
  by (simp add: ceil_def)

lemma trailing_bits_take_bit [simp]: "trailing_bits v n = take_bit n v"
proof (cases "64 \<le> n")
  case True
  then show ?thesis by (simp add: trailing_bits_def take_bit_word_eq_self)
next
  case False
  then show ?thesis by (simp add: trailing_bits_def take_bit_eq_mask mask_eq_exp_minus_1 push_bit_eq_mult)
qed

lemma checked_shr_or_zero_drop_bit [simp]: "checked_shr_or_zero v n = drop_bit n v"
  by (auto simp: checked_shr_or_zero_def intro!: bit_word_eqI simp: bit_simps dest: bit_imp_le_length)

lemma leading_zeros_bound: "n \<le> 64 \<Longrightarrow> 64 - n \<le> leading_zeros n x \<and> leading_zeros n x \<le> 64"
  by (induction n) (auto split: if_splits)

lemma leading_zeros_take_bit:
  "n \<le> 64 \<Longrightarrow> take_bit (64 - leading_zeros n x) x = take_bit n x"
proof (induction n)
  case (Suc n)
  show ?case
  proof (cases "bit x n")
    case False
    then have "take_bit (Suc n) x = take_bit n x"
      by (intro bit_word_eqI) (auto simp: bit_simps less_Suc_eq)
    then show ?thesis using Suc False by simp
  qed (use Suc.prems in simp)
qed simp

lemma num_required_bits_le [simp]: "num_required_bits x \<le> 64"
  by (simp add: num_required_bits_def)

lemma take_bit_num_required_bits: "take_bit (num_required_bits x) x = x"
  using leading_zeros_take_bit [of 64 x] by (simp add: num_required_bits_def take_bit_word_eq_self)

lemma take_bit_self_iff: "take_bit n (v :: 'a::len word) = v \<longleftrightarrow> drop_bit n v = 0"
  by (metis add.right_neutral drop_bit_take_bit bits_ident diff_self_eq_0 push_bit_0_id
      push_bit_of_0 take_bit_0 add.commute)

lemma take_bit_num_required_bits_le:
  assumes "v \<le> x"
  shows "take_bit (num_required_bits x) v = v"
proof -
  have "unat v < 2 ^ num_required_bits x"
    using assms take_bit_num_required_bits [of x]
    by (metis le_less_trans take_bit_nat_eq_self_iff unsigned_take_bit_eq word_le_nat_alt)
  then show ?thesis
    by (metis take_bit_nat_eq_self_iff unsigned_take_bit_eq word_unat_eq_iff)
qed

section \<open>The bit writer\<close>

record bit_writer =
  bw_buffer :: "byte list"
  bw_values :: u64
  bw_offset :: nat

definition bit_writer_from_buf :: "byte list \<Rightarrow> bit_writer" where
  "bit_writer_from_buf buffer = \<lparr>bw_buffer = buffer, bw_values = 0, bw_offset = 0\<rparr>"

definition bit_writer_new :: "nat \<Rightarrow> bit_writer" where
  "bit_writer_new initial_capacity = \<lparr>bw_buffer = [], bw_values = 0, bw_offset = 0\<rparr>"

definition bw_flush :: "bit_writer \<Rightarrow> bit_writer" where
  "bw_flush w =
     (let num_bytes = ceil (bw_offset w) 8 in
      w\<lparr>bw_buffer := bw_buffer w @ take num_bytes (to_le_bytes (bw_values w)),
        bw_values := 0, bw_offset := 0\<rparr>)"

definition bw_consume :: "bit_writer \<Rightarrow> byte list" where
  "bw_consume w = bw_buffer (bw_flush w)"

definition bw_flush_buffer :: "bit_writer \<Rightarrow> byte list \<times> bit_writer" where
  "bw_flush_buffer w = (bw_buffer (bw_flush w), bw_flush w)"

definition bw_clear :: "bit_writer \<Rightarrow> bit_writer" where
  "bw_clear w = w\<lparr>bw_buffer := [], bw_values := 0, bw_offset := 0\<rparr>"

definition bw_skip :: "nat \<Rightarrow> bit_writer \<Rightarrow> nat \<times> bit_writer" where
  "bw_skip num_bytes w =
     (let w = bw_flush w; position = length (bw_buffer w) in
      (position, w\<lparr>bw_buffer := bw_buffer w @ replicate num_bytes 0\<rparr>))"

definition get_next_byte_ptr :: "nat \<Rightarrow> bit_writer \<Rightarrow> byte list \<times> bit_writer" where
  "get_next_byte_ptr num_bytes w =
     (let (offset, w) = bw_skip num_bytes w in (take num_bytes (drop offset (bw_buffer w)), w))"

definition bytes_written :: "bit_writer \<Rightarrow> nat" where
  "bytes_written w = length (bw_buffer w) + ceil (bw_offset w) 8"

definition write_at :: "nat \<Rightarrow> byte \<Rightarrow> bit_writer \<Rightarrow> bit_writer result" where
  "write_at offset b w =
     bind_result (vec_set (bw_buffer w) offset b) (\<lambda>buffer. Inr (w\<lparr>bw_buffer := buffer\<rparr>))"

definition put_value :: "u64 \<Rightarrow> nat \<Rightarrow> bit_writer \<Rightarrow> bit_writer result" where
  "put_value v num_bits w =
     (if 64 < num_bits then Inl (Panic ''assertion failed: num_bits <= 64'')
      else if checked_shr_or_zero v num_bits \<noteq> 0 then Inl (Panic ''assertion failed: value too wide'')
      else
        let buffered = bw_values w OR push_bit (bw_offset w) v;
            bit_offset = bw_offset w + num_bits
        in Inr (if 64 \<le> bit_offset
                then
                  let remaining = bit_offset - 64
                  in w\<lparr>bw_buffer := bw_buffer w @ to_le_bytes buffered,
                       bw_offset := remaining,
                       bw_values := checked_shr_or_zero v (num_bits - remaining)\<rparr>
                else w\<lparr>bw_values := buffered, bw_offset := bit_offset\<rparr>))"

definition put_aligned :: "'a::len word \<Rightarrow> nat \<Rightarrow> bit_writer \<Rightarrow> bit_writer" where
  "put_aligned val num_bytes w =
     (let w = bw_flush w; slice = to_le_bytes val; len = min num_bytes (length slice)
      in w\<lparr>bw_buffer := bw_buffer w @ take len slice\<rparr>)"

definition put_aligned_offset ::
    "'a::len word \<Rightarrow> nat \<Rightarrow> nat \<Rightarrow> bit_writer \<Rightarrow> bit_writer result" where
  "put_aligned_offset val num_bytes offset w =
     (let slice = to_le_bytes val; len = min num_bytes (length slice)
      in if offset + len \<le> length (bw_buffer w)
         then Inr (w\<lparr>bw_buffer := take offset (bw_buffer w) @ take len slice
                                 @ drop (offset + len) (bw_buffer w)\<rparr>)
         else Inl (Panic ''range end index out of range for slice''))"

function put_vlq_int :: "u64 \<Rightarrow> bit_writer \<Rightarrow> bit_writer" where
  "put_vlq_int v w =
     (if v AND 0xFFFFFFFFFFFFFF80 \<noteq> 0
      then put_vlq_int (drop_bit 7 v) (put_aligned (ucast (v AND 0x7F OR 0x80) :: byte) 1 w)
      else put_aligned (ucast (v AND 0x7F) :: byte) 1 w)"
  by pat_completeness auto

lemma drop_bit_7_decreases: "v AND 0xFFFFFFFFFFFFFF80 \<noteq> 0 \<Longrightarrow> unat (drop_bit 7 (v :: u64)) < unat v"
proof -
  assume "v AND 0xFFFFFFFFFFFFFF80 \<noteq> 0"
  then have "v \<noteq> 0" by auto
  then have "0 < unat v" by (simp add: unat_gt_0)
  then show ?thesis unfolding unat_drop_bit_eq by (simp add: drop_bit_eq_div)
qed

termination put_vlq_int
  by (relation "measure (\<lambda>(v, w). unat v)") (auto simp: drop_bit_7_decreases)

declare put_vlq_int.simps [simp del]

definition zigzag_encode :: "u64 \<Rightarrow> u64" where
  "zigzag_encode n = push_bit 1 n XOR signed_drop_bit 63 n"

definition zigzag_decode :: "u64 \<Rightarrow> u64" where
  "zigzag_decode n = drop_bit 1 n XOR (- (n AND 1))"

definition put_zigzag_vlq_int :: "u64 \<Rightarrow> bit_writer \<Rightarrow> bit_writer" where
  "put_zigzag_vlq_int v w = put_vlq_int (push_bit 1 v XOR signed_drop_bit 63 v) w"

subsection \<open>What a writer denotes\<close>

definition writer_ok :: "bit_writer \<Rightarrow> bool" where
  "writer_ok w \<longleftrightarrow> bw_offset w < 64 \<and> take_bit (bw_offset w) (bw_values w) = bw_values w"

definition writer_bits :: "bit_writer \<Rightarrow> bool list" where
  "writer_bits w = stream (bw_buffer w) @ bits (bw_offset w) (bw_values w)"

lemma writer_ok_from_buf [simp]: "writer_ok (bit_writer_from_buf buffer)"
  by (simp add: writer_ok_def bit_writer_from_buf_def)

lemma writer_bits_from_buf [simp]: "writer_bits (bit_writer_from_buf buffer) = stream buffer"
  by (simp add: writer_bits_def bit_writer_from_buf_def)

lemma writer_ok_bit: "writer_ok w \<Longrightarrow> bit (bw_values w) i \<Longrightarrow> i < bw_offset w"
  unfolding writer_ok_def by (metis bit_take_bit_iff)

lemma take_bit_bit: "take_bit k v = v \<Longrightarrow> bit v i \<Longrightarrow> i < k"
  by (metis bit_take_bit_iff)

lemma take_bit_selfI: "(\<And>i. bit v i \<Longrightarrow> i < k) \<Longrightarrow> take_bit k (v :: 'a::len word) = v"
  by (rule bit_word_eqI) (auto simp: bit_simps)

lemma put_value_no_spill:
  assumes ok: "writer_ok w" and k: "k \<le> 64" and v: "take_bit k v = v" and fits: "bw_offset w + k < 64"
  shows "put_value v k w = Inr (w\<lparr>bw_values := bw_values w OR push_bit (bw_offset w) v,
                                   bw_offset := bw_offset w + k\<rparr>)"
  using assms by (simp add: put_value_def take_bit_self_iff)

lemma put_value_spill:
  assumes ok: "writer_ok w" and k: "k \<le> 64" and v: "take_bit k v = v" and spill: "64 \<le> bw_offset w + k"
  shows "put_value v k w = Inr (w\<lparr>bw_buffer := bw_buffer w @
                                     to_le_bytes (bw_values w OR push_bit (bw_offset w) v),
                                   bw_offset := bw_offset w + k - 64,
                                   bw_values := drop_bit (64 - bw_offset w) v\<rparr>)"
proof -
  have "k - (bw_offset w + k - 64) = 64 - bw_offset w"
    using ok spill by (simp add: writer_ok_def)
  then show ?thesis using assms by (simp add: put_value_def take_bit_self_iff)
qed

lemma put_value_bits:
  assumes ok: "writer_ok w" and k: "k \<le> 64" and v: "take_bit k v = v"
  obtains w' where "put_value v k w = Inr w'" "writer_ok w'"
    "writer_bits w' = writer_bits w @ bits k v"
proof (cases "bw_offset w + k < 64")
  case True
  let ?w = "w\<lparr>bw_values := bw_values w OR push_bit (bw_offset w) v, bw_offset := bw_offset w + k\<rparr>"
  have "i < bw_offset w + k" if "bit (bw_values w OR push_bit (bw_offset w) v) i" for i
    using that writer_ok_bit [OF ok, of i] take_bit_bit [OF v, of "i - bw_offset w"]
    by (auto simp: bit_simps)
  then have "take_bit (bw_offset w + k) (bw_values w OR push_bit (bw_offset w) v) =
      bw_values w OR push_bit (bw_offset w) v" by (rule take_bit_selfI)
  then have "writer_ok ?w" using True by (simp add: writer_ok_def del: take_bit_or)
  moreover have "bits (bw_offset w + k) (bw_values w OR push_bit (bw_offset w) v) =
      bits (bw_offset w) (bw_values w) @ bits k v"
    using True by (intro bits_eqI) (auto simp: nth_append bit_simps dest: writer_ok_bit [OF ok])
  then have "writer_bits ?w = writer_bits w @ bits k v" by (simp add: writer_bits_def)
  ultimately show thesis using that put_value_no_spill [OF ok k v True] by blast
next
  case False
  let ?buffered = "bw_values w OR push_bit (bw_offset w) v"
  let ?w = "w\<lparr>bw_buffer := bw_buffer w @ to_le_bytes ?buffered,
              bw_offset := bw_offset w + k - 64, bw_values := drop_bit (64 - bw_offset w) v\<rparr>"
  have off: "bw_offset w < 64" using ok by (simp add: writer_ok_def)
  have "i < bw_offset w + k - 64" if "bit v (64 - bw_offset w + i)" for i
    using take_bit_bit [OF v that] off by linarith
  then have "writer_ok ?w"
    using off k unfolding writer_ok_def by (auto simp: bit_simps intro!: take_bit_selfI)
  moreover have "bits 64 ?buffered @ bits (bw_offset w + k - 64) (drop_bit (64 - bw_offset w) v) =
      bits (bw_offset w) (bw_values w) @ bits k v"
    using False off k
    by (intro nth_equalityI) (auto simp: nth_append bit_simps dest: writer_ok_bit [OF ok])
  then have "writer_bits ?w = writer_bits w @ bits k v"
    by (simp add: writer_bits_def stream_to_le_bytes)
  ultimately show thesis using that put_value_spill [OF ok k v] False by (meson not_less)
qed

lemma writer_ok_flush [simp]: "writer_ok (bw_flush w)"
  by (simp add: writer_ok_def bw_flush_def Let_def)

lemma bw_flush_offset [simp]: "bw_offset (bw_flush w) = 0" "bw_values (bw_flush w) = 0"
  by (simp_all add: bw_flush_def Let_def)

lemma writer_bits_flush:
  assumes ok: "writer_ok w"
  shows "writer_bits (bw_flush w) =
    writer_bits w @ replicate (8 * ceil (bw_offset w) 8 - bw_offset w) False"
proof -
  have le: "bw_offset w \<le> 8 * ceil (bw_offset w) 8" by (simp add: ceil_8)
  have "bw_offset w < 64" using ok by (simp add: writer_ok_def)
  then have "ceil (bw_offset w) 8 \<le> 8" unfolding ceil_8 by linarith
  then have "stream (take (ceil (bw_offset w) 8) (to_le_bytes (bw_values w))) =
      bits (bw_offset w) (bw_values w) @ replicate (8 * ceil (bw_offset w) 8 - bw_offset w) False"
    using le writer_ok_bit [OF ok]
    by (intro nth_equalityI)
       (auto simp: nth_append stream_to_le_bytes simp flip: take_stream)
  then show ?thesis by (simp add: writer_bits_def bw_flush_def Let_def)
qed

lemma bw_flush_aligned [simp]: "bw_offset w = 0 \<Longrightarrow> writer_ok w \<Longrightarrow> bw_flush w = w"
  by (cases w) (simp add: bw_flush_def writer_ok_def ceil_8)

text \<open>Every operation that writes whole bytes first pads the pending bits to a byte.\<close>

definition append_bytes :: "byte list \<Rightarrow> bit_writer \<Rightarrow> bit_writer" where
  "append_bytes bs w = (bw_flush w)\<lparr>bw_buffer := bw_buffer (bw_flush w) @ bs\<rparr>"

lemma append_bytes_flush [simp]: "append_bytes bs (bw_flush w) = append_bytes bs w"
  by (simp add: append_bytes_def)

lemma writer_ok_append_bytes [simp]: "writer_ok (append_bytes bs w)"
  by (simp add: append_bytes_def writer_ok_def)

lemma append_bytes_offset [simp]:
  "bw_offset (append_bytes bs w) = 0" "bw_values (append_bytes bs w) = 0"
  "bw_buffer (append_bytes bs w) = bw_buffer (bw_flush w) @ bs"
  by (simp_all add: append_bytes_def)

lemma append_bytes_append: "append_bytes bs (append_bytes cs w) = append_bytes (cs @ bs) w"
proof -
  have "bw_flush (append_bytes cs w) = append_bytes cs w" by simp
  then show ?thesis by (simp add: append_bytes_def)
qed

lemma put_aligned_append:
  "put_aligned val n w = append_bytes (take n (to_le_bytes val)) w"
  by (simp add: put_aligned_def append_bytes_def Let_def min_def)

lemma to_le_bytes_byte [simp]: "to_le_bytes (b :: byte) = [b]"
  by (simp add: to_le_bytes_def)

function vlq_bytes :: "u64 \<Rightarrow> byte list" where
  "vlq_bytes v = (if v AND 0xFFFFFFFFFFFFFF80 \<noteq> 0
                  then ucast (v AND 0x7F OR 0x80) # vlq_bytes (drop_bit 7 v)
                  else [ucast (v AND 0x7F)])"
  by pat_completeness auto
termination vlq_bytes by (relation "measure unat") (auto simp: drop_bit_7_decreases)

declare vlq_bytes.simps [simp del]

lemma put_vlq_int_append: "put_vlq_int v w = append_bytes (vlq_bytes v) w"
proof (induction v w rule: put_vlq_int.induct)
  case (1 v w)
  then show ?case
    by (simp add: put_vlq_int.simps [of v] vlq_bytes.simps [of v] put_aligned_append append_bytes_append)
qed

lemma bw_skip_append:
  "bw_skip n w = (length (bw_buffer (bw_flush w)), append_bytes (replicate n 0) w)"
  by (simp add: bw_skip_def append_bytes_def Let_def)

lemma bw_consume_bits:
  "writer_ok w \<Longrightarrow> stream (bw_consume w) =
     writer_bits w @ replicate (8 * ceil (bw_offset w) 8 - bw_offset w) False"
  using writer_bits_flush [of w] by (simp add: bw_consume_def writer_bits_def)

section \<open>The bit reader\<close>

record bit_reader =
  br_buffer :: "byte list"
  br_values :: u64
  br_byte :: nat
  br_bit :: nat

definition bit_reader_new :: "byte list \<Rightarrow> bit_reader" where
  "bit_reader_new buffer = \<lparr>br_buffer = buffer, br_values = 0, br_byte = 0, br_bit = 0\<rparr>"

definition br_reset :: "byte list \<Rightarrow> bit_reader \<Rightarrow> bit_reader" where
  "br_reset buffer r = r\<lparr>br_buffer := buffer, br_values := 0, br_byte := 0, br_bit := 0\<rparr>"

definition get_byte_offset :: "bit_reader \<Rightarrow> nat" where
  "get_byte_offset r = br_byte r + ceil (br_bit r) 8"

definition read_num_bytes :: "nat \<Rightarrow> byte list \<Rightarrow> 'a::len word result" where
  "read_num_bytes n src =
     (if length src < n then Inl (Panic ''assertion failed: size <= src.len()'')
      else if LENGTH('a) div 8 < n then Inl (Panic ''range end index out of range for slice'')
      else Inr (from_le_bytes (take n src)))"

definition load_buffered_values :: "bit_reader \<Rightarrow> bit_reader result" where
  "load_buffered_values r =
     bind_result (usize_sub (length (br_buffer r)) (br_byte r)) (\<lambda>available.
     bind_result (read_num_bytes (min available 8) (drop (br_byte r) (br_buffer r))) (\<lambda>v.
     Inr (r\<lparr>br_values := v\<rparr>)))"

definition get_value :: "nat \<Rightarrow> bit_reader \<Rightarrow> ('a::len word option \<times> bit_reader) result" where
  "get_value num_bits r =
     (if 64 < num_bits then Inl (Panic ''assertion failed: num_bits <= 64'')
      else if LENGTH('a) div 8 * 8 < num_bits then Inl (Panic ''assertion failed: num_bits <= size_of T'')
      else if br_byte r * 8 + br_bit r + num_bits > length (br_buffer r) * 8 then Inr (None, r)
      else
        bind_result (if br_bit r = 0 then load_buffered_values r else Inr r) (\<lambda>r.
        let v = drop_bit (br_bit r) (trailing_bits (br_values r) (br_bit r + num_bits));
            r = r\<lparr>br_bit := br_bit r + num_bits\<rparr>
        in bind_result
             (if 64 \<le> br_bit r
              then
                let r = r\<lparr>br_byte := br_byte r + 8, br_bit := br_bit r - 64\<rparr>
                in if br_bit r \<noteq> 0
                   then bind_result (load_buffered_values r) (\<lambda>r.
                     Inr (v OR push_bit ((num_bits - br_bit r) mod 64)
                                 (trailing_bits (br_values r) (br_bit r)), r))
                   else Inr (v, r)
              else Inr (v, r))
             (\<lambda>(v, r). Inr (Some (from_le_bytes (take (LENGTH('a) div 8) (to_le_bytes v))), r))))"

definition br_skip :: "nat \<Rightarrow> nat \<Rightarrow> bit_reader \<Rightarrow> (nat \<times> bit_reader) result" where
  "br_skip num_values num_bits r =
     (if 64 < num_bits then Inl (Panic ''assertion failed: num_bits <= 64'')
      else
        let needed_bits = num_bits * num_values in
        bind_result (usize_sub (length (br_buffer r)) (br_byte r)) (\<lambda>bytes.
        bind_result (usize_sub (bytes * 8) (br_bit r)) (\<lambda>remaining_bits.
        let values_to_read =
              (if remaining_bits < needed_bits then remaining_bits div num_bits else num_values);
            end_bit_offset = br_byte r * 8 + values_to_read * num_bits + br_bit r;
            r = r\<lparr>br_byte := end_bit_offset div 8, br_bit := end_bit_offset mod 8\<rparr>
        in bind_result (if br_bit r \<noteq> 0 then load_buffered_values r else Inr r) (\<lambda>r.
           Inr (values_to_read, r)))))"

definition get_aligned_bytes :: "nat \<Rightarrow> bit_reader \<Rightarrow> (byte list \<times> bit_reader) result" where
  "get_aligned_bytes num_bytes r =
     (let r = r\<lparr>br_byte := get_byte_offset r, br_bit := 0\<rparr>
      in if length (br_buffer r) < br_byte r
         then Inl (Panic ''range start index out of range for slice'')
         else
           let src = drop (br_byte r) (br_buffer r);
               to_read = min num_bytes (length src)
           in Inr (take to_read src, r\<lparr>br_byte := br_byte r + to_read\<rparr>))"

definition get_aligned :: "nat \<Rightarrow> bit_reader \<Rightarrow> ('a::len word option \<times> bit_reader) result" where
  "get_aligned num_bytes r =
     (let r = r\<lparr>br_byte := get_byte_offset r, br_bit := 0\<rparr>
      in if br_byte r + num_bytes > length (br_buffer r) then Inr (None, r)
         else
           bind_result (read_num_bytes num_bytes (drop (br_byte r) (br_buffer r))) (\<lambda>v.
           Inr (Some v, r\<lparr>br_byte := br_byte r + num_bytes\<rparr>)))"

definition MAX_VLQ_BYTE_LEN :: nat where
  "MAX_VLQ_BYTE_LEN = 10"

function get_vlq_loop :: "nat \<Rightarrow> u64 \<Rightarrow> bit_reader \<Rightarrow> (u64 option \<times> bit_reader) result" where
  "get_vlq_loop shift v r =
     bind_result (get_aligned 1 r) (\<lambda>(next_byte, r).
       case next_byte of
         None \<Rightarrow> Inr (None, r)
       | Some b \<Rightarrow>
           (let v = v OR push_bit shift (ucast (b AND 0x7F :: byte));
                shift' = shift + 7
            in if MAX_VLQ_BYTE_LEN * 7 < shift' then Inl (Panic ''Num of bytes exceed MAX_VLQ_BYTE_LEN'')
               else if b AND 0x80 = 0 then Inr (Some v, r)
               else get_vlq_loop shift' v r))"
  by pat_completeness auto
termination get_vlq_loop
  by (relation "measure (\<lambda>(shift, v, r). 70 - shift)") (auto simp: MAX_VLQ_BYTE_LEN_def)

declare get_vlq_loop.simps [simp del]

definition get_vlq_int :: "bit_reader \<Rightarrow> (u64 option \<times> bit_reader) result" where
  "get_vlq_int r = get_vlq_loop 0 0 r"

definition get_zigzag_vlq_int :: "bit_reader \<Rightarrow> (u64 option \<times> bit_reader) result" where
  "get_zigzag_vlq_int r =
     bind_result (get_vlq_int r) (\<lambda>(v, r).
     Inr (map_option (\<lambda>u. drop_bit 1 u XOR (- (u AND 1))) v, r))"

subsection \<open>What a reader denotes\<close>

definition reader_pos :: "bit_reader \<Rightarrow> nat" where
  "reader_pos r = 8 * br_byte r + br_bit r"

definition reader_bits :: "bit_reader \<Rightarrow> bool list" where
  "reader_bits r = drop (reader_pos r) (stream (br_buffer r))"

definition reader_ok :: "bit_reader \<Rightarrow> bool" where
  "reader_ok r \<longleftrightarrow> br_bit r < 64 \<and> reader_pos r \<le> 8 * length (br_buffer r)
     \<and> (br_bit r \<noteq> 0 \<longrightarrow> br_values r = of_bits (stream (drop (br_byte r) (br_buffer r))))"

lemma reader_ok_new [simp]: "reader_ok (bit_reader_new buffer)"
  by (simp add: reader_ok_def bit_reader_new_def reader_pos_def)

lemma reader_bits_new [simp]: "reader_bits (bit_reader_new buffer) = stream buffer"
  by (simp add: reader_bits_def bit_reader_new_def reader_pos_def)

lemma reader_bits_drop: "reader_bits r = drop (br_bit r) (stream (drop (br_byte r) (br_buffer r)))"
  by (simp add: reader_bits_def reader_pos_def add.commute flip: drop_stream)

lemma length_reader_bits: "length (reader_bits r) = 8 * length (br_buffer r) - reader_pos r"
  by (simp add: reader_bits_def)

lemma reader_fits:
  "reader_ok r \<Longrightarrow> n \<le> length (reader_bits r) \<longleftrightarrow> reader_pos r + n \<le> 8 * length (br_buffer r)"
  by (auto simp: length_reader_bits reader_ok_def)

lemma reader_pos_bits:
  "reader_ok r \<Longrightarrow> reader_ok r' \<Longrightarrow> br_buffer r' = br_buffer r
    \<Longrightarrow> length (reader_bits r') = length (reader_bits r) \<Longrightarrow> reader_pos r' = reader_pos r"
  unfolding length_reader_bits reader_ok_def by (metis diff_diff_cancel)

lemma of_bits_stream_take_8: "of_bits (stream (take 8 bs)) = (of_bits (stream bs) :: u64)"
  by (rule bit_word_eqI) (auto simp: stream_simps nth_take simp flip: take_stream)

lemma load_buffered_values_ok:
  assumes "br_byte r \<le> length (br_buffer r)"
  shows "load_buffered_values r =
    Inr (r\<lparr>br_values := of_bits (stream (drop (br_byte r) (br_buffer r)))\<rparr>)"
proof -
  have "take (min (length (br_buffer r) - br_byte r) 8) (drop (br_byte r) (br_buffer r)) =
      take 8 (drop (br_byte r) (br_buffer r))"
    by (cases "length (br_buffer r) - br_byte r \<le> 8") simp_all
  then show ?thesis
    using assms
    by (simp add: load_buffered_values_def read_num_bytes_def from_le_bytes_of_bits
        of_bits_stream_take_8)
qed

lemma chunk_within:
  "b + n \<le> 64 \<Longrightarrow> b + n \<le> length D \<Longrightarrow>
    drop_bit b (take_bit (b + n) (of_bits D :: u64)) = of_bits (take n (drop b D))"
  by (rule bit_word_eqI) (auto simp: stream_simps bit_simps)

lemma chunk_across:
  assumes "b < 64" "n \<le> 64" "64 < b + n" "b + n \<le> length D"
  shows "drop_bit b (take_bit (b + n) (of_bits D :: u64)) OR
      push_bit (64 - b) (take_bit (b + n - 64) (of_bits (drop 64 D))) = of_bits (take n (drop b D))"
  using assms by (intro bit_word_eqI) (auto simp: stream_simps bit_simps add.commute)

lemma low_bytes_of_bits:
  assumes "8 dvd LENGTH('a)" "LENGTH('a) \<le> 64"
  shows "from_le_bytes (take (LENGTH('a) div 8) (to_le_bytes (of_bits D :: u64))) =
    (of_bits D :: 'a::len word)"
proof -
  have "stream (take (LENGTH('a) div 8) (to_le_bytes (of_bits D :: u64))) =
      take LENGTH('a) (bits 64 (of_bits D :: u64))"
    using assms by (simp flip: take_stream add: stream_to_le_bytes)
  then show ?thesis
    using assms by (intro bit_word_eqI) (auto simp: from_le_bytes_of_bits stream_simps)
qed

definition int_type :: "'a::len itself \<Rightarrow> bool" where
  "int_type _ \<longleftrightarrow> 8 dvd LENGTH('a) \<and> LENGTH('a) \<le> 64"

lemma int_types [simp]:
  "int_type TYPE(8)" "int_type TYPE(16)" "int_type TYPE(32)" "int_type TYPE(64)"
  by (simp_all add: int_type_def)

lemma int_type_D: "int_type TYPE('a::len) \<Longrightarrow> 8 dvd LENGTH('a)" "int_type TYPE('a) \<Longrightarrow> LENGTH('a) \<le> 64"
  by (simp_all add: int_type_def)

lemma get_value_none:
  "reader_ok r \<Longrightarrow> n \<le> 64 \<Longrightarrow> int_type TYPE('a) \<Longrightarrow> n \<le> LENGTH('a::len)
    \<Longrightarrow> length (reader_bits r) < n
    \<Longrightarrow> (get_value n r :: ('a word option \<times> bit_reader) result) = Inr (None, r)"
  using reader_fits [of r n]
  by (simp add: get_value_def reader_pos_def int_type_def mult.commute)

lemma get_value_bits:
  assumes ok: "reader_ok r" and n: "n \<le> 64" "n \<le> LENGTH('a::len)" and ty: "int_type TYPE('a)"
    and fits: "n \<le> length (reader_bits r)"
  obtains r' where
    "get_value n r = Inr (Some (of_bits (take n (reader_bits r)) :: 'a word), r')"
    "reader_ok r'" "reader_bits r' = drop n (reader_bits r)" "br_buffer r' = br_buffer r"
proof -
  let ?D = "stream (drop (br_byte r) (br_buffer r))"
  let ?b = "br_bit r"
  have b: "?b < 64" and pos: "reader_pos r + n \<le> 8 * length (br_buffer r)"
    using ok fits reader_fits [OF ok] by (simp_all add: reader_ok_def)
  have len: "?b + n \<le> length ?D" using pos by (simp add: reader_pos_def)
  have byte: "br_byte r \<le> length (br_buffer r)" using pos by (simp add: reader_pos_def)
  have guard: "\<not> br_byte r * 8 + br_bit r + n > length (br_buffer r) * 8" "LENGTH('a) div 8 * 8 = LENGTH('a)"
    using pos ty by (simp_all add: reader_pos_def mult.commute int_type_def)
  define r1 where "r1 = r\<lparr>br_values := of_bits ?D\<rparr>"
  have load: "(if br_bit r = 0 then load_buffered_values r else Inr r) = Inr r1"
    using ok byte load_buffered_values_ok [OF byte] by (auto simp: r1_def reader_ok_def)
  have low: "from_le_bytes (take (LENGTH('a) div 8) (to_le_bytes (of_bits E :: u64))) =
      (of_bits E :: 'a word)" for E
    using low_bytes_of_bits int_type_D [OF ty] by blast
  show thesis
  proof (cases "?b + n < 64")
    case True
    let ?r = "r1\<lparr>br_bit := ?b + n\<rparr>"
    have "get_value n r = Inr (Some (of_bits (take n (drop ?b ?D)) :: 'a word), ?r)"
      using True guard n len by (simp add: get_value_def load Let_def r1_def low chunk_within)
    moreover have "reader_ok ?r" using True pos by (simp add: reader_ok_def reader_pos_def r1_def)
    ultimately show thesis
      using that by (simp add: reader_bits_drop r1_def add.commute)
  next
    case False
    let ?r = "r1\<lparr>br_byte := br_byte r + 8, br_bit := ?b + n - 64\<rparr>"
    let ?r' = "if ?b + n = 64 then ?r else ?r\<lparr>br_values := of_bits (stream (drop (br_byte r + 8) (br_buffer r)))\<rparr>"
    have D: "stream (drop (br_byte r + 8) (br_buffer r)) = drop 64 ?D"
      using drop_stream [of 8 "drop (br_byte r) (br_buffer r)"] by (simp add: add.commute)
    have byte8: "br_byte r + 8 \<le> length (br_buffer r)" using False len by simp
    have "get_value n r = Inr (Some (of_bits (take n (drop ?b ?D)) :: 'a word), ?r')"
    proof (cases "?b + n = 64")
      case True
      then show ?thesis
        using guard n len chunk_within [of ?b n ?D]
        by (simp add: get_value_def load Let_def r1_def low)
    next
      case 64: False
      then have "0 < ?b" using False n by simp
      then have vals: "br_values r = of_bits ?D" "r1 = r"
        using ok by (simp_all add: reader_ok_def r1_def)
      have "(n - (?b + n - 64)) mod 64 = 64 - ?b" using n b False \<open>0 < ?b\<close> by simp
      moreover have "load_buffered_values ?r = Inr ?r'"
        using byte8 64 by (simp add: load_buffered_values_ok r1_def)
      ultimately show ?thesis
        using guard n len False 64 b \<open>0 < ?b\<close> chunk_across [of ?b n ?D]
        by (simp add: get_value_def Let_def vals low D)
    qed
    moreover have "reader_ok ?r'"
      using False pos b n by (auto simp: reader_ok_def reader_pos_def r1_def)
    moreover have "reader_bits ?r' = drop n (drop ?b ?D)"
      using False by (auto simp: reader_bits_drop r1_def D add.commute)
    ultimately show thesis using that by (simp add: reader_bits_drop [of r] r1_def)
  qed
qed

section \<open>Sources of packed values\<close>

text \<open>
  Several readers of the crate hand out values packed at a given width: the \<open>BitReader\<close> and
  the cursor based \<open>bit_unpack\<close>. Their contract is one: the next \<open>n\<close> bits of the stream.
\<close>

fun read_values :: "(nat \<Rightarrow> 's \<Rightarrow> ('v \<times> 's) result) \<Rightarrow> nat list \<Rightarrow> 's \<Rightarrow> ('v list \<times> 's) result" where
  "read_values next [] s = Inr ([], s)"
| "read_values next (n # ns) s =
     bind_result (next n s) (\<lambda>(v, s).
     bind_result (read_values next ns s) (\<lambda>(vs, s). Inr (v # vs, s)))"

fun chunks :: "nat list \<Rightarrow> bool list \<Rightarrow> bool list list" where
  "chunks [] D = []"
| "chunks (n # ns) D = take n D # chunks ns (drop n D)"

lemma length_chunks [simp]: "length (chunks ns D) = length ns"
  by (induction ns arbitrary: D) simp_all

lemma chunks_append: "chunks (ms @ ns) D = chunks ms D @ chunks ns (drop (sum_list ms) D)"
  by (induction ms arbitrary: D) (simp_all add: add.commute)

lemma chunks_replicate:
  "chunks (replicate m n) D = map (\<lambda>i. take n (drop (i * n) D)) [0..<m]"
proof (induction m arbitrary: D)
  case (Suc m)
  have "map (\<lambda>i. take n (drop (i * n) D)) [0..<Suc m] =
      take n D # map (\<lambda>i. take n (drop (Suc i * n) D)) [0..<m]"
    by (simp add: upt_conv_Cons map_Suc_upt [symmetric] del: upt_Suc)
  then show ?case using Suc by (simp add: add.commute)
qed simp

lemma chunks_concat: "chunks (map length bls) (concat bls @ rest) = bls"
  by (induction bls) simp_all

locale bit_source =
  fixes source_ok :: "'s \<Rightarrow> bool"
    and source_bits :: "'s \<Rightarrow> bool list"
    and width_ok :: "nat \<Rightarrow> bool"
    and next_value :: "nat \<Rightarrow> 's \<Rightarrow> ('a::len word \<times> 's) result"
  assumes next_value_ok:
    "source_ok s \<Longrightarrow> width_ok n \<Longrightarrow> n \<le> length (source_bits s) \<Longrightarrow>
      \<exists>s'. next_value n s = Inr (of_bits (take n (source_bits s)), s')
        \<and> source_ok s' \<and> source_bits s' = drop n (source_bits s)"
begin

lemma read_values_chunks:
  "source_ok s \<Longrightarrow> (\<forall>n \<in> set ns. width_ok n) \<Longrightarrow> sum_list ns \<le> length (source_bits s) \<Longrightarrow>
    \<exists>s'. read_values next_value ns s = Inr (map of_bits (chunks ns (source_bits s)), s')
      \<and> source_ok s' \<and> source_bits s' = drop (sum_list ns) (source_bits s)"
proof (induction ns arbitrary: s)
  case (Cons n ns)
  then obtain s1 where s1: "next_value n s = Inr (of_bits (take n (source_bits s)), s1)"
      "source_ok s1" "source_bits s1 = drop n (source_bits s)"
    using next_value_ok [of s n] by auto
  then obtain s2 where "read_values next_value ns s1 = Inr (map of_bits (chunks ns (source_bits s1)), s2)"
      "source_ok s2" "source_bits s2 = drop (sum_list ns) (source_bits s1)"
    using Cons.IH [of s1] Cons.prems s1 by (metis add_le_imp_le_diff length_drop add.commute
        list.set_intros(2) sum_list.Cons)
  then show ?case using s1 by (simp add: add.commute)
qed simp

lemma read_values_packed:
  assumes "source_ok s" "source_bits s = concat (map (\<lambda>(v, n). bits n v) vns) @ rest"
    and "\<forall>(v, n) \<in> set vns. width_ok n \<and> take_bit n v = v"
  shows "\<exists>s'. read_values next_value (map snd vns) s = Inr (map fst vns, s')
      \<and> source_ok s' \<and> source_bits s' = rest"
proof -
  let ?bls = "map (\<lambda>(v, n). bits n v) vns"
  have lengths: "map snd vns = map length ?bls" by (auto simp: case_prod_beta)
  then have sum: "sum_list (map snd vns) = length (concat ?bls)"
    by (metis length_concat)
  have "chunks (map snd vns) (source_bits s) = ?bls"
    unfolding assms(2) lengths by (rule chunks_concat)
  moreover have "map of_bits ?bls = map fst vns"
    using assms(3) by (auto simp: of_bits_bits)
  ultimately have vals: "map of_bits (chunks (map snd vns) (source_bits s)) = map fst vns" by simp
  have "\<forall>n \<in> set (map snd vns). width_ok n" using assms(3) by auto
  moreover have "sum_list (map snd vns) \<le> length (source_bits s)" using sum by (simp add: assms(2))
  ultimately show ?thesis
    using read_values_chunks [OF assms(1), of "map snd vns"] unfolding vals sum by (simp add: assms(2))
qed

end

definition expect_value :: "nat \<Rightarrow> bit_reader \<Rightarrow> ('a::len word \<times> bit_reader) result" where
  "expect_value num_bits r =
     bind_result (get_value num_bits r) (\<lambda>(v, r).
       case v of None \<Rightarrow> Inl (Panic ''expected to have more data'') | Some v \<Rightarrow> Inr (v, r))"

lemma expect_value_bits:
  assumes "reader_ok r" "n \<le> 64" "n \<le> LENGTH('a::len)" "int_type TYPE('a)" "n \<le> length (reader_bits r)"
  obtains r' where
    "expect_value n r = Inr (of_bits (take n (reader_bits r)) :: 'a word, r')"
    "reader_ok r'" "reader_bits r' = drop n (reader_bits r)" "br_buffer r' = br_buffer r"
  using get_value_bits [OF assms] by (force simp: expect_value_def)

interpretation reader_source: bit_source reader_ok reader_bits
  "\<lambda>n. n \<le> 64 \<and> n \<le> LENGTH('a::len) \<and> int_type TYPE('a)"
  "expect_value :: nat \<Rightarrow> bit_reader \<Rightarrow> ('a word \<times> bit_reader) result"
proof unfold_locales
  fix r n assume r: "reader_ok r" and n: "n \<le> 64 \<and> n \<le> LENGTH('a) \<and> int_type TYPE('a)"
    and fits: "n \<le> length (reader_bits r)"
  from n have n': "n \<le> 64" "n \<le> LENGTH('a)" "int_type TYPE('a)" by blast+
  obtain r' where "expect_value n r = Inr (of_bits (take n (reader_bits r)) :: 'a word, r')"
      "reader_ok r'" "reader_bits r' = drop n (reader_bits r)"
    using expect_value_bits [OF r n' fits] .
  then show "\<exists>s'. (expect_value n r :: ('a word \<times> bit_reader) result) =
      Inr (of_bits (take n (reader_bits r)), s') \<and> reader_ok s' \<and> reader_bits s' = drop n (reader_bits r)"
    by blast
qed

lemma put_values_bits:
  assumes "writer_ok w" "\<forall>(v, n) \<in> set vns. n \<le> 64 \<and> take_bit n v = v"
  shows "\<exists>w'. fold_results (\<lambda>(v, n). put_value v n) vns w = Inr w' \<and> writer_ok w'
    \<and> writer_bits w' = writer_bits w @ concat (map (\<lambda>(v, n). bits n v) vns)"
  using assms
proof (induction vns arbitrary: w)
  case (Cons vn vns)
  obtain v n where vn: "vn = (v, n)" by fastforce
  obtain w1 where w1: "put_value v n w = Inr w1" "writer_ok w1" "writer_bits w1 = writer_bits w @ bits n v"
    using Cons.prems vn put_value_bits [of w n v] by auto
  then show ?case using Cons.IH [of w1] Cons.prems vn by auto
qed simp

section \<open>Variable length integers\<close>

lemma and_7F: "v AND 0x7F = take_bit 7 (v :: 'a::len word)"
  by (simp add: take_bit_eq_mask mask_eq_exp_minus_1)

lemma and_high_bits: "v AND 0xFFFFFFFFFFFFFF80 = 0 \<longleftrightarrow> drop_bit 7 (v :: u64) = 0"
proof -
  have "(0xFFFFFFFFFFFFFF80 :: u64) = NOT (mask 7)" by (simp add: mask_eq_exp_minus_1)
  moreover have "v AND NOT (mask 7) = push_bit 7 (drop_bit 7 v)"
    by (rule bit_word_eqI) (auto simp: bit_simps)
  moreover have "drop_bit 7 v = 0" if 0: "push_bit 7 (drop_bit 7 v) = 0"
  proof (rule bit_word_eqI)
    fix i assume "i < LENGTH(64)"
    show "bit (drop_bit 7 v) i = bit (0 :: u64) i"
      using arg_cong [OF 0, of "\<lambda>x. bit x (i + 7)"] bit_imp_le_length [of v "i + 7"]
      by (auto simp: bit_simps add.commute)
  qed
  ultimately show ?thesis by auto
qed

lemma bit_80: "bit (0x80 :: 'a::len word) n \<longleftrightarrow> n = 7 \<and> 7 < LENGTH('a)"
proof -
  have "(0x80 :: 'a word) = 2 ^ 7" by simp
  then show ?thesis by (auto simp only: bit_exp_iff possible_bit_word)
qed

lemma high_byte:
  "ucast ((ucast (v AND 0x7F OR 0x80) :: byte) AND 0x7F) = take_bit 7 (v :: u64)"
  "(ucast (v AND 0x7F OR 0x80) :: byte) AND 0x80 \<noteq> 0"
proof -
  show "ucast ((ucast (v AND 0x7F OR 0x80) :: byte) AND 0x7F) = take_bit 7 v"
    unfolding and_7F
    by (rule bit_word_eqI, simp only: bit_80 bit_take_bit_iff bit_or_iff bit_ucast_iff, auto)
  have "bit ((ucast (v AND 0x7F OR 0x80) :: byte) AND 0x80) 7"
    unfolding and_7F bit_and_iff bit_ucast_iff bit_or_iff bit_80 by simp
  then show "(ucast (v AND 0x7F OR 0x80) :: byte) AND 0x80 \<noteq> 0" by force
qed

lemma low_byte:
  "ucast ((ucast (v AND 0x7F) :: byte) AND 0x7F) = take_bit 7 (v :: u64)"
  "(ucast (v AND 0x7F) :: byte) AND 0x80 = 0"
proof -
  show "ucast ((ucast (v AND 0x7F) :: byte) AND 0x7F) = take_bit 7 v"
    unfolding and_7F by (rule bit_word_eqI) (auto simp: bit_simps)
  show "(ucast (v AND 0x7F) :: byte) AND 0x80 = 0"
    unfolding and_7F
    by (rule bit_word_eqI, simp only: bit_80 bit_take_bit_iff bit_and_iff bit_ucast_iff, auto)
qed

lemma septets:
  "(acc OR push_bit s (take_bit 7 v)) OR push_bit (s + 7) (drop_bit 7 v) = acc OR push_bit s (v :: u64)"
proof (rule bit_word_eqI)
  fix n
  have "7 + (n - (s + 7)) = n - s" if "\<not> n - s < 7" using that by simp
  then show "bit ((acc OR push_bit s (take_bit 7 v)) OR push_bit (s + 7) (drop_bit 7 v)) n =
      bit (acc OR push_bit s v) n"
    by (cases "n - s < 7") (auto simp: bit_simps)
qed

lemma take_bit_drop_7:
  assumes "take_bit (64 - s) v = v"
  shows "take_bit (64 - (s + 7)) (drop_bit 7 v) = drop_bit 7 (v :: u64)"
proof (rule take_bit_selfI)
  fix i assume "bit (drop_bit 7 v) i"
  then show "i < 64 - (s + 7)" using take_bit_bit [OF assms, of "7 + i"] by (simp add: bit_simps)
qed

lemma septet_room:
  assumes "take_bit (64 - s) v = v" "drop_bit 7 (v :: u64) \<noteq> 0"
  shows "s + 7 < 64"
proof -
  obtain i where "bit v (7 + i)" using assms(2) bit_eqI [of "drop_bit 7 v" 0] by (auto simp: bit_simps)
  then show ?thesis using take_bit_bit [OF assms(1)] by fastforce
qed

lemma take_bit_7_self: "drop_bit 7 (v :: u64) = 0 \<Longrightarrow> take_bit 7 v = v"
  by (simp add: take_bit_self_iff)

definition aligned_bytes :: "bit_reader \<Rightarrow> byte list" where
  "aligned_bytes r = drop (get_byte_offset r) (br_buffer r)"

lemma aligned_bytes_new [simp]: "aligned_bytes (bit_reader_new bs) = bs"
  by (simp add: aligned_bytes_def get_byte_offset_def bit_reader_new_def ceil_8)

lemma get_aligned_byte:
  assumes "aligned_bytes r = b # bs"
  obtains r' where "get_aligned 1 r = Inr (Some b, r')" "aligned_bytes r' = bs" "br_bit r' = 0"
    "br_buffer r' = br_buffer r"
proof
  let ?o = "get_byte_offset r"
  have "?o < length (br_buffer r)" and b: "br_buffer r ! ?o = b" and bs: "drop (Suc ?o) (br_buffer r) = bs"
    using assms unfolding aligned_bytes_def
    by (metis drop_all list.distinct(1) not_less, metis hd_drop_conv_nth drop_all list.distinct(1)
        list.sel(1) not_less, metis drop_Suc list.sel(3) tl_drop)
  then show "get_aligned 1 r = Inr (Some b, r\<lparr>br_byte := ?o + 1, br_bit := 0\<rparr>)"
    using assms
    by (simp add: get_aligned_def read_num_bytes_def aligned_bytes_def Let_def)
  show "aligned_bytes (r\<lparr>br_byte := ?o + 1, br_bit := 0\<rparr>) = bs"
    using bs by (simp add: aligned_bytes_def get_byte_offset_def [of "r\<lparr>br_byte := _, br_bit := 0\<rparr>"] ceil_8)
qed simp_all

lemma get_vlq_loop_bytes:
  "aligned_bytes r = vlq_bytes v @ rest \<Longrightarrow> take_bit (64 - s) v = v \<Longrightarrow> s < 64 \<Longrightarrow>
    \<exists>r'. get_vlq_loop s acc r = Inr (Some (acc OR push_bit s v), r')
      \<and> aligned_bytes r' = rest \<and> br_bit r' = 0 \<and> br_buffer r' = br_buffer r"
proof (induction v arbitrary: s acc r rule: vlq_bytes.induct)
  case (1 v)
  show ?case
  proof (cases "drop_bit 7 v = 0")
    case True
    then have "aligned_bytes r = ucast (v AND 0x7F) # rest"
      using "1.prems"(1) by (simp add: vlq_bytes.simps [of v] and_high_bits)
    then obtain r' where "get_aligned 1 r = Inr (Some (ucast (v AND 0x7F) :: byte), r')"
        "aligned_bytes r' = rest" "br_bit r' = 0" "br_buffer r' = br_buffer r"
      by (rule get_aligned_byte)
    then show ?thesis
      using "1.prems"(3)
      by (simp add: get_vlq_loop.simps [of s acc r] Let_def low_byte MAX_VLQ_BYTE_LEN_def
          take_bit_7_self [OF True] del: One_nat_def)
  next
    case False
    let ?b = "ucast (v AND 0x7F OR 0x80) :: byte"
    have "aligned_bytes r = ?b # (vlq_bytes (drop_bit 7 v) @ rest)"
      using "1.prems"(1) False by (simp add: vlq_bytes.simps [of v] and_high_bits)
    then obtain r1 where r1: "get_aligned 1 r = Inr (Some ?b, r1)" "br_buffer r1 = br_buffer r"
        "aligned_bytes r1 = vlq_bytes (drop_bit 7 v) @ rest"
      by (rule get_aligned_byte)
    have room: "s + 7 < 64" using septet_room [OF "1.prems"(2) False] .
    have "get_vlq_loop s acc r = get_vlq_loop (s + 7) (acc OR push_bit s (take_bit 7 v)) r1"
      using room
      by (simp add: get_vlq_loop.simps [of s acc r] r1(1) Let_def high_byte MAX_VLQ_BYTE_LEN_def
          del: One_nat_def)
    then show ?thesis
      using "1.IH" [OF _ r1(3) take_bit_drop_7 [OF "1.prems"(2)] room,
          of "acc OR push_bit s (take_bit 7 v)"] False r1(2)
      by (simp only: and_high_bits septets not_False_eq_True)
  qed
qed

lemma get_vlq_int_bytes:
  assumes "aligned_bytes r = vlq_bytes v @ rest"
  obtains r' where "get_vlq_int r = Inr (Some v, r')" "aligned_bytes r' = rest" "br_bit r' = 0"
    "br_buffer r' = br_buffer r"
  using get_vlq_loop_bytes [OF assms, of 0 0] by (auto simp: get_vlq_int_def take_bit_word_eq_self)

lemma zigzag_decode_encode: "zigzag_decode (zigzag_encode n) = n"
proof (rule bit_word_eqI)
  fix i assume i: "i < LENGTH(64)"
  let ?u = "zigzag_encode n"
  have "?u AND 1 = of_bool (bit ?u 0)" by (simp add: and_one_eq odd_iff_mod_2_eq_one bit_0 mod2_eq_if)
  moreover have "bit ?u 0 = bit n 63"
    unfolding zigzag_encode_def bit_xor_iff bit_push_bit_iff by (simp add: bit_simps)
  ultimately have "- (?u AND 1) = (if bit n 63 then - 1 else 0)" by simp
  then show "bit (zigzag_decode ?u) i = bit n i"
    unfolding zigzag_decode_def bit_xor_iff bit_drop_bit_eq o_def zigzag_encode_def bit_push_bit_iff
    using i by (cases "i = 63") (auto simp: bit_simps dest: bit_imp_le_length)
qed

lemma put_zigzag_vlq_int_encode: "put_zigzag_vlq_int v w = put_vlq_int (zigzag_encode v) w"
  by (simp add: put_zigzag_vlq_int_def zigzag_encode_def)

lemma get_zigzag_vlq_int_decode:
  "get_zigzag_vlq_int r =
     bind_result (get_vlq_int r) (\<lambda>(v, r). Inr (map_option zigzag_decode v, r))"
  by (simp add: get_zigzag_vlq_int_def zigzag_decode_def [abs_def])

section \<open>Properties\<close>

text \<open>C26. Bit packing round trip: values written at any widths with \<open>BitWriter::put_value\<close>
  (each at most 64 bits and fitting its width) are all accepted, and a \<open>BitReader\<close> over the
  consumed buffer returns exactly these values in order, leaving less than one byte of
  padding.\<close>

theorem put_get_values:
  assumes "\<forall>(v, n) \<in> set vns. n \<le> 64 \<and> take_bit n v = v"
  shows "\<exists>w r. fold_results (\<lambda>(v, n). put_value v n) vns (bit_writer_new capacity) = Inr w
    \<and> read_values expect_value (map snd vns) (bit_reader_new (bw_consume w)) = Inr (map fst vns, r)
    \<and> length (reader_bits r) < 8"
proof -
  have new: "bit_writer_new capacity = bit_writer_from_buf []"
    by (simp add: bit_writer_new_def bit_writer_from_buf_def)
  obtain w where w: "fold_results (\<lambda>(v, n). put_value v n) vns (bit_writer_new capacity) = Inr w"
      "writer_ok w" "writer_bits w = concat (map (\<lambda>(v, n). bits n v) vns)"
    using put_values_bits [OF writer_ok_from_buf assms, of "[]"] by (auto simp: new)
  let ?pad = "8 * ceil (bw_offset w) 8 - bw_offset w"
  have "?pad < 8" unfolding ceil_8 by linarith
  then show ?thesis
    using w(1) reader_source.read_values_packed [where ?'a = 64, of "bit_reader_new (bw_consume w)" vns] assms
    by (auto simp: bw_consume_bits [OF w(2)] w(3))
qed

theorem put_get_values_witness:
  "\<exists>w r. fold_results (\<lambda>(v, n). put_value v n) [(5, 3), (2 ^ 62 + 9, 63), (1, 1)] (bit_writer_new 8) = Inr w
    \<and> read_values expect_value [3, 63, 1] (bit_reader_new (bw_consume w)) = Inr ([5, 2 ^ 62 + 9, 1] :: u64 list, r)
    \<and> length (reader_bits r) < 8"
  using put_get_values [of "[(5, 3), (2 ^ 62 + 9, 63), (1, 1)]" 8]
  by (simp add: take_bit_eq_mod)

lemma bw_consume_put_vlq_int: "bw_consume (put_vlq_int v w) = bw_consume w @ vlq_bytes v"
  by (simp add: put_vlq_int_append bw_consume_def)

lemma bw_consume_new [simp]: "bw_consume (bit_writer_new capacity) = []"
  by (simp add: bw_consume_def bw_flush_def bit_writer_new_def ceil_8)

text \<open>C27. Variable length integers round trip: \<open>get_vlq_int\<close> reads back every 64-bit value
  that \<open>put_vlq_int\<close> wrote and \<open>get_zigzag_vlq_int\<close> every signed value that
  \<open>put_zigzag_vlq_int\<close> wrote, whatever follows; the reader then stands at the first byte
  after the encoding.\<close>

theorem vlq_round_trip:
  "(\<exists>r. get_vlq_int (bit_reader_new (bw_consume (put_vlq_int v (bit_writer_new 0)) @ rest)) =
      Inr (Some v, r) \<and> aligned_bytes r = rest)
   \<and> (\<exists>r. get_zigzag_vlq_int
        (bit_reader_new (bw_consume (put_zigzag_vlq_int x (bit_writer_new 0)) @ rest)) =
      Inr (Some x, r) \<and> aligned_bytes r = rest)"
proof -
  have read: "\<exists>r. get_vlq_int (bit_reader_new (vlq_bytes u @ rest)) = Inr (Some u, r)
      \<and> aligned_bytes r = rest" for u
    using get_vlq_int_bytes [of "bit_reader_new (vlq_bytes u @ rest)" u rest] by auto
  show ?thesis
    using read [of v] read [of "zigzag_encode x"]
    by (auto simp: put_zigzag_vlq_int_encode bw_consume_put_vlq_int get_zigzag_vlq_int_decode
        zigzag_decode_encode)
qed

end
