(* ===== verification/Bit_Batch.thy ===== *)
theory Bit_Batch
  imports Bit_Util
begin

text \<open>
  Batched bit unpacking (\<open>glaredb_ext_parquet/src/util/bit_pack.rs\<close> and
  \<open>BitReader::get_batch\<close> in \<open>util/bit_util.rs\<close>): the \<open>unpack8\<close> to \<open>unpack64\<close> kernels decode
  as many values as the word has bits from whole words, and \<open>get_batch\<close> runs them between an
  aligning prefix and a trailing suffix of single reads. The kernels are one definition over
  the word type; the \<open>seq!\<close> unrolling over the output index is a loop over that index and the
  dispatch on \<open>num_bits\<close> a bound check.
\<close>

section \<open>Unpack kernels\<close>

definition unpack_word :: "byte list \<Rightarrow> nat \<Rightarrow> 'b::len word result" where
  "unpack_word input output_idx =
     (let bytes = LENGTH('b) div 8
      in if output_idx * bytes + bytes \<le> length input
         then Inr (from_le_bytes (take bytes (drop (output_idx * bytes) input)))
         else Inl (Panic ''range end index out of range for slice''))"

definition unpack_mask :: "nat \<Rightarrow> 'b::len word" where
  "unpack_mask num_bits = (if num_bits = LENGTH('b) then - 1 else push_bit num_bits 1 - 1)"

definition unpack_at :: "nat \<Rightarrow> byte list \<Rightarrow> nat \<Rightarrow> 'b::len word result" where
  "unpack_at num_bits input i =
     (let start_bit = i * num_bits;
          end_bit = start_bit + num_bits;
          start_bit_offset = start_bit mod LENGTH('b);
          end_bit_offset = end_bit mod LENGTH('b);
          start_byte = start_bit div LENGTH('b);
          end_byte = end_bit div LENGTH('b)
      in if start_byte \<noteq> end_byte \<and> end_bit_offset \<noteq> 0
         then
           bind_result (unpack_word input start_byte) (\<lambda>val.
           let a = drop_bit start_bit_offset val in
           bind_result (unpack_word input end_byte) (\<lambda>val.
           let b = push_bit (num_bits - end_bit_offset) val in
           Inr (a OR (b AND unpack_mask num_bits))))
         else
           bind_result (unpack_word input start_byte) (\<lambda>val.
           Inr (drop_bit start_bit_offset val AND unpack_mask num_bits)))"

definition unpack :: "nat \<Rightarrow> byte list \<Rightarrow> 'b::len word list result" where
  "unpack num_bits input =
     (if LENGTH('b) < num_bits then Inl (Panic ''invalid num_bits'')
      else if num_bits = 0 then Inr (replicate LENGTH('b) 0)
      else if length input < num_bits * (LENGTH('b) div 8)
      then Inl (Panic ''assertion failed: input.len() >= NUM_BITS * bytes'')
      else collect_results (unpack_at num_bits input) [0..<LENGTH('b)])"

lemma unpack_mask_mask: "n \<le> LENGTH('b) \<Longrightarrow> (unpack_mask n :: 'b::len word) = mask n"
proof (cases "n = LENGTH('b)")
  case True
  then show ?thesis by (intro bit_word_eqI) (simp add: unpack_mask_def bit_simps)
qed (simp add: unpack_mask_def mask_eq_exp_minus_1 push_bit_eq_mult)

lemma unpack_word_bits:
  assumes "8 dvd LENGTH('b)" "Suc i * LENGTH('b) \<le> 8 * length input"
  shows "unpack_word input i =
    Inr (of_bits (take LENGTH('b) (drop (i * LENGTH('b)) (stream input))) :: 'b::len word)"
proof -
  obtain k where k: "LENGTH('b) = 8 * k" using assms(1) by (elim dvdE)
  then have "i * k + k \<le> length input" using assms(2) by simp
  moreover have "stream (take k (drop (i * k) input)) =
      take LENGTH('b) (drop (i * LENGTH('b)) (stream input))"
    using take_stream [of k "drop (i * k) input"] drop_stream [of "i * k" input]
    by (simp add: k ac_simps)
  ultimately show ?thesis by (simp add: unpack_word_def k from_le_bytes_of_bits Let_def)
qed

lemma window_within:
  assumes "p + n \<le> LENGTH('b)" "s * LENGTH('b) + p + n \<le> length D"
  shows "drop_bit p (of_bits (take LENGTH('b) (drop (s * LENGTH('b)) D)) :: 'b::len word) AND mask n =
    of_bits (take n (drop (s * LENGTH('b) + p) D))"
  using assms by (intro bit_word_eqI) (auto simp: stream_simps bit_simps add.assoc)

lemma window_across:
  assumes "p < L" "L < p + n" "n \<le> L" "Suc s * L + (p + n - L) \<le> length D" and L: "L = LENGTH('b)"
  shows "drop_bit p (of_bits (take L (drop (s * L) D)) :: 'b::len word) OR
     (push_bit (L - p) (of_bits (take L (drop (Suc s * L) D))) AND mask n) =
    of_bits (take n (drop (s * L + p) D))"
proof (rule bit_word_eqI)
  fix j assume "j < LENGTH('b)"
  moreover have "Suc s * L + (j - (L - p)) = s * L + p + j" if "L - p \<le> j" using that assms by simp
  ultimately show "bit (drop_bit p (of_bits (take L (drop (s * L) D)) :: 'b::len word) OR
     (push_bit (L - p) (of_bits (take L (drop (Suc s * L) D))) AND mask n)) j =
    bit (of_bits (take n (drop (s * L + p) D)) :: 'b word) j"
    using assms by (cases "L - p \<le> j") (auto simp: stream_simps bit_simps ac_simps)
qed

lemma unpack_at_bits:
  assumes dvd: "8 dvd LENGTH('b)" and n: "0 < n" "n \<le> LENGTH('b)" and i: "i < LENGTH('b)"
    and len: "n * LENGTH('b) \<le> 8 * length input"
  shows "unpack_at n input i = Inr (of_bits (take n (drop (i * n) (stream input))) :: 'b::len word)"
proof -
  define L where "L = LENGTH('b)"
  define s where "s = i * n div L"
  define p where "p = i * n mod L"
  note folds = L_def [symmetric] s_def [symmetric] p_def [symmetric]
  have start: "i * n = s * L + p" and p: "p < L" by (simp_all add: s_def p_def L_def)
  have "Suc i * n \<le> L * n" using i by (intro mult_right_mono) (auto simp: L_def)
  then have finish: "s * L + p + n \<le> n * L" using start by (simp add: mult.commute)
  then have "s * L < n * L" using n by linarith
  then have "Suc s \<le> n" by simp
  then have "Suc s * L \<le> 8 * length input" using len L_def by (meson mult_le_mono1 order_trans)
  note word_s = unpack_word_bits [OF dvd this [unfolded L_def], folded L_def]
  consider "p + n < L" | "p + n = L" | "L < p + n" by linarith
  then show ?thesis
  proof cases
    case 1
    then have e: "(i * n + n) div L = s" "(i * n + n) mod L = p + n"
      by (simp_all add: start add.assoc)
    then show ?thesis
      unfolding unpack_at_def Let_def folds e
      using window_within [of p n s "stream input", where ?'b = 'b] 1 n finish len
      by (simp add: word_s unpack_mask_mask start flip: L_def)
  next
    case 2
    then have e: "(i * n + n) div L = Suc s" "(i * n + n) mod L = 0"
      using p by (simp_all add: start add.assoc)
    then show ?thesis
      unfolding unpack_at_def Let_def folds e
      using window_within [of p n s "stream input", where ?'b = 'b] 2 n finish len
      by (simp add: word_s unpack_mask_mask start flip: L_def)
  next
    case 3
    define q where "q = p + n - L"
    have q: "p + n = L + q" "0 < q" "q < L" using 3 p n unfolding q_def L_def by linarith+
    then have e: "(i * n + n) div L = Suc s" "(i * n + n) mod L = q"
      by (simp_all add: start add.assoc div_add_self1)
    have "Suc s * L < n * L" using finish q by simp
    then have "Suc (Suc s) \<le> n" unfolding mult_less_cancel2 by linarith
    then have "Suc (Suc s) * L \<le> 8 * length input" using len L_def by (meson mult_le_mono1 order_trans)
    note word_e = unpack_word_bits [OF dvd this [unfolded L_def], folded L_def]
    have shift: "n - q = L - p" using q p by linarith
    have "Suc s * L + (p + n - L) \<le> length (stream input)"
      using finish len q unfolding L_def [symmetric] by simp
    then have window: "drop_bit p (of_bits (take L (drop (s * L) (stream input))) :: 'b word) OR
        (push_bit (L - p) (of_bits (take L (drop (Suc s * L) (stream input)))) AND mask n) =
        of_bits (take n (drop (s * L + p) (stream input)))"
      using 3 p n L_def by (intro window_across) simp_all
    have "s \<noteq> Suc s \<and> q \<noteq> 0" using q by simp
    then show ?thesis
      unfolding unpack_at_def Let_def folds e
      unfolding word_s word_e bind_result_simps shift unpack_mask_mask [OF n(2)] window start
      by simp
  qed
qed

lemma unpack_chunks:
  assumes "8 dvd LENGTH('b)" "n \<le> LENGTH('b)" "n * LENGTH('b) \<le> 8 * length input"
  shows "unpack n input =
    Inr (map of_bits (chunks (replicate LENGTH('b) n) (stream input)) :: 'b::len word list)"
proof (cases "n = 0")
  case True
  have "(of_bits [] :: 'b word) = 0" by (simp add: of_bits_def)
  then show ?thesis
    using True by (simp add: unpack_def chunks_replicate comp_def map_replicate_trivial
        replicate_length_same map_replicate_const)
next
  case False
  have "n * (LENGTH('b) div 8) \<le> length input"
    using assms by (auto elim!: dvdE)
  moreover have "collect_results (unpack_at n input) [0..<LENGTH('b)] =
      Inr (map (\<lambda>i. of_bits (take n (drop (i * n) (stream input))) :: 'b word) [0..<LENGTH('b)])"
    using unpack_at_bits [OF assms(1) _ assms(2) _ assms(3)] False
    by (simp add: collect_results_list_all2 list_all2_conv_all_nth)
  ultimately show ?thesis using assms False by (simp add: unpack_def chunks_replicate comp_def)
qed

section \<open>Batched reads\<close>

text \<open>
  Each phase of \<open>get_batch\<close> receives how many values are still to be read and returns the
  values it wrote to the batch.
\<close>

type_synonym 'a phase = "nat \<Rightarrow> bit_reader \<Rightarrow> ('a word list \<times> bit_reader) result"

fun align_phase :: "nat \<Rightarrow> nat \<Rightarrow> bit_reader \<Rightarrow> ('a::len word list \<times> bit_reader) result" where
  "align_phase num_bits 0 r = Inr ([], r)"
| "align_phase num_bits (Suc m) r =
     (if br_bit r = 0 then Inr ([], r)
      else bind_result (expect_value num_bits r) (\<lambda>(v, r).
           bind_result (align_phase num_bits m r) (\<lambda>(vs, r). Inr (v # vs, r))))"

definition unpack_block :: "nat \<Rightarrow> bit_reader \<Rightarrow> ('b::len word list \<times> bit_reader) result" where
  "unpack_block num_bits r =
     bind_result (unpack num_bits (drop (br_byte r) (br_buffer r))) (\<lambda>out.
     Inr (out, r\<lparr>br_byte := br_byte r + LENGTH('b) div 8 * num_bits\<rparr>))"

function block_phase :: "nat \<Rightarrow> nat \<Rightarrow> bit_reader \<Rightarrow> ('a::len word list \<times> bit_reader) result" where
  "block_phase num_bits m r =
     (if LENGTH('a) \<le> m
      then bind_result (unpack_block num_bits r) (\<lambda>(us, r).
           bind_result (block_phase num_bits (m - LENGTH('a)) r) (\<lambda>(vs, r). Inr (us @ vs, r)))
      else Inr ([], r))"
  by pat_completeness auto
termination block_phase
  by (relation "measure (\<lambda>(n, m, r). m)")
     (auto intro!: diff_less intro: less_le_trans [OF len_gt_0])

declare block_phase.simps [simp del]

definition small_phase ::
    "'b::len itself \<Rightarrow> nat \<Rightarrow> nat \<Rightarrow> bit_reader \<Rightarrow> ('a::len word list \<times> bit_reader) result" where
  "small_phase _ num_bits m r =
     (if LENGTH('b) < LENGTH('a) \<and> LENGTH('b) \<le> m \<and> num_bits \<le> LENGTH('b)
      then bind_result (unpack_block num_bits r) (\<lambda>(out :: 'b word list, r).
           Inr (map (\<lambda>u. from_le_bytes (to_le_bytes u)) out, r))
      else Inr ([], r))"

fun trailing_phase :: "nat \<Rightarrow> nat \<Rightarrow> bit_reader \<Rightarrow> ('a::len word list \<times> bit_reader) result" where
  "trailing_phase num_bits 0 r = Inr ([], r)"
| "trailing_phase num_bits (Suc m) r =
     bind_result (expect_value num_bits r) (\<lambda>(v, r).
     bind_result (trailing_phase num_bits m r) (\<lambda>(vs, r). Inr (v # vs, r)))"

definition run_phase ::
    "nat \<Rightarrow> (nat \<Rightarrow> bit_reader \<Rightarrow> ('a::len word list \<times> bit_reader) result)
     \<Rightarrow> 'a word list \<times> bit_reader \<Rightarrow> ('a word list \<times> bit_reader) result" where
  "run_phase values_to_read f =
     (\<lambda>(batch, r). bind_result (f (values_to_read - length batch) r) (\<lambda>(vs, r). Inr (batch @ vs, r)))"

definition get_batch :: "nat \<Rightarrow> nat \<Rightarrow> bit_reader \<Rightarrow> ('a::len word list \<times> bit_reader) result" where
  "get_batch batch_len num_bits r =
     (if LENGTH('a) div 8 * 8 < num_bits then Inl (Panic ''assertion failed: num_bits <= size_of T'')
      else
        let needed_bits = num_bits * batch_len in
        bind_result (usize_sub (length (br_buffer r)) (br_byte r)) (\<lambda>bytes.
        bind_result (usize_sub (bytes * 8) (br_bit r)) (\<lambda>remaining_bits.
        let values_to_read =
              (if remaining_bits < needed_bits then remaining_bits div num_bits else batch_len)
        in if LENGTH('a) \<notin> {8, 16, 32, 64}
           then Inl (Panic ''internal error: entered unreachable code'')
           else fold_results (run_phase values_to_read)
                  [align_phase num_bits, block_phase num_bits, small_phase TYPE(32) num_bits,
                   small_phase TYPE(16) num_bits, small_phase TYPE(8) num_bits,
                   trailing_phase num_bits]
                  ([], r))))"

subsection \<open>What a phase reads\<close>

definition phase_reads :: "nat \<Rightarrow> nat \<Rightarrow> bit_reader \<Rightarrow> 'a::len word list \<Rightarrow> bit_reader \<Rightarrow> bool" where
  "phase_reads n k r us r' \<longleftrightarrow>
     length us \<le> k \<and> us = map of_bits (chunks (replicate (length us) n) (reader_bits r))
     \<and> reader_ok r' \<and> reader_bits r' = drop (length us * n) (reader_bits r)
     \<and> br_buffer r' = br_buffer r \<and> (br_bit r' = 0 \<or> length us = k)"

definition phase_ok ::
    "nat \<Rightarrow> (nat \<Rightarrow> bit_reader \<Rightarrow> ('a::len word list \<times> bit_reader) result) \<Rightarrow> bool" where
  "phase_ok n f \<longleftrightarrow> (\<forall>k r. reader_ok r \<longrightarrow> k * n \<le> length (reader_bits r) \<longrightarrow> br_bit r = 0 \<or> k = 0
     \<longrightarrow> (\<exists>us r'. f k r = Inr (us, r') \<and> phase_reads n k r us r'))"

lemma sum_list_replicate_nat [simp]: "sum_list (replicate k (n :: nat)) = k * n"
  by (induction k) simp_all

lemma phase_reads_append:
  assumes "phase_reads n k r us r1" "phase_reads n (k - length us) r1 vs r2"
  shows "phase_reads n k r (us @ vs) r2"
proof -
  have us: "us = map of_bits (chunks (replicate (length us) n) (reader_bits r))"
      and bits: "reader_bits r1 = drop (length us * n) (reader_bits r)"
    using assms(1) by (simp_all add: phase_reads_def)
  have vs: "vs = map of_bits (chunks (replicate (length vs) n) (reader_bits r1))"
    using assms(2) by (simp add: phase_reads_def)
  have "us @ vs = map of_bits (chunks (replicate (length (us @ vs)) n) (reader_bits r))"
    using us vs by (simp add: replicate_add chunks_append bits)
  moreover have "reader_bits r2 = drop (length (us @ vs) * n) (reader_bits r)"
    using assms(2) bits by (simp add: phase_reads_def add_mult_distrib add.commute)
  moreover have "length (us @ vs) \<le> k" "br_bit r2 = 0 \<or> length (us @ vs) = k"
    using assms by (auto simp: phase_reads_def)
  moreover have "br_buffer r2 = br_buffer r" "reader_ok r2" using assms by (auto simp: phase_reads_def)
  ultimately show ?thesis unfolding phase_reads_def by blast
qed

lemma phase_reads_nil: "reader_ok r \<Longrightarrow> br_bit r = 0 \<or> k = 0 \<Longrightarrow> phase_reads n k r [] r"
  by (auto simp: phase_reads_def)

lemma phase_reads_cons:
  assumes r: "reader_ok r" and n: "n \<le> 64" "n \<le> LENGTH('a::len)" "int_type TYPE('a)"
    and fits: "Suc k * n \<le> length (reader_bits r)"
  obtains v r1 where "expect_value n r = Inr (v :: 'a word, r1)" "reader_ok r1"
    "k * n \<le> length (reader_bits r1)"
    "\<forall>vs r'. phase_reads n k r1 vs r' \<longrightarrow> phase_reads n (Suc k) r (v # vs) r'"
proof -
  obtain r1 where r1: "expect_value n r = Inr (of_bits (take n (reader_bits r)) :: 'a word, r1)"
      "reader_ok r1" "reader_bits r1 = drop n (reader_bits r)" "br_buffer r1 = br_buffer r"
    using fits by (auto intro: expect_value_bits [OF r n])
  show thesis
  proof
    show "expect_value n r = Inr (of_bits (take n (reader_bits r)) :: 'a word, r1)" "reader_ok r1"
      by fact+
    show "k * n \<le> length (reader_bits r1)" using fits r1(3) by simp
    show "\<forall>vs r'. phase_reads n k r1 vs r' \<longrightarrow>
        phase_reads n (Suc k) r ((of_bits (take n (reader_bits r)) :: 'a word) # vs) r'"
      using r1 by (auto simp: phase_reads_def add.commute)
  qed
qed

lemma align_phase_reads:
  "reader_ok r \<Longrightarrow> n \<le> 64 \<Longrightarrow> n \<le> LENGTH('a::len) \<Longrightarrow> int_type TYPE('a) \<Longrightarrow>
    k * n \<le> length (reader_bits r) \<Longrightarrow>
    \<exists>us r'. align_phase n k r = Inr (us :: 'a word list, r') \<and> phase_reads n k r us r'"
proof (induction k arbitrary: r)
  case (Suc k)
  show ?case
  proof (cases "br_bit r = 0")
    case False
    obtain v r1 where v: "expect_value n r = Inr (v :: 'a word, r1)" "reader_ok r1"
        "k * n \<le> length (reader_bits r1)"
        "\<forall>vs r'. phase_reads n k r1 vs r' \<longrightarrow> phase_reads n (Suc k) r (v # vs) r'"
      using Suc.prems by (rule phase_reads_cons)
    obtain us r' where "align_phase n k r1 = Inr (us :: 'a word list, r')" "phase_reads n k r1 us r'"
      using Suc.IH [OF v(2)] Suc.prems v(3) by blast
    then show ?thesis using False v by simp
  qed (simp add: phase_reads_nil Suc.prems)
qed (simp add: phase_reads_nil)

lemma trailing_phase_reads:
  "reader_ok r \<Longrightarrow> n \<le> 64 \<Longrightarrow> n \<le> LENGTH('a::len) \<Longrightarrow> int_type TYPE('a) \<Longrightarrow>
    k * n \<le> length (reader_bits r) \<Longrightarrow>
    \<exists>us r'. trailing_phase n k r = Inr (us :: 'a word list, r') \<and> phase_reads n k r us r'
      \<and> length us = k"
proof (induction k arbitrary: r)
  case (Suc k)
  obtain v r1 where v: "expect_value n r = Inr (v :: 'a word, r1)" "reader_ok r1"
      "k * n \<le> length (reader_bits r1)"
      "\<forall>vs r'. phase_reads n k r1 vs r' \<longrightarrow> phase_reads n (Suc k) r (v # vs) r'"
    using Suc.prems by (rule phase_reads_cons)
  obtain us r' where "trailing_phase n k r1 = Inr (us :: 'a word list, r')"
      "phase_reads n k r1 us r'" "length us = k"
    using Suc.IH [OF v(2)] Suc.prems v(3) by blast
  then show ?case using v by simp
qed (simp add: phase_reads_nil)

lemma unpack_block_reads:
  assumes r: "reader_ok r" "br_bit r = 0" and n: "n \<le> LENGTH('b::len)" and ty: "int_type TYPE('b)"
    and fits: "k * n \<le> length (reader_bits r)" "LENGTH('b) \<le> k"
  obtains us r' where "unpack_block n r = Inr (us :: 'b word list, r')" "length us = LENGTH('b)"
    "phase_reads n k r us r'" "br_bit r' = 0"
proof
  let ?D = "stream (drop (br_byte r) (br_buffer r))"
  let ?r = "r\<lparr>br_byte := br_byte r + LENGTH('b) div 8 * n\<rparr>"
  let ?us = "map of_bits (chunks (replicate LENGTH('b) n) ?D) :: 'b word list"
  have D: "reader_bits r = ?D" using r by (simp add: reader_bits_drop)
  have dvd: "8 dvd LENGTH('b)" using ty by (simp add: int_type_def)
  have "LENGTH('b) * n \<le> k * n" using fits(2) by simp
  then have len: "LENGTH('b) * n \<le> length ?D" using fits(1) unfolding D by (rule order_trans)
  then show "unpack_block n r = Inr (?us, ?r)"
    unfolding unpack_block_def using unpack_chunks [OF dvd n] by (simp add: mult.commute)
  show "length ?us = LENGTH('b)" by (simp add: chunks_replicate)
  have bytes: "8 * (LENGTH('b) div 8 * n) = LENGTH('b) * n" using dvd by (simp flip: mult.assoc)
  have "reader_bits ?r = drop (LENGTH('b) * n) ?D"
    using r drop_stream [of "LENGTH('b) div 8 * n" "drop (br_byte r) (br_buffer r)"]
    by (simp add: reader_bits_drop bytes add.commute)
  moreover have "LENGTH('b) div 8 * n \<le> length (br_buffer r) - br_byte r"
    using len unfolding bytes [symmetric] length_stream length_drop by simp
  then have "br_byte r + LENGTH('b) div 8 * n \<le> length (br_buffer r)"
    using r by (simp add: reader_ok_def reader_pos_def)
  then have "reader_ok ?r" using r by (simp add: reader_ok_def reader_pos_def)
  ultimately show "phase_reads n k r ?us ?r"
    using fits(2) r D by (simp add: phase_reads_def chunks_replicate)
qed (use r in simp)

lemma block_phase_ok:
  assumes n: "n \<le> LENGTH('a::len)" and ty: "int_type TYPE('a)"
  shows "phase_ok n (block_phase n :: nat \<Rightarrow> bit_reader \<Rightarrow> ('a word list \<times> bit_reader) result)"
  unfolding phase_ok_def
proof (intro allI impI)
  fix k r
  show "\<exists>us r'. (block_phase n k r :: ('a word list \<times> bit_reader) result) = Inr (us, r')
      \<and> phase_reads n k r us r'"
    if "reader_ok r" "k * n \<le> length (reader_bits r)" "br_bit r = 0 \<or> k = 0"
    using that
  proof (induction k arbitrary: r rule: less_induct)
    case (less k)
    show ?case
    proof (cases "LENGTH('a) \<le> k")
      case True
      then have bit: "br_bit r = 0" using less.prems(3) len_gt_0 [where ?'a = 'a] by auto
      obtain us r1 where us: "unpack_block n r = Inr (us :: 'a word list, r1)" "length us = LENGTH('a)"
          "phase_reads n k r us r1" "br_bit r1 = 0"
        by (rule unpack_block_reads [OF less.prems(1) bit n ty less.prems(2) True])
      have "(k - LENGTH('a)) * n \<le> length (reader_bits r1)"
        using us less.prems(2) by (auto simp: phase_reads_def diff_mult_distrib)
      moreover have "reader_ok r1" using us(3) by (simp add: phase_reads_def)
      moreover have "k - LENGTH('a) < k" using True len_gt_0 [where ?'a = 'a] by linarith
      ultimately obtain vs r' where vs: "block_phase n (k - LENGTH('a)) r1 = Inr (vs :: 'a word list, r')"
          "phase_reads n (k - LENGTH('a)) r1 vs r'"
        using less.IH us(4) by blast
      then show ?thesis
        using True us phase_reads_append [OF us(3), of vs r']
        by (simp add: block_phase.simps [of n k r])
    qed (simp add: block_phase.simps [of n k r] phase_reads_nil less.prems)
  qed
qed

lemma small_phase_ok:
  assumes ty: "int_type TYPE('b::len)"
  shows "phase_ok n (small_phase TYPE('b) n :: nat \<Rightarrow> bit_reader \<Rightarrow> ('a::len word list \<times> bit_reader) result)"
  unfolding phase_ok_def
proof (intro allI impI)
  fix k r
  assume r: "reader_ok r" "k * n \<le> length (reader_bits r)" "br_bit r = 0 \<or> k = 0"
  show "\<exists>us r'. (small_phase TYPE('b) n k r :: ('a word list \<times> bit_reader) result) = Inr (us, r')
      \<and> phase_reads n k r us r'"
  proof (cases "LENGTH('b) < LENGTH('a) \<and> LENGTH('b) \<le> k \<and> n \<le> LENGTH('b)")
    case True
    then have bit: "br_bit r = 0" using r(3) len_gt_0 [where ?'a = 'b] by auto
    obtain us r' where us: "unpack_block n r = Inr (us :: 'b word list, r')" "length us = LENGTH('b)"
        "phase_reads n k r us r'"
      using unpack_block_reads [OF r(1) bit _ ty r(2)] True by metis
    have dvd: "8 dvd LENGTH('b)" using ty by (simp add: int_type_def)
    then have "8 * (LENGTH('b) div 8) = LENGTH('b)" by simp
    then have widen: "(from_le_bytes (to_le_bytes (of_bits bl :: 'b word)) :: 'a word) = of_bits bl"
      if "length bl \<le> LENGTH('b)" for bl
      using that True by (intro bit_word_eqI) (auto simp: stream_simps stream_to_le_bytes [OF dvd])
    let ?vs = "map (\<lambda>u. from_le_bytes (to_le_bytes u) :: 'a word) us"
    have "us = map of_bits (chunks (replicate (length us) n) (reader_bits r))"
      using us(3) by (simp add: phase_reads_def)
    then have "?vs = map (\<lambda>u. from_le_bytes (to_le_bytes u))
        (map of_bits (chunks (replicate (length us) n) (reader_bits r)) :: 'b word list)" by simp
    also have "\<dots> = map of_bits (chunks (replicate (length ?vs) n) (reader_bits r))"
      using True by (auto simp: chunks_replicate intro!: widen)
    finally have "phase_reads n k r ?vs r'" using us(3) by (simp add: phase_reads_def)
    then show ?thesis using us(1) True by (simp add: small_phase_def)
  qed (auto simp: small_phase_def phase_reads_nil r)
qed

lemma run_phase_reads:
  assumes "phase_ok n f" "phase_reads n m r0 us r" "m * n \<le> length (reader_bits r0)"
  shows "\<exists>vs r'. run_phase m f (us, r) = Inr (vs, r') \<and> phase_reads n m r0 vs r'"
proof -
  have "(m - length us) * n \<le> length (reader_bits r)" "reader_ok r" "br_bit r = 0 \<or> m - length us = 0"
    using assms(2,3) by (auto simp: phase_reads_def diff_mult_distrib)
  then obtain vs r' where "f (m - length us) r = Inr (vs, r')" "phase_reads n (m - length us) r vs r'"
    using assms(1) unfolding phase_ok_def by blast
  then show ?thesis
    using phase_reads_append [OF assms(2)] by (auto simp: run_phase_def)
qed

lemma run_phases_reads:
  "(\<forall>f \<in> set fs. phase_ok n f) \<Longrightarrow> phase_reads n m r0 us r \<Longrightarrow> m * n \<le> length (reader_bits r0)
    \<Longrightarrow> \<exists>vs r'. fold_results (run_phase m) fs (us, r) = Inr (vs, r') \<and> phase_reads n m r0 vs r'"
proof (induction fs arbitrary: us r)
  case (Cons f fs)
  then obtain vs r1 where "run_phase m f (us, r) = Inr (vs, r1)" "phase_reads n m r0 vs r1"
    using run_phase_reads [of n f m r0 us r] by auto
  then show ?case using Cons.IH [of vs r1] Cons.prems by auto
qed auto

lemma trailing_phase_read_values:
  "trailing_phase n m r = read_values expect_value (replicate m n) r"
  by (induction m arbitrary: r) simp_all

lemma get_batch_reads:
  fixes k :: nat
  assumes ok: "reader_ok r" and ty: "LENGTH('a::len) \<in> {8, 16, 32, 64}" and n: "n \<le> LENGTH('a)"
  defines "m \<equiv> (if length (reader_bits r) < n * k then length (reader_bits r) div n else k)"
  shows "\<exists>vs r'. get_batch k n r = Inr (vs :: 'a word list, r') \<and> phase_reads n m r vs r' \<and> length vs = m"
proof -
  have int: "int_type TYPE('a)" "n \<le> 64" using ty n by (auto simp: int_type_def)
  have byte: "br_byte r \<le> length (br_buffer r)" "br_bit r \<le> (length (br_buffer r) - br_byte r) * 8"
    using ok by (auto simp: reader_ok_def reader_pos_def)
  have remaining: "(length (br_buffer r) - br_byte r) * 8 - br_bit r = length (reader_bits r)"
    by (simp add: length_reader_bits reader_pos_def)
  have m: "m * n \<le> length (reader_bits r)"
    by (auto simp: m_def mult.commute not_less)
  let ?fs = "[block_phase n, small_phase TYPE(32) n, small_phase TYPE(16) n, small_phase TYPE(8) n]
    :: (nat \<Rightarrow> bit_reader \<Rightarrow> ('a word list \<times> bit_reader) result) list"
  obtain us0 r0 where r0: "align_phase n m r = Inr (us0 :: 'a word list, r0)" "phase_reads n m r us0 r0"
    using align_phase_reads [OF ok int(2) n int(1) m] by blast
  have "\<forall>f \<in> set ?fs. phase_ok n f" using n int by (simp add: block_phase_ok small_phase_ok)
  then obtain us1 r1 where r1: "fold_results (run_phase m) ?fs (us0, r0) = Inr (us1, r1)"
      "phase_reads n m r us1 r1"
    using run_phases_reads [OF _ r0(2) m] by blast
  then have "reader_ok r1" "(m - length us1) * n \<le> length (reader_bits r1)"
    using m by (auto simp: phase_reads_def diff_mult_distrib)
  then obtain us2 r2 where r2: "trailing_phase n (m - length us1) r1 = Inr (us2 :: 'a word list, r2)"
      "phase_reads n (m - length us1) r1 us2 r2" "length us2 = m - length us1"
    using trailing_phase_reads [OF _ int(2) n int(1)] by blast
  have "length (us1 @ us2) = m" using r1(2) r2(3) by (simp add: phase_reads_def)
  moreover have "get_batch k n r = Inr (us1 @ us2, r2)"
  proof -
    have "fold_results (run_phase m) ([align_phase n] @ ?fs @ [trailing_phase n]) ([], r) = Inr (us1 @ us2, r2)"
      unfolding fold_results_append using r0(1) r1(1) r2(1) by (simp add: run_phase_def)
    then show ?thesis
      using ty n byte remaining by (auto simp: get_batch_def Let_def m_def)
  qed
  ultimately show ?thesis using phase_reads_append [OF r1(2) r2(2)] by blast
qed

section \<open>Properties\<close>

text \<open>C28. \<open>BitReader::get_batch\<close> is equivalent to reading value by value: whatever mix of
  aligned prefix, \<open>unpack\<close> kernels of 64, 32, 16 or 8 values and trailing reads it takes, it
  never panics, returns the values that the same number of \<open>get_value\<close> calls return and
  leaves the reader at the same bit position; the number of values is the batch length or as
  many whole values as the buffer still holds.\<close>

theorem get_batch_eq_get_value:
  assumes "reader_ok r" "LENGTH('a::len) \<in> {8, 16, 32, 64}" "n \<le> LENGTH('a)"
  shows "\<exists>vs r1 r2. get_batch k n r = Inr (vs :: 'a word list, r1)
    \<and> read_values expect_value (replicate (length vs) n) r = Inr (vs, r2)
    \<and> reader_pos r1 = reader_pos r2
    \<and> length vs = (if length (reader_bits r) < n * k then length (reader_bits r) div n else k)"
proof -
  let ?m = "if length (reader_bits r) < n * k then length (reader_bits r) div n else k"
  obtain vs r1 where r1: "get_batch k n r = Inr (vs :: 'a word list, r1)" "phase_reads n ?m r vs r1"
      "length vs = ?m"
    using get_batch_reads [OF assms] by blast
  have "int_type TYPE('a)" "n \<le> 64" "?m * n \<le> length (reader_bits r)"
    using assms(2,3) by (auto simp: int_type_def mult.commute not_less)
  then obtain us r2 where r2: "trailing_phase n ?m r = Inr (us :: 'a word list, r2)"
      "phase_reads n ?m r us r2" "length us = ?m"
    using trailing_phase_reads [OF assms(1) _ assms(3)] by blast
  have "us = vs" "reader_pos r1 = reader_pos r2"
    using r1(2,3) r2(2,3) reader_pos_bits [of r2 r1] unfolding phase_reads_def by (metis, metis)
  then show ?thesis using r1 r2(1) by (auto simp: trailing_phase_read_values)
qed

theorem get_batch_eq_get_value_witness:
  "\<exists>vs r1 r2. get_batch 11 3 (bit_reader_new [0x88, 0xC6, 0xFA, 0x05]) = Inr (vs :: 16 word list, r1)
    \<and> read_values expect_value (replicate (length vs) 3) (bit_reader_new [0x88, 0xC6, 0xFA, 0x05]) = Inr (vs, r2)
    \<and> reader_pos r1 = reader_pos r2 \<and> length vs = 10"
  using get_batch_eq_get_value [of "bit_reader_new [0x88, 0xC6, 0xFA, 0x05]" 3 11, where ?'a = 16]
  by simp

end
