(* ===== verification/Rle.thy ===== *)
theory Rle
  imports Bit_Util
begin

text \<open>
  The RLE/bit-packing hybrid encoding of Parquet as the column reader decodes it
  (\<open>glaredb_ext_parquet/src/column/encoding/rle_bit_packed.rs\<close>, \<open>RleBitPackedDecoder\<close>), with
  the cursor based bit unpacking it uses (\<open>column/bitutil.rs\<close>, \<open>column/read_buffer.rs\<close>).

  A \<open>ReadCursor\<close> is a pointer with the number of bytes that remain: here the bytes that
  remain. Its unchecked reads assert (in debug builds) that enough bytes remain; reading
  past the end is a panic of the model.

  The specification is the grammar of the format: a list of runs, each a repeated value or a
  bit-packed list of a multiple of eight values.
\<close>

section \<open>Read cursors\<close>

type_synonym read_cursor = "byte list"

definition read_next_unchecked :: "read_cursor \<Rightarrow> (byte \<times> read_cursor) result" where
  "read_next_unchecked cursor =
     (case cursor of [] \<Rightarrow> Inl (Panic ''remaining: 0, need: 1'') | b # bs \<Rightarrow> Inr (b, bs))"

definition peek_next_unchecked :: "read_cursor \<Rightarrow> byte result" where
  "peek_next_unchecked cursor =
     (case cursor of [] \<Rightarrow> Inl (Panic ''remaining: 0, need: 1'') | b # bs \<Rightarrow> Inr b)"

definition skip_bytes_unchecked :: "nat \<Rightarrow> read_cursor \<Rightarrow> read_cursor result" where
  "skip_bytes_unchecked num_bytes cursor =
     (if num_bytes \<le> length cursor then Inr (drop num_bytes cursor)
      else Inl (Panic ''assertion failed: self.remaining >= num_bytes''))"

definition skip_bytes :: "nat \<Rightarrow> read_cursor \<Rightarrow> bool \<times> read_cursor" where
  "skip_bytes num_bytes cursor =
     (if length cursor < num_bytes then (False, cursor) else (True, drop num_bytes cursor))"

definition cursor_take :: "nat \<Rightarrow> read_cursor \<Rightarrow> (read_cursor \<times> read_cursor) result" where
  "cursor_take num_bytes cursor =
     (if num_bytes \<le> length cursor then Inr (take num_bytes cursor, drop num_bytes cursor)
      else Inl (Panic ''assertion failed: self.remaining >= num_bytes''))"

lemma cursor_simps [simp]:
  "read_next_unchecked (b # bs) = Inr (b, bs)" "peek_next_unchecked (b # bs) = Inr b"
  "read_next_unchecked [] = Inl (Panic ''remaining: 0, need: 1'')"
  "peek_next_unchecked [] = Inl (Panic ''remaining: 0, need: 1'')"
  by (simp_all add: read_next_unchecked_def peek_next_unchecked_def)

lemma read_next_unchecked_eq_Inr: "read_next_unchecked c = Inr (b, c') \<longleftrightarrow> c = b # c'"
  by (cases c) auto

section \<open>Bit unpacking\<close>

definition bitpack_masks :: "u64 list" where
  "bitpack_masks = map (\<lambda>i. push_bit i 1 - 1) [0..<64] @ [- 1]"

record bit_unpack_state =
  bus_pos :: nat
  bus_width :: nat

definition bit_unpack_state_new :: "nat \<Rightarrow> bit_unpack_state" where
  "bit_unpack_state_new bit_width = \<lparr>bus_pos = 0, bus_width = bit_width\<rparr>"

definition from_u64 :: "u64 \<Rightarrow> 'a::len word" where
  "from_u64 v = from_le_bytes (take (LENGTH('a) div 8) (to_le_bytes v))"

function unpack_bits ::
    "nat \<Rightarrow> u64 \<Rightarrow> nat \<Rightarrow> nat \<Rightarrow> read_cursor \<Rightarrow> (u64 \<times> nat \<times> read_cursor) result" where
  "unpack_bits bits_needed v bit_offset_in_value cur_bit_pos cursor =
     (if 0 < bits_needed
      then
        bind_result (peek_next_unchecked cursor) (\<lambda>next_byte.
        bind_result (usize_sub 8 cur_bit_pos) (\<lambda>bits_available.
        let n = min bits_needed bits_available;
            m = push_bit cur_bit_pos (push_bit n 1 - 1);
            chunk = drop_bit cur_bit_pos (ucast next_byte AND m);
            v = v OR push_bit bit_offset_in_value chunk
        in if cur_bit_pos + n = 8
           then bind_result (read_next_unchecked cursor) (\<lambda>(_, cursor').
                unpack_bits (bits_needed - n) v (bit_offset_in_value + n) 0 cursor')
           else unpack_bits (bits_needed - n) v (bit_offset_in_value + n) (cur_bit_pos + n) cursor))
      else Inr (v, cur_bit_pos, cursor))"
  by pat_completeness auto
termination unpack_bits
  by (relation "measures [\<lambda>(n, v, off, pos, c). n, \<lambda>(n, v, off, pos, c). length c]")
     (auto simp: read_next_unchecked_eq_Inr usize_sub_def split: if_splits)

declare unpack_bits.simps [simp del]

definition unpack_next :: "nat \<Rightarrow> nat \<times> read_cursor \<Rightarrow> ('a::len word \<times> nat \<times> read_cursor) result" where
  "unpack_next w = (\<lambda>(bit_pos, cursor).
     bind_result (unpack_bits w 0 0 bit_pos cursor) (\<lambda>(v, bit_pos, cursor).
     Inr (from_u64 v, bit_pos, cursor)))"

definition bit_unpack ::
    "bit_unpack_state \<Rightarrow> read_cursor \<Rightarrow> nat \<Rightarrow> ('a::len word list \<times> bit_unpack_state \<times> read_cursor) result"
where
  "bit_unpack state cursor out_len =
     bind_result (vec_get bitpack_masks (bus_width state)) (\<lambda>m.
     let w = bus_width state
     in if m = 0 then Inr (replicate out_len 0, state, cursor)
        else if 64 < w then Inl (DbError ''bit width greater than 64 not supported'')
        else bind_result (read_values unpack_next (replicate out_len w) (bus_pos state, cursor))
               (\<lambda>(out, bit_pos, cursor). Inr (out, state\<lparr>bus_pos := bit_pos\<rparr>, cursor)))"

function read_unsigned_vlq_loop :: "nat \<Rightarrow> u64 \<Rightarrow> read_cursor \<Rightarrow> (u64 \<times> read_cursor) result" where
  "read_unsigned_vlq_loop shift v cursor =
     bind_result (read_next_unchecked cursor) (\<lambda>(b, cursor).
       let v = v OR push_bit shift (ucast (b AND 0x7F))
       in if b AND 0x80 = 0 then Inr (v, cursor)
          else if 64 \<le> shift + 7 then Inl (DbError ''VLQ integer too large'')
          else read_unsigned_vlq_loop (shift + 7) v cursor)"
  by pat_completeness auto
termination read_unsigned_vlq_loop
  by (relation "measure (\<lambda>(shift, v, c). length c)") (auto simp: read_next_unchecked_eq_Inr)

declare read_unsigned_vlq_loop.simps [simp del]

definition read_unsigned_vlq :: "read_cursor \<Rightarrow> (u64 \<times> read_cursor) result" where
  "read_unsigned_vlq cursor = read_unsigned_vlq_loop 0 0 cursor"

subsection \<open>The unpacker as a source of packed values\<close>

lemma chunk_of_byte:
  assumes "pos + n \<le> 8"
  shows "drop_bit pos (ucast (b :: byte) AND push_bit pos (push_bit n 1 - 1)) =
    (of_bits (take n (drop pos (bits 8 b))) :: u64)"
proof (rule bit_word_eqI)
  fix i
  have "(push_bit n 1 - 1 :: u64) = mask n" by (simp add: mask_eq_exp_minus_1 push_bit_eq_mult)
  then show "bit (drop_bit pos (ucast b AND push_bit pos (push_bit n 1 - 1)) :: u64) i =
      bit (of_bits (take n (drop pos (bits 8 b))) :: u64) i"
    using assms by (auto simp: stream_simps bit_simps simp del: push_bit_numeral_minus_1)
qed

lemma or_push_of_bits:
  assumes "length a + length b \<le> 64"
  shows "push_bit off (of_bits a) OR push_bit (off + length a) (of_bits b) =
    (push_bit off (of_bits (a @ b)) :: u64)"
  using assms by (intro bit_word_eqI) (auto simp: stream_simps bit_simps nth_append)

lemma unpack_bits_ok:
  "pos < 8 \<Longrightarrow> n \<le> length (drop pos (stream c)) \<Longrightarrow> n \<le> 64 \<Longrightarrow>
    \<exists>pos' c'. unpack_bits n v off pos c =
        Inr (v OR push_bit off (of_bits (take n (drop pos (stream c)))), pos', c')
      \<and> pos' < 8 \<and> drop pos' (stream c') = drop n (drop pos (stream c))"
proof (induction n arbitrary: v off pos c rule: less_induct)
  case (less n)
  show ?case
  proof (cases "n = 0")
    case True
    then show ?thesis using less.prems by (auto simp: unpack_bits.simps [of 0] of_bits_def)
  next
    case False
    then obtain b bs where c: "c = b # bs" using less.prems(2) by (cases c) auto
    define k where "k = min n (8 - pos)"
    define a where "a = take k (drop pos (bits 8 b))"
    have k: "0 < k" "k \<le> n" "pos + k \<le> 8" "length a = k"
      using False less.prems(1) by (auto simp: k_def a_def)
    have step: "unpack_bits n v off pos c =
        (if pos + k = 8 then unpack_bits (n - k) (v OR push_bit off (of_bits a)) (off + k) 0 bs
         else unpack_bits (n - k) (v OR push_bit off (of_bits a)) (off + k) (pos + k) c)"
      using False less.prems(1)
      unfolding c unpack_bits.simps [of n v off pos "b # bs"] Let_def cursor_simps bind_result_simps
        usize_sub_ok [OF less_imp_le [OF less.prems(1)]] k_def [symmetric] chunk_of_byte [OF k(3)]
        a_def [symmetric]
      by simp
    show ?thesis
    proof (cases "pos + k = 8")
      case True
      then have a: "drop pos (bits 8 b) = a" by (simp add: a_def)
      then have D: "drop pos (stream c) = a @ stream bs" using less.prems(1) by (simp add: c)
      have "n - k \<le> length (stream bs)" using less.prems(2) k(4) D by simp
      moreover have "n - k < n" "n - k \<le> 64" using k less.prems(3) by linarith+
      ultimately obtain pos' c' where "unpack_bits (n - k) (v OR push_bit off (of_bits a)) (off + k) 0 bs =
          Inr ((v OR push_bit off (of_bits a)) OR push_bit (off + k) (of_bits (take (n - k) (stream bs))), pos', c')"
          "pos' < 8" "drop pos' (stream c') = drop (n - k) (stream bs)"
        using less.IH [of "n - k" 0 bs "v OR push_bit off (of_bits a)" "off + k"] by auto
      then show ?thesis
        using step True k less.prems(3) or_push_of_bits [of a "take (n - k) (stream bs)" off]
        by (auto simp: D or.assoc)
    next
      case pos: False
      then have n: "n = k" using k(3) by (auto simp: k_def min_def split: if_splits)
      then show ?thesis
        using step pos k by (auto simp: unpack_bits.simps [of 0] c a_def add.commute)
    qed
  qed
qed

definition unpack_source_ok :: "nat \<times> read_cursor \<Rightarrow> bool" where
  "unpack_source_ok s \<longleftrightarrow> fst s < 8"

definition unpack_source_bits :: "nat \<times> read_cursor \<Rightarrow> bool list" where
  "unpack_source_bits s = drop (fst s) (stream (snd s))"

lemma from_u64_of_bits: "int_type TYPE('a) \<Longrightarrow> from_u64 (of_bits D) = (of_bits D :: 'a::len word)"
  by (simp add: from_u64_def low_bytes_of_bits int_type_def)

lemma unpack_next_ok:
  assumes "unpack_source_ok s" "n \<le> 64" "n \<le> length (unpack_source_bits s)" "int_type TYPE('a::len)"
  shows "\<exists>s'. unpack_next n s = Inr (of_bits (take n (unpack_source_bits s)) :: 'a word, s')
    \<and> unpack_source_ok s' \<and> unpack_source_bits s' = drop n (unpack_source_bits s)"
proof -
  obtain pos c where s: "s = (pos, c)" by fastforce
  obtain pos' c' where "unpack_bits n 0 0 pos c = Inr (of_bits (take n (drop pos (stream c))), pos', c')"
      "pos' < 8" "drop pos' (stream c') = drop n (drop pos (stream c))"
    using unpack_bits_ok [of pos n c 0 0] assms by (auto simp: s unpack_source_ok_def unpack_source_bits_def)
  then show ?thesis
    by (auto simp: s unpack_next_def unpack_source_ok_def unpack_source_bits_def from_u64_of_bits assms(4))
qed

interpretation unpacker: bit_source unpack_source_ok unpack_source_bits
  "\<lambda>n. n \<le> 64 \<and> int_type TYPE('a::len)"
  "unpack_next :: nat \<Rightarrow> nat \<times> read_cursor \<Rightarrow> ('a word \<times> nat \<times> read_cursor) result"
  by unfold_locales (rule unpack_next_ok, simp_all)

lemma bitpack_masks_0: "w \<le> 64 \<Longrightarrow> \<exists>m. vec_get bitpack_masks w = Inr m \<and> (m = 0 \<longleftrightarrow> w = 0)"
proof -
  assume w: "w \<le> 64"
  have len: "length bitpack_masks = 65" by (simp add: bitpack_masks_def)
  show ?thesis
  proof (cases "w = 64")
    case False
    then have "bitpack_masks ! w = mask w"
      using w by (simp add: bitpack_masks_def nth_append mask_eq_exp_minus_1 push_bit_eq_mult)
    moreover have "(mask w :: u64) = 0 \<longleftrightarrow> w = 0" using w False by (simp add: mask_eq_0_iff)
    ultimately show ?thesis using w len by (simp add: vec_get_def)
  qed (simp add: vec_get_def bitpack_masks_def nth_append)
qed

lemma of_bits_Nil [simp]: "of_bits [] = 0"
  by (simp add: of_bits_def)

lemma bit_unpack_ok:
  assumes w: "w \<le> 64" and pos: "bus_pos st < 8" "bus_width st = w" and ty: "int_type TYPE('a::len)"
    and fits: "n * w \<le> length (drop (bus_pos st) (stream c))"
  shows "\<exists>st' c'. bit_unpack st c n =
      Inr (map of_bits (chunks (replicate n w) (drop (bus_pos st) (stream c))) :: 'a word list, st', c')
    \<and> bus_width st' = w \<and> bus_pos st' < 8
    \<and> drop (bus_pos st') (stream c') = drop (n * w) (drop (bus_pos st) (stream c))"
proof (cases "w = 0")
  case True
  then show ?thesis
    using bitpack_masks_0 [of w] pos
    by (simp add: bit_unpack_def chunks_replicate comp_def map_replicate_const)
next
  case False
  obtain m where m: "vec_get bitpack_masks w = Inr m" "m \<noteq> 0" using bitpack_masks_0 [OF w] False by auto
  obtain s' where "read_values unpack_next (replicate n w) (bus_pos st, c) =
      Inr (map of_bits (chunks (replicate n w) (drop (bus_pos st) (stream c))) :: 'a word list, s')"
      "fst s' < 8" "drop (fst s') (stream (snd s')) = drop (n * w) (drop (bus_pos st) (stream c))"
    using unpacker.read_values_chunks [where ?'a = 'a, of "(bus_pos st, c)" "replicate n w"] w ty pos fits
    by (auto simp: unpack_source_ok_def unpack_source_bits_def sum_list_replicate)
  then show ?thesis using m w pos by (cases s') (auto simp: bit_unpack_def Let_def)
qed

lemma read_unsigned_vlq_loop_bytes:
  "take_bit (64 - s) v = v \<Longrightarrow> s < 64 \<Longrightarrow>
    read_unsigned_vlq_loop s acc (vlq_bytes v @ rest) = Inr (acc OR push_bit s v, rest)"
proof (induction v arbitrary: s acc rule: vlq_bytes.induct)
  case (1 v)
  show ?case
  proof (cases "drop_bit 7 v = 0")
    case True
    then show ?thesis
      by (simp add: vlq_bytes.simps [of v] and_high_bits read_unsigned_vlq_loop.simps [of s] Let_def
          low_byte take_bit_7_self)
  next
    case False
    have room: "s + 7 < 64" using septet_room [OF "1.prems"(1) False] .
    have "read_unsigned_vlq_loop s acc (vlq_bytes v @ rest) =
        read_unsigned_vlq_loop (s + 7) (acc OR push_bit s (take_bit 7 v)) (vlq_bytes (drop_bit 7 v) @ rest)"
      using False room
      by (simp add: vlq_bytes.simps [of v] and_high_bits high_byte Let_def
          read_unsigned_vlq_loop.simps [of s acc "_ # _"])
    then show ?thesis
      using "1.IH" [OF _ take_bit_drop_7 [OF "1.prems"(1)] room] False
      by (simp add: and_high_bits septets)
  qed
qed

lemma read_unsigned_vlq_bytes [simp]: "read_unsigned_vlq (vlq_bytes v @ rest) = Inr (v, rest)"
  using read_unsigned_vlq_loop_bytes [of 0 v 0 rest]
  by (simp add: read_unsigned_vlq_def take_bit_word_eq_self)

section \<open>The run length decoder\<close>

record rle_decoder =
  rd_buffer :: read_cursor
  rd_width :: nat
  rd_curr :: u64
  rd_rle_left :: nat
  rd_packed_left :: nat
  rd_bit_pos :: nat
  rd_byte_len :: nat

definition rle_decoder_new :: "read_cursor \<Rightarrow> nat \<Rightarrow> rle_decoder result" where
  "rle_decoder_new buffer bit_width =
     (if 64 < bit_width then Inl (Panic ''assertion failed: bit_width <= 64'')
      else Inr \<lparr>rd_buffer = buffer, rd_width = bit_width, rd_curr = 0, rd_rle_left = 0,
                rd_packed_left = 0, rd_bit_pos = 0, rd_byte_len = ceil bit_width 8\<rparr>)"

fun read_run_value :: "nat list \<Rightarrow> u64 \<Rightarrow> read_cursor \<Rightarrow> (u64 \<times> read_cursor) result" where
  "read_run_value [] v cursor = Inr (v, cursor)"
| "read_run_value (idx # idxs) v cursor =
     bind_result (read_next_unchecked cursor) (\<lambda>(b, cursor).
     read_run_value idxs (v OR push_bit (idx * 8) (ucast b)) cursor)"

definition rle_read_next :: "rle_decoder \<Rightarrow> rle_decoder result" where
  "rle_read_next d =
     (if rd_bit_pos d \<noteq> 0 then Inl (DbError ''RleBpDecoder.read_next requires byte alignment'')
      else
        bind_result (read_unsigned_vlq (rd_buffer d)) (\<lambda>(indicator_val, buffer).
        if indicator_val AND 1 = 1
        then
          let num_groups = unat (drop_bit 1 indicator_val)
          in if 2 ^ 64 \<le> num_groups * 8 then Inl (Panic ''attempt to multiply with overflow'')
             else Inr (d\<lparr>rd_buffer := buffer, rd_packed_left := num_groups * 8\<rparr>)
        else
          bind_result (read_run_value [0..<rd_byte_len d] 0 buffer) (\<lambda>(curr_val, buffer).
          Inr (d\<lparr>rd_buffer := buffer, rd_rle_left := unat (drop_bit 1 indicator_val),
                 rd_curr := curr_val\<rparr>))))"

lemma read_unsigned_vlq_loop_shorter:
  "read_unsigned_vlq_loop s v c = Inr (u, c') \<Longrightarrow> length c' < length c"
proof (induction s v c rule: read_unsigned_vlq_loop.induct)
  case (1 s v c)
  then show ?case
    by (cases c) (fastforce simp: read_unsigned_vlq_loop.simps [of s v] Let_def split: if_splits)+
qed

lemma read_run_value_shorter: "read_run_value idxs v c = Inr (u, c') \<Longrightarrow> length c' \<le> length c"
  by (induction idxs v c rule: read_run_value.induct)
     (fastforce simp: bind_result_eq_Inr read_next_unchecked_eq_Inr)+

lemma rle_read_next_shorter:
  "rle_read_next d = Inr d' \<Longrightarrow> length (rd_buffer d') < length (rd_buffer d)"
  by (fastforce simp: rle_read_next_def Let_def bind_result_eq_Inr read_unsigned_vlq_def
      dest: read_unsigned_vlq_loop_shorter read_run_value_shorter split: if_splits)

function rle_read :: "nat \<Rightarrow> rle_decoder \<Rightarrow> ('a::len word list \<times> rle_decoder) result" where
  "rle_read n d =
     (if n = 0 then Inr ([], d)
      else if 0 < rd_rle_left d
      then
        let count = min n (rd_rle_left d)
        in bind_result (rle_read (n - count) (d\<lparr>rd_rle_left := rd_rle_left d - count\<rparr>)) (\<lambda>(vs, d').
           Inr (replicate count (from_u64 (rd_curr d)) @ vs, d'))
      else if 0 < rd_packed_left d
      then
        let count = min n (rd_packed_left d);
            state = (bit_unpack_state_new (rd_width d))\<lparr>bus_pos := rd_bit_pos d\<rparr>
        in bind_result (bit_unpack state (rd_buffer d) count) (\<lambda>(us, state, buffer).
           bind_result (rle_read (n - count)
               (d\<lparr>rd_buffer := buffer, rd_bit_pos := bus_pos state,
                  rd_packed_left := rd_packed_left d - count\<rparr>)) (\<lambda>(vs, d').
           Inr (us @ vs, d')))
      else bind_result (rle_read_next d) (rle_read n))"
  by pat_completeness auto

termination rle_read
  by (relation "measures [\<lambda>(n, d). n, \<lambda>(n, d). length (rd_buffer d)]")
     (auto simp: rle_read_next_shorter)

declare rle_read.simps [simp del]

section \<open>The format\<close>

datatype rle_run = Repeated nat u64 | Packed "u64 list"

fun run_values :: "rle_run \<Rightarrow> u64 list" where
  "run_values (Repeated k v) = replicate k v"
| "run_values (Packed vs) = vs"

definition bytes_of_bits :: "bool list \<Rightarrow> byte list" where
  "bytes_of_bits bl = map of_bits (chunks (replicate (length bl div 8) 8) bl)"

definition pack :: "nat \<Rightarrow> u64 list \<Rightarrow> bool list" where
  "pack w vs = concat (map (bits w) vs)"

fun run_bytes :: "nat \<Rightarrow> rle_run \<Rightarrow> byte list" where
  "run_bytes w (Repeated k v) = vlq_bytes (of_nat (2 * k)) @ take (ceil w 8) (to_le_bytes v)"
| "run_bytes w (Packed vs) = vlq_bytes (of_nat (2 * (length vs div 8) + 1)) @ bytes_of_bits (pack w vs)"

fun run_ok :: "nat \<Rightarrow> rle_run \<Rightarrow> bool" where
  "run_ok w (Repeated k v) \<longleftrightarrow> k < 2 ^ 63 \<and> take_bit w v = v"
| "run_ok w (Packed vs) \<longleftrightarrow> 8 dvd length vs \<and> length vs < 2 ^ 63 \<and> (\<forall>v \<in> set vs. take_bit w v = v)"

lemma length_pack [simp]: "length (pack w vs) = length vs * w"
  by (induction vs) (simp_all add: pack_def)

lemma pack_append: "pack w (us @ vs) = pack w us @ pack w vs"
  by (simp add: pack_def)

lemma chunks_pack:
  assumes ty: "int_type TYPE('a::len)" and fit: "\<forall>v \<in> set vs. take_bit w v = v"
  shows "map of_bits (chunks (replicate (length vs) w) (pack w vs @ rest)) =
    (map from_u64 vs :: 'a word list)"
proof -
  have "chunks (replicate (length vs) w) (pack w vs @ rest) = map (bits w) vs"
    using chunks_concat [of "map (bits w) vs" rest] by (simp add: pack_def comp_def map_replicate_const)
  moreover have "(of_bits (bits w v) :: 'a word) = from_u64 v" if "v \<in> set vs" for v
    using fit that from_u64_of_bits [OF ty, of "bits w v"] by (simp add: of_bits_bits)
  ultimately show ?thesis by simp
qed

lemma stream_bytes_of_bits: "8 dvd length bl \<Longrightarrow> stream (bytes_of_bits bl) = bl"
proof (induction "length bl" arbitrary: bl rule: less_induct)
  case less
  show ?case
  proof (cases "bl = []")
    case False
    then have len: "8 \<le> length bl" using less.prems by (auto dest: dvd_imp_le)
    then have div: "length bl div 8 = Suc (length (drop 8 bl) div 8)"
      by (simp add: le_div_geq)
    have "8 dvd length (drop 8 bl)" using less.prems len by (simp add: dvd_diff_nat)
    then have "stream (bytes_of_bits (drop 8 bl)) = drop 8 bl" using less.hyps len False by simp
    moreover have "bits 8 (of_bits (take 8 bl) :: byte) = take 8 bl"
      using bits_of_bits [of "take 8 bl", where ?'a = 8] len by simp
    ultimately show ?thesis by (simp add: bytes_of_bits_def div)
  qed (simp add: bytes_of_bits_def)
qed

lemma length_bytes_of_bits [simp]: "length (bytes_of_bits bl) = length bl div 8"
  by (simp add: bytes_of_bits_def)

lemma unat_of_nat_64: "m < 2 ^ 64 \<Longrightarrow> unat (of_nat m :: u64) = m"
  by (simp add: unsigned_of_nat take_bit_nat_eq_self)

lemma even_indicator:
  assumes "k < 2 ^ 63"
  shows "(of_nat (2 * k) :: u64) AND 1 \<noteq> 1" "unat (drop_bit 1 (of_nat (2 * k) :: u64)) = k"
proof -
  have u: "unat (of_nat (2 * k) :: u64) = 2 * k" using assms by (intro unat_of_nat_64) simp
  show "(of_nat (2 * k) :: u64) AND 1 \<noteq> 1" by (simp add: and_one_eq mod2_eq_if)
  show "unat (drop_bit 1 (of_nat (2 * k) :: u64)) = k"
    unfolding unat_drop_bit_eq u by (simp add: drop_bit_eq_div)
qed

lemma odd_indicator:
  assumes "k < 2 ^ 63"
  shows "(of_nat (2 * k + 1) :: u64) AND 1 = 1" "unat (drop_bit 1 (of_nat (2 * k + 1) :: u64)) = k"
proof -
  have u: "unat (of_nat (2 * k + 1) :: u64) = 2 * k + 1" using assms by (intro unat_of_nat_64) simp
  show "(of_nat (2 * k + 1) :: u64) AND 1 = 1" by (simp add: and_one_eq mod2_eq_if)
  show "unat (drop_bit 1 (of_nat (2 * k + 1) :: u64)) = k"
    unfolding unat_drop_bit_eq u by (simp add: drop_bit_eq_div)
qed

lemma read_run_value_bytes:
  "i + length bs \<le> 8 \<Longrightarrow>
    read_run_value [i..<i + length bs] acc (bs @ rest) = Inr (acc OR push_bit (i * 8) (from_le_bytes bs), rest)"
proof (induction bs arbitrary: i acc)
  case (Cons b bs)
  have upt: "[i..<i + length (b # bs)] = i # [Suc i..<Suc i + length bs]"
    by (simp add: upt_conv_Cons del: upt_Suc)
  have merge: "push_bit (i * 8) (ucast b) OR push_bit (Suc i * 8) (from_le_bytes bs) =
      (push_bit (i * 8) (from_le_bytes (b # bs)) :: u64)"
    by (simp add: add.commute)
  have "Suc i + length bs \<le> 8" using Cons.prems by simp
  from Cons.IH [OF this] show ?case
    unfolding upt append_Cons read_run_value.simps cursor_simps bind_result_simps prod.case
      merge [symmetric] by (simp only: or.assoc)
qed simp

lemma run_value_bytes:
  assumes "w \<le> 64" "take_bit w v = v"
  shows "read_run_value [0..<ceil w 8] 0 (take (ceil w 8) (to_le_bytes v) @ rest) = Inr (v, rest)"
proof -
  have le: "ceil w 8 \<le> 8" "w \<le> 8 * ceil w 8" using assms(1) by (simp_all add: ceil_8)
  have "stream (take (ceil w 8) (to_le_bytes v)) = take (8 * ceil w 8) (bits 64 v)"
    by (simp add: stream_to_le_bytes flip: take_stream)
  also have "of_bits \<dots> = take_bit (8 * ceil w 8) v"
    using le by (intro bit_word_eqI) (auto simp: stream_simps bit_simps)
  finally have "from_le_bytes (take (ceil w 8) (to_le_bytes v)) = take_bit (8 * ceil w 8) v"
    by (simp add: from_le_bytes_of_bits)
  moreover have "take_bit (8 * ceil w 8) v = v"
    using take_bit_bit [OF assms(2)] le by (intro take_bit_selfI) (meson le_trans less_le_trans)
  ultimately show ?thesis
    using le read_run_value_bytes [of 0 "take (ceil w 8) (to_le_bytes v)" 0 rest]
    by (simp add: min_def)
qed

subsection \<open>What a decoder still has to deliver\<close>

definition denotes :: "rle_decoder \<Rightarrow> u64 list \<Rightarrow> bool" where
  "denotes d vs \<longleftrightarrow>
     rd_width d \<le> 64 \<and> rd_byte_len d = ceil (rd_width d) 8 \<and> rd_bit_pos d < 8
     \<and> (rd_rle_left d = 0 \<or> rd_packed_left d = 0)
     \<and> (\<exists>ps runs rest.
          vs = replicate (rd_rle_left d) (rd_curr d) @ ps @ concat (map run_values runs)
          \<and> length ps = rd_packed_left d \<and> (\<forall>v \<in> set ps. take_bit (rd_width d) v = v)
          \<and> (\<forall>r \<in> set runs. run_ok (rd_width d) r)
          \<and> drop (rd_bit_pos d) (stream (rd_buffer d)) =
              pack (rd_width d) ps @ stream (concat (map (run_bytes (rd_width d)) runs) @ rest))"

lemma denotes_new:
  assumes "w \<le> 64" "\<forall>r \<in> set runs. run_ok w r"
  obtains d where "rle_decoder_new (concat (map (run_bytes w) runs) @ rest) w = Inr d"
    "denotes d (concat (map run_values runs))"
proof
  let ?d = "\<lparr>rd_buffer = concat (map (run_bytes w) runs) @ rest, rd_width = w, rd_curr = 0,
    rd_rle_left = 0, rd_packed_left = 0, rd_bit_pos = 0, rd_byte_len = ceil w 8\<rparr>"
  show "rle_decoder_new (concat (map (run_bytes w) runs) @ rest) w = Inr ?d"
    using assms by (simp add: rle_decoder_new_def)
  show "denotes ?d (concat (map run_values runs))"
    unfolding denotes_def using assms
    by (auto intro!: exI [of _ "[]"] exI [of _ runs] exI [of _ rest] simp: pack_def)
qed

lemma denotes_rle:
  assumes d: "denotes d vs" "0 < rd_rle_left d" and k: "k \<le> rd_rle_left d"
  shows "take k vs = replicate k (rd_curr d)"
    "denotes (d\<lparr>rd_rle_left := rd_rle_left d - k\<rparr>) (drop k vs)"
proof -
  obtain ps runs rest where vs: "vs = replicate (rd_rle_left d) (rd_curr d) @ ps @ concat (map run_values runs)"
      "length ps = rd_packed_left d" "\<forall>v \<in> set ps. take_bit (rd_width d) v = v"
      "\<forall>r \<in> set runs. run_ok (rd_width d) r"
      "drop (rd_bit_pos d) (stream (rd_buffer d)) =
        pack (rd_width d) ps @ stream (concat (map (run_bytes (rd_width d)) runs) @ rest)"
    using d(1) unfolding denotes_def by blast
  show "take k vs = replicate k (rd_curr d)" using vs(1) k by (simp add: take_replicate min_def)
  have "drop k vs = replicate (rd_rle_left d - k) (rd_curr d) @ ps @ concat (map run_values runs)"
    using vs(1) k by simp
  then show "denotes (d\<lparr>rd_rle_left := rd_rle_left d - k\<rparr>) (drop k vs)"
    using d vs(2-) unfolding denotes_def by auto
qed

lemma denotes_packed:
  assumes d: "denotes d vs" "rd_rle_left d = 0" and k: "k \<le> rd_packed_left d"
    and ty: "int_type TYPE('a::len)"
  obtains st c where
    "bit_unpack ((bit_unpack_state_new (rd_width d))\<lparr>bus_pos := rd_bit_pos d\<rparr>) (rd_buffer d) k =
       Inr (map from_u64 (take k vs) :: 'a word list, st, c)"
    "denotes (d\<lparr>rd_buffer := c, rd_bit_pos := bus_pos st, rd_packed_left := rd_packed_left d - k\<rparr>) (drop k vs)"
proof -
  let ?w = "rd_width d"
  obtain ps runs rest where vs: "vs = ps @ concat (map run_values runs)"
      "length ps = rd_packed_left d" "\<forall>v \<in> set ps. take_bit ?w v = v" "\<forall>r \<in> set runs. run_ok ?w r"
      "drop (rd_bit_pos d) (stream (rd_buffer d)) =
        pack ?w ps @ stream (concat (map (run_bytes ?w) runs) @ rest)"
    using d unfolding denotes_def by auto
  have w: "?w \<le> 64" "rd_bit_pos d < 8" using d unfolding denotes_def by auto
  let ?rest = "pack ?w (drop k ps) @ stream (concat (map (run_bytes ?w) runs) @ rest)"
  have D: "drop (rd_bit_pos d) (stream (rd_buffer d)) = pack ?w (take k ps) @ ?rest"
    unfolding vs(5) append_assoc [symmetric] pack_append [symmetric] by simp
  have len: "length (take k ps) = k" using k vs(2) by simp
  have take: "take k vs = take k ps" "drop k vs = drop k ps @ concat (map run_values runs)"
    using k vs(1,2) by simp_all
  have "map of_bits (chunks (replicate k ?w) (pack ?w (take k ps) @ ?rest)) =
      (map from_u64 (take k vs) :: 'a word list)"
    using chunks_pack [OF ty, of "take k ps" ?w ?rest] vs(3) len take by (auto dest: in_set_takeD)
  then obtain st c where st:
      "bit_unpack ((bit_unpack_state_new ?w)\<lparr>bus_pos := rd_bit_pos d\<rparr>) (rd_buffer d) k =
        Inr (map from_u64 (take k vs) :: 'a word list, st, c)"
      "bus_pos st < 8" "drop (bus_pos st) (stream c) = drop (k * ?w) (pack ?w (take k ps) @ ?rest)"
    using bit_unpack_ok [OF w(1) _ _ ty, of "(bit_unpack_state_new ?w)\<lparr>bus_pos := rd_bit_pos d\<rparr>" k "rd_buffer d"]
      w(2) len by (auto simp: bit_unpack_state_new_def D)
  have "drop (bus_pos st) (stream c) = ?rest" using st(3) len by simp
  then have "denotes (d\<lparr>rd_buffer := c, rd_bit_pos := bus_pos st, rd_packed_left := rd_packed_left d - k\<rparr>) (drop k vs)"
    using d st(2) vs(2-4) len take unfolding denotes_def
    by (auto intro!: exI [of _ "drop k ps"] exI [of _ runs] exI [of _ rest] dest: in_set_dropD)
  then show thesis using that st(1) by blast
qed

lemma vlq_bytes_not_Nil [simp]: "vlq_bytes v \<noteq> []"
  by (simp add: vlq_bytes.simps [of v])

lemma stream_aligned:
  assumes "drop p (stream bs) = stream cs" "p < 8" "cs \<noteq> []"
  shows "p = 0" "bs = cs"
proof -
  have "8 * length bs - p = 8 * length cs" using arg_cong [OF assms(1), of length] by simp
  moreover have "0 < length cs" using assms(3) by simp
  ultimately show "p = 0" using assms(2) by presburger
  then show "bs = cs" using assms(1) by (simp add: stream_inject)
qed

lemma denotes_next:
  assumes d: "denotes d vs" "rd_rle_left d = 0" "rd_packed_left d = 0" and vs: "vs \<noteq> []"
  obtains d' where "rle_read_next d = Inr d'" "denotes d' vs"
proof -
  let ?w = "rd_width d"
  have w: "?w \<le> 64" "rd_byte_len d = ceil ?w 8" "rd_bit_pos d < 8" using d unfolding denotes_def by auto
  obtain runs rest where runs: "vs = concat (map run_values runs)" "\<forall>r \<in> set runs. run_ok ?w r"
      "drop (rd_bit_pos d) (stream (rd_buffer d)) = stream (concat (map (run_bytes ?w) runs) @ rest)"
    using d unfolding denotes_def by (auto simp: pack_def)
  then obtain r rs where rs: "runs = r # rs" using vs by (cases runs) auto
  have "run_bytes ?w r \<noteq> []" by (cases r) auto
  then have pos: "rd_bit_pos d = 0"
      and buffer: "rd_buffer d = run_bytes ?w r @ concat (map (run_bytes ?w) rs) @ rest"
    using stream_aligned [OF runs(3) w(3)] by (simp_all add: rs)
  let ?rest = "concat (map (run_bytes ?w) rs) @ rest"
  show thesis
  proof (cases r)
    case (Repeated k v)
    then have k: "k < 2 ^ 63" "take_bit ?w v = v" using runs(2) rs by auto
    let ?d = "d\<lparr>rd_buffer := ?rest, rd_rle_left := k, rd_curr := v\<rparr>"
    have "rle_read_next d = Inr ?d"
      unfolding rle_read_next_def buffer using pos w(2)
      by (simp only: Repeated run_bytes.simps append_assoc read_unsigned_vlq_bytes bind_result_simps
          prod.case even_indicator [OF k(1)] if_False run_value_bytes [OF w(1) k(2)] not_False_eq_True
          simp_thms)
    moreover have "denotes ?d vs"
      using d runs(1,2) w rs Repeated pos unfolding denotes_def
      by (auto intro!: exI [of _ "[]"] exI [of _ rs] exI [of _ rest] simp: pack_def)
    ultimately show thesis using that by blast
  next
    case (Packed ps)
    then have ps: "8 dvd length ps" "length ps < 2 ^ 63" "\<forall>v \<in> set ps. take_bit ?w v = v"
      using runs(2) rs by auto
    have groups: "length ps div 8 < 2 ^ 63" "length ps div 8 * 8 = length ps" "length ps < 2 ^ 64"
      using ps(1,2) by auto
    let ?d = "d\<lparr>rd_buffer := bytes_of_bits (pack ?w ps) @ ?rest, rd_packed_left := length ps\<rparr>"
    have "rle_read_next d = Inr ?d"
      unfolding rle_read_next_def buffer using pos groups(3)
      by (simp only: Packed run_bytes.simps append_assoc read_unsigned_vlq_bytes bind_result_simps
          prod.case odd_indicator [OF groups(1)] if_True Let_def groups(2) not_le [symmetric] simp_thms
          if_False)
    moreover have "8 dvd length (pack ?w ps)" using ps(1) by simp
    then have "denotes ?d vs"
      using d runs(1,2) w rs Packed pos ps unfolding denotes_def
      by (auto intro!: exI [of _ ps] exI [of _ rs] exI [of _ rest] simp: stream_bytes_of_bits)
    ultimately show thesis using that by blast
  qed
qed

lemma rle_read_denotes:
  "denotes d vs \<Longrightarrow> n \<le> length vs \<Longrightarrow> int_type TYPE('a::len) \<Longrightarrow>
    \<exists>d'. rle_read n d = Inr (map from_u64 (take n vs) :: 'a word list, d') \<and> denotes d' (drop n vs)"
proof (induction n arbitrary: d vs rule: less_induct)
  case (less n)
  note shorter = less.IH and outer = less.prems
  show ?case
    using outer(1)
  proof (induction "length (rd_buffer d)" arbitrary: d rule: less_induct)
    case (less d)
    consider "n = 0" | "0 < n" "0 < rd_rle_left d" | "0 < n" "rd_rle_left d = 0" "0 < rd_packed_left d"
      | "0 < n" "rd_rle_left d = 0" "rd_packed_left d = 0" by linarith
    then show ?case
    proof cases
      case 1
      then show ?thesis using less.prems by (simp add: rle_read.simps [of 0])
    next
      case 2
      let ?k = "min n (rd_rle_left d)"
      have lt: "n - ?k < n" "n - ?k \<le> length (drop ?k vs)" using 2 outer(2) by auto
      note step = denotes_rle [OF less.prems 2(2), of ?k, simplified]
      obtain d' where "rle_read (n - ?k) (d\<lparr>rd_rle_left := rd_rle_left d - ?k\<rparr>) =
          Inr (map from_u64 (take (n - ?k) (drop ?k vs)) :: 'a word list, d')" "denotes d' (drop (n - ?k) (drop ?k vs))"
        using shorter [OF lt(1) step(2) lt(2) outer(3)] by blast
      moreover have "take n vs = take ?k vs @ take (n - ?k) (drop ?k vs)" "drop (n - ?k) (drop ?k vs) = drop n vs"
        by (simp_all add: take_add [symmetric])
      ultimately show ?thesis
        using 2 step(1) by (simp add: rle_read.simps [of n d] Let_def)
    next
      case 3
      let ?k = "min n (rd_packed_left d)"
      obtain st c where step:
          "bit_unpack ((bit_unpack_state_new (rd_width d))\<lparr>bus_pos := rd_bit_pos d\<rparr>) (rd_buffer d) ?k =
            Inr (map from_u64 (take ?k vs) :: 'a word list, st, c)"
          "denotes (d\<lparr>rd_buffer := c, rd_bit_pos := bus_pos st, rd_packed_left := rd_packed_left d - ?k\<rparr>) (drop ?k vs)"
        using denotes_packed [OF less.prems 3(2), of ?k] outer(3) by auto
      have lt: "n - ?k < n" "n - ?k \<le> length (drop ?k vs)" using 3 outer(2) by auto
      obtain d' where "rle_read (n - ?k) (d\<lparr>rd_buffer := c, rd_bit_pos := bus_pos st,
            rd_packed_left := rd_packed_left d - ?k\<rparr>) =
          Inr (map from_u64 (take (n - ?k) (drop ?k vs)) :: 'a word list, d')" "denotes d' (drop (n - ?k) (drop ?k vs))"
        using shorter [OF lt(1) step(2) lt(2) outer(3)] by blast
      moreover have "take n vs = take ?k vs @ take (n - ?k) (drop ?k vs)" "drop (n - ?k) (drop ?k vs) = drop n vs"
        by (simp_all add: take_add [symmetric])
      ultimately show ?thesis
        using 3 step(1) by (simp add: rle_read.simps [of n d] Let_def)
    next
      case 4
      then have "vs \<noteq> []" using outer(2) by auto
      then obtain d1 where d1: "rle_read_next d = Inr d1" "denotes d1 vs"
        using denotes_next [OF less.prems 4(2,3)] by blast
      then show ?thesis
        using less.hyps [OF rle_read_next_shorter [OF d1(1)] d1(2)] 4
        by (simp add: rle_read.simps [of n d])
    qed
  qed
qed

end
