(* ===== verification/Rle_Encoder.thy ===== *)
theory Rle_Encoder
  imports Rle
begin

text \<open>
  The RLE/bit-packing hybrid encoder (\<open>glaredb_ext_parquet/src/encodings/rle.rs\<close>,
  \<open>RleEncoder\<close>): it buffers eight values, repeats a value that fills the buffer as a run and
  packs the others, writing the header of a packed run into a byte it reserved before. The
  \<open>usize\<close> counters are naturals; the length header is a 64-bit word.

  Its invariant describes the writer as the runs that are complete, the packed run that is
  still open and the values that wait in the buffer. With the decoder's theorem it gives the
  round trip and the bound on the encoded size.
\<close>

section \<open>The run length encoder\<close>

record rle_encoder =
  re_width :: nat
  re_writer :: bit_writer
  re_buffered :: "u64 list"
  re_num :: nat
  re_current :: u64
  re_repeat :: nat
  re_packed :: nat
  re_indicator :: int

definition rle_encoder_from_buf :: "nat \<Rightarrow> byte list \<Rightarrow> rle_encoder" where
  "rle_encoder_from_buf bit_width buffer =
     \<lparr>re_width = bit_width, re_writer = bit_writer_from_buf buffer, re_buffered = replicate 8 0,
      re_num = 0, re_current = 0, re_repeat = 0, re_packed = 0, re_indicator = - 1\<rparr>"

definition max_buffer_size :: "nat \<Rightarrow> nat \<Rightarrow> nat" where
  "max_buffer_size bit_width num_values =
     (let num_runs = ceil num_values 8;
          bytes_per_run = bit_width;
          bit_packed_max_size = num_runs + num_runs * bytes_per_run;
          rle_len_prefix = 1;
          min_rle_run_size = rle_len_prefix + ceil bit_width 8;
          rle_max_size = num_runs * min_rle_run_size
      in max bit_packed_max_size rle_max_size)"

definition flush_rle_run :: "rle_encoder \<Rightarrow> rle_encoder result" where
  "flush_rle_run e =
     (if re_repeat e = 0 then Inl (Panic ''assertion failed: self.repeat_count > 0'')
      else
        let indicator_value = push_bit 1 (of_nat (re_repeat e)) :: u64;
            w = put_vlq_int indicator_value (re_writer e);
            w = put_aligned (re_current e) (ceil (re_width e) 8) w
        in Inr (e\<lparr>re_writer := w, re_num := 0, re_repeat := 0\<rparr>))"

definition flush_bit_packed_run :: "bool \<Rightarrow> rle_encoder \<Rightarrow> rle_encoder result" where
  "flush_bit_packed_run update_indicator_byte e =
     (let e = (if re_indicator e < 0
               then let (position, w) = bw_skip 1 (re_writer e)
                    in e\<lparr>re_indicator := int position, re_writer := w\<rparr>
               else e)
      in bind_result
           (fold_results (\<lambda>i w. bind_result (vec_get (re_buffered e) i) (\<lambda>v. put_value v (re_width e) w))
              [0..<re_num e] (re_writer e))
           (\<lambda>w.
         let e = e\<lparr>re_writer := w, re_num := 0\<rparr>
         in if update_indicator_byte
            then
              let num_groups = re_packed e div 8;
                  indicator_byte = ucast (push_bit 1 (of_nat num_groups) OR 1 :: u64) :: byte
              in bind_result (put_aligned_offset indicator_byte 1 (nat (re_indicator e)) (re_writer e)) (\<lambda>w.
                 Inr (e\<lparr>re_writer := w, re_indicator := - 1, re_packed := 0\<rparr>))
            else Inr e))"

definition MAX_GROUPS_PER_BIT_PACKED_RUN :: nat where
  "MAX_GROUPS_PER_BIT_PACKED_RUN = 64"

definition flush_buffered_values :: "rle_encoder \<Rightarrow> rle_encoder result" where
  "flush_buffered_values e =
     (if 8 \<le> re_repeat e
      then
        let e = e\<lparr>re_num := 0\<rparr>
        in if 0 < re_packed e
           then if re_packed e mod 8 \<noteq> 0 then Inl (Panic ''assertion failed: bit_packed_count % 8 == 0'')
                else flush_bit_packed_run True e
           else Inr e
      else
        let e = e\<lparr>re_packed := re_packed e + re_num e\<rparr>;
            num_groups = re_packed e div 8
        in bind_result
             (if MAX_GROUPS_PER_BIT_PACKED_RUN \<le> num_groups + 1
              then if re_indicator e < 0 then Inl (Panic ''assertion failed: self.indicator_byte_pos >= 0'')
                   else flush_bit_packed_run True e
              else flush_bit_packed_run False e)
             (\<lambda>e. Inr (e\<lparr>re_repeat := 0\<rparr>)))"

definition buffer_value :: "u64 \<Rightarrow> rle_encoder \<Rightarrow> rle_encoder result" where
  "buffer_value v e =
     bind_result (vec_set (re_buffered e) (re_num e) v) (\<lambda>buffered.
     let e = e\<lparr>re_buffered := buffered, re_num := re_num e + 1\<rparr>
     in if re_num e = 8
        then if re_packed e mod 8 \<noteq> 0 then Inl (Panic ''assertion failed: bit_packed_count % 8 == 0'')
             else flush_buffered_values e
        else Inr e)"

definition rle_put :: "u64 \<Rightarrow> rle_encoder \<Rightarrow> rle_encoder result" where
  "rle_put v e =
     (if re_current e = v
      then
        let e = e\<lparr>re_repeat := re_repeat e + 1\<rparr>
        in if 8 < re_repeat e then Inr e else buffer_value v e
      else
        bind_result
          (if 8 \<le> re_repeat e
           then if re_packed e \<noteq> 0 then Inl (Panic ''assertion failed: bit_packed_count == 0'')
                else flush_rle_run e
           else Inr e)
          (\<lambda>e. buffer_value v (e\<lparr>re_repeat := 1, re_current := v\<rparr>)))"

definition rle_flush :: "rle_encoder \<Rightarrow> rle_encoder result" where
  "rle_flush e =
     (if 0 < re_packed e \<or> 0 < re_repeat e \<or> 0 < re_num e
      then
        let all_repeat = (re_packed e = 0 \<and> (re_repeat e = re_num e \<or> re_num e = 0))
        in if 0 < re_repeat e \<and> all_repeat then flush_rle_run e
           else
             bind_result
               (if 0 < re_num e
                then bind_result (fold_results (\<lambda>i b. vec_set b i 0) [re_num e..<8] (re_buffered e)) (\<lambda>b.
                     Inr (e\<lparr>re_buffered := b, re_num := max 8 (re_num e)\<rparr>))
                else Inr e)
               (\<lambda>e. bind_result (flush_bit_packed_run True (e\<lparr>re_packed := re_packed e + re_num e\<rparr>)) (\<lambda>e.
               Inr (e\<lparr>re_repeat := 0\<rparr>)))
      else Inr e)"

definition rle_consume :: "rle_encoder \<Rightarrow> byte list result" where
  "rle_consume e = bind_result (rle_flush e) (\<lambda>e. Inr (bw_consume (re_writer e)))"

definition rle_clear :: "rle_encoder \<Rightarrow> rle_encoder" where
  "rle_clear e =
     e\<lparr>re_writer := bw_clear (re_writer e), re_num := 0, re_current := 0, re_repeat := 0,
       re_packed := 0, re_indicator := - 1\<rparr>"

definition rle_len :: "rle_encoder \<Rightarrow> nat" where
  "rle_len e = bytes_written (re_writer e)"

section \<open>What the encoder has written\<close>

lemma writer_bits_length: "length (writer_bits w) = 8 * length (bw_buffer w) + bw_offset w"
  by (simp add: writer_bits_def)

lemma writer_aligned:
  assumes "writer_ok w" "8 dvd length (writer_bits w)"
  shows "writer_bits (bw_flush w) = writer_bits w" "stream (bw_consume w) = writer_bits w"
proof -
  have "8 dvd bw_offset w" using assms(2) by (simp add: writer_bits_length dvd_add_right_iff)
  then have "8 * ceil (bw_offset w) 8 - bw_offset w = 0" by (auto elim!: dvdE)
  then show "writer_bits (bw_flush w) = writer_bits w" "stream (bw_consume w) = writer_bits w"
    by (simp_all add: writer_bits_flush bw_consume_bits assms(1))
qed

lemma writer_bits_append_bytes:
  assumes "writer_ok w" "8 dvd length (writer_bits w)"
  shows "writer_bits (append_bytes bs w) = writer_bits w @ stream bs"
  using writer_aligned(2) [OF assms]
  by (simp add: writer_bits_def [of "append_bytes bs w"] bw_consume_def)

definition emitted :: "byte list \<Rightarrow> rle_run list \<Rightarrow> u64 list \<Rightarrow> rle_encoder \<Rightarrow> bool" where
  "emitted prefix rs ps e \<longleftrightarrow>
     (let base = prefix @ concat (map (run_bytes (re_width e)) rs) in
      writer_ok (re_writer e) \<and> 8 dvd length ps
      \<and> (if ps = [] then re_indicator e = - 1 \<and> writer_bits (re_writer e) = stream base
         else re_indicator e = int (length base) \<and> length base < length (bw_buffer (re_writer e))
              \<and> writer_bits (re_writer e) = stream (base @ [0]) @ pack (re_width e) ps))"

lemma emitted_aligned: "emitted prefix rs ps e \<Longrightarrow> 8 dvd length (writer_bits (re_writer e))"
  by (auto simp: emitted_def Let_def split: if_splits)

lemma flush_rle_run_emitted:
  assumes e: "emitted prefix rs [] e" and k: "0 < re_repeat e"
  obtains e' where "flush_rle_run e = Inr e'" "emitted prefix (rs @ [Repeated (re_repeat e) (re_current e)]) [] e'"
    "re_repeat e' = 0" "re_num e' = 0" "re_width e' = re_width e" "re_buffered e' = re_buffered e"
    "re_packed e' = re_packed e" "re_current e' = re_current e"
proof
  let ?bs = "run_bytes (re_width e) (Repeated (re_repeat e) (re_current e))"
  let ?e = "e\<lparr>re_writer := append_bytes ?bs (re_writer e), re_num := 0, re_repeat := 0\<rparr>"
  have "push_bit 1 (of_nat (re_repeat e)) = (of_nat (2 * re_repeat e) :: u64)"
    by (simp add: push_bit_eq_mult)
  then show "flush_rle_run e = Inr ?e"
    using k by (simp add: flush_rle_run_def Let_def put_vlq_int_append put_aligned_append append_bytes_append
        mult.commute)
  show "emitted prefix (rs @ [Repeated (re_repeat e) (re_current e)]) [] ?e"
    using e writer_bits_append_bytes [OF _ emitted_aligned [OF e], of ?bs]
    by (simp add: emitted_def Let_def)
qed simp_all

lemma fold_vec_get:
  assumes "n \<le> length b"
  shows "fold_results (\<lambda>i w. bind_result (vec_get b i) (\<lambda>v. put_value v k w)) [0..<n] w =
    fold_results (\<lambda>(v, k). put_value v k) (map (\<lambda>v. (v, k)) (take n b)) w"
proof -
  have "map (\<lambda>v. (v, k)) (take n b) = map (\<lambda>i. (b ! i, k)) [0..<n]"
    using assms by (intro nth_equalityI) simp_all
  then show ?thesis
    using assms by (auto simp: fold_results_map intro!: fold_results_cong)
qed

lemma put_value_keeps_buffer: "put_value v n w = Inr w' \<Longrightarrow> length (bw_buffer w) \<le> length (bw_buffer w')"
  by (auto simp: put_value_def Let_def split: if_splits)

lemma put_values_keep_buffer:
  "fold_results (\<lambda>(v, n). put_value v n) vns w = Inr w' \<Longrightarrow> length (bw_buffer w) \<le> length (bw_buffer w')"
proof (induction vns arbitrary: w)
  case (Cons vn vns)
  then show ?case
    by (cases vn) (auto simp: bind_result_eq_Inr dest!: put_value_keeps_buffer intro: le_trans)
qed simp

lemma pack_single_width: "concat (map (\<lambda>(v, n). bits n v) (map (\<lambda>v. (v, w)) us)) = pack w us"
  by (simp add: pack_def comp_def)

lemma open_packed_run:
  assumes e: "emitted prefix rs ps e"
  defines "e1 \<equiv> (if re_indicator e < 0
      then let (position, w) = bw_skip 1 (re_writer e) in e\<lparr>re_indicator := int position, re_writer := w\<rparr>
      else e)"
  defines "base \<equiv> prefix @ concat (map (run_bytes (re_width e)) rs)"
  shows "re_indicator e1 = int (length base)" "length base < length (bw_buffer (re_writer e1))"
    "writer_ok (re_writer e1)" "writer_bits (re_writer e1) = stream (base @ [0]) @ pack (re_width e) ps"
    "e1 = e\<lparr>re_indicator := re_indicator e1, re_writer := re_writer e1\<rparr>"
proof -
  have "re_indicator e1 = int (length base) \<and> length base < length (bw_buffer (re_writer e1))
      \<and> writer_ok (re_writer e1) \<and> writer_bits (re_writer e1) = stream (base @ [0]) @ pack (re_width e) ps
      \<and> e1 = e\<lparr>re_indicator := re_indicator e1, re_writer := re_writer e1\<rparr>"
  proof (cases "ps = []")
    case True
    then have w: "writer_ok (re_writer e)" "writer_bits (re_writer e) = stream base" "re_indicator e < 0"
      using e by (simp_all add: emitted_def base_def Let_def)
    have "stream (bw_consume (re_writer e)) = stream base"
      using writer_aligned(2) [OF w(1) emitted_aligned [OF e]] w(2) by simp
    then have flushed: "bw_buffer (bw_flush (re_writer e)) = base" by (simp add: stream_inject bw_consume_def)
    then have "writer_bits (append_bytes [0] (re_writer e)) = stream (base @ [0])"
      by (simp add: writer_bits_def)
    then show ?thesis
      using w(3) flushed True by (simp add: e1_def bw_skip_append pack_def)
  next
    case False
    then have "\<not> re_indicator e < 0" "e1 = e" using e by (simp_all add: emitted_def Let_def e1_def)
    then show ?thesis using e False by (simp add: emitted_def base_def Let_def)
  qed
  then show "re_indicator e1 = int (length base)" "length base < length (bw_buffer (re_writer e1))"
    "writer_ok (re_writer e1)" "writer_bits (re_writer e1) = stream (base @ [0]) @ pack (re_width e) ps"
    "e1 = e\<lparr>re_indicator := re_indicator e1, re_writer := re_writer e1\<rparr>" by blast+
qed

lemma packed_indicator_byte:
  assumes "g \<le> 63"
  shows "vlq_bytes (of_nat (2 * g + 1)) = [ucast (push_bit 1 (of_nat g) OR 1 :: u64)]"
proof -
  have v: "(push_bit 1 (of_nat g) OR 1 :: u64) = of_nat (2 * g + 1)"
    by (simp add: or_one_eq push_bit_eq_mult mult.commute)
  have "unat (of_nat (2 * g + 1) :: u64) = 2 * g + 1" using assms by (intro unat_of_nat_64) simp
  then have "unat (drop_bit 7 (of_nat (2 * g + 1) :: u64)) = 0"
    unfolding unat_drop_bit_eq using assms by (simp add: drop_bit_eq_div)
  then have "drop_bit 7 (of_nat (2 * g + 1) :: u64) = 0" by (simp only: unat_eq_0)
  then show ?thesis
    unfolding v vlq_bytes.simps [of "of_nat (2 * g + 1)"] and_high_bits
    by (simp only: and_7F take_bit_7_self if_False not_True_eq_False simp_thms)
qed

lemma write_indicator:
  assumes w: "writer_bits w = stream (base @ [0]) @ D" "length base < length (bw_buffer w)" "writer_ok w"
  obtains w' where "put_aligned_offset (b :: byte) 1 (length base) w = Inr w'" "writer_ok w'"
    "writer_bits w' = stream (base @ [b]) @ D"
proof
  let ?p = "length base"
  let ?w = "w\<lparr>bw_buffer := take ?p (bw_buffer w) @ [b] @ drop (?p + 1) (bw_buffer w)\<rparr>"
  show "put_aligned_offset b 1 ?p w = Inr ?w" using w(2) by (simp add: put_aligned_offset_def Let_def)
  show "writer_ok ?w" using w(3) by (simp add: writer_ok_def)
  have "take (8 * Suc ?p) (writer_bits w) = stream (base @ [0])" unfolding w(1) by simp
  moreover have "take (8 * Suc ?p) (writer_bits w) = stream (take (Suc ?p) (bw_buffer w))"
    using w(2) by (simp add: writer_bits_def flip: take_stream)
  ultimately have buffer: "take (Suc ?p) (bw_buffer w) = base @ [0]" by (metis stream_inject)
  then have base: "take ?p (bw_buffer w) = base"
    by (metis butlast_snoc butlast_take Suc_leI w(2) diff_Suc_1)
  have "writer_bits w = stream (take (Suc ?p) (bw_buffer w)) @ stream (drop (Suc ?p) (bw_buffer w))
      @ bits (bw_offset w) (bw_values w)"
    unfolding writer_bits_def append_assoc [symmetric] stream_simps_list(3) [symmetric] by simp
  then have "stream (drop (Suc ?p) (bw_buffer w)) @ bits (bw_offset w) (bw_values w) = D"
    unfolding w(1) buffer by simp
  then show "writer_bits ?w = stream (base @ [b]) @ D" by (simp add: writer_bits_def base)
qed

lemma flush_bit_packed_run_emitted:
  assumes e: "emitted prefix rs ps e" and us: "us = take (re_num e) (re_buffered e)"
    and num: "re_num e \<le> length (re_buffered e)" "8 dvd re_num e" "ps @ us \<noteq> []"
    and fit: "\<forall>u \<in> set us. take_bit (re_width e) u = u" "re_width e \<le> 64"
  shows "\<exists>e'. flush_bit_packed_run False e = Inr e' \<and> emitted prefix rs (ps @ us) e'
      \<and> (\<exists>i w. e' = e\<lparr>re_indicator := i, re_writer := w, re_num := 0\<rparr>)"
    "re_packed e = length (ps @ us) \<Longrightarrow> length (ps @ us) \<le> 63 * 8 \<Longrightarrow>
      \<exists>e'. flush_bit_packed_run True e = Inr e' \<and> emitted prefix (rs @ [Packed (ps @ us)]) [] e'
      \<and> (\<exists>w. e' = e\<lparr>re_indicator := - 1, re_writer := w, re_num := 0, re_packed := 0\<rparr>)"
proof -
  let ?base = "prefix @ concat (map (run_bytes (re_width e)) rs)"
  define e1 where "e1 = (if re_indicator e < 0
      then let (position, w) = bw_skip 1 (re_writer e) in e\<lparr>re_indicator := int position, re_writer := w\<rparr>
      else e)"
  note opened = open_packed_run [OF e, folded e1_def]
  have same: "re_buffered e1 = re_buffered e" "re_width e1 = re_width e" "re_num e1 = re_num e"
      "re_packed e1 = re_packed e"
    using opened(5) by (metis rle_encoder.select_convs rle_encoder.update_convs rle_encoder.surjective)+
  let ?vns = "map (\<lambda>v. (v, re_width e)) us"
  obtain w where w: "fold_results (\<lambda>(v, n). put_value v n) ?vns (re_writer e1) = Inr w" "writer_ok w"
      "writer_bits w = stream (?base @ [0]) @ pack (re_width e) (ps @ us)"
    using put_values_bits [OF opened(3), of ?vns, unfolded pack_single_width] fit
    by (auto simp: opened(4) pack_append)
  have len: "length ?base < length (bw_buffer w)"
    using put_values_keep_buffer [OF w(1)] opened(2) by linarith
  have dvd: "8 dvd length (ps @ us)" using e num us by (simp add: emitted_def Let_def min_def)
  have flush: "flush_bit_packed_run upd e =
      (let e = e1\<lparr>re_writer := w, re_num := 0\<rparr> in
       if upd then
         bind_result (put_aligned_offset (ucast (push_bit 1 (of_nat (re_packed e div 8)) OR 1 :: u64) :: byte) 1
           (nat (re_indicator e)) (re_writer e)) (\<lambda>w.
         Inr (e\<lparr>re_writer := w, re_indicator := - 1, re_packed := 0\<rparr>))
       else Inr e)" for upd
    unfolding flush_bit_packed_run_def e1_def [symmetric]
    unfolding Let_def
    using fold_vec_get [OF num(1), of "re_width e" "re_writer e1"] w(1)
    by (simp add: same us)
  show "\<exists>e'. flush_bit_packed_run False e = Inr e' \<and> emitted prefix rs (ps @ us) e'
      \<and> (\<exists>i w. e' = e\<lparr>re_indicator := i, re_writer := w, re_num := 0\<rparr>)"
  proof (intro exI conjI)
    show "flush_bit_packed_run False e = Inr (e1\<lparr>re_writer := w, re_num := 0\<rparr>)" by (simp add: flush)
    show "emitted prefix rs (ps @ us) (e1\<lparr>re_writer := w, re_num := 0\<rparr>)"
      using num(3) dvd opened(1) w len same by (simp add: emitted_def Let_def)
    show "e1\<lparr>re_writer := w, re_num := 0\<rparr> =
        e\<lparr>re_indicator := re_indicator e1, re_writer := w, re_num := 0\<rparr>"
      by (subst opened(5)) simp
  qed
  show "\<exists>e'. flush_bit_packed_run True e = Inr e' \<and> emitted prefix (rs @ [Packed (ps @ us)]) [] e'
      \<and> (\<exists>w. e' = e\<lparr>re_indicator := - 1, re_writer := w, re_num := 0, re_packed := 0\<rparr>)"
    if packed: "re_packed e = length (ps @ us)" "length (ps @ us) \<le> 63 * 8"
  proof -
    let ?g = "re_packed e div 8"
    have g: "?g \<le> 63" using packed by simp
    obtain w' where w': "put_aligned_offset (ucast (push_bit 1 (of_nat ?g) OR 1 :: u64) :: byte) 1 (length ?base) w = Inr w'"
        "writer_ok w'" "writer_bits w' = stream (?base @ [ucast (push_bit 1 (of_nat ?g) OR 1 :: u64)]) @ pack (re_width e) (ps @ us)"
      using write_indicator [OF w(3) len w(2)] by blast
    let ?e = "e1\<lparr>re_writer := w', re_num := 0, re_indicator := - 1, re_packed := 0\<rparr>"
    have "8 dvd length (pack (re_width e) (ps @ us))" using dvd by simp
    then have "writer_bits w' = stream (?base @ run_bytes (re_width e) (Packed (ps @ us)))"
      using w'(3) packed_indicator_byte [OF g] packed(1)
      by (simp add: stream_bytes_of_bits)
    then have "emitted prefix (rs @ [Packed (ps @ us)]) [] ?e"
      using w'(2) same by (simp add: emitted_def Let_def)
    moreover have "nat (re_indicator e1) = length ?base" using opened(1) by (simp only: nat_int)
    then have "flush_bit_packed_run True e = Inr ?e"
      using w'(1) by (simp add: flush same)
    moreover have "?e = e\<lparr>re_indicator := - 1, re_writer := w', re_num := 0, re_packed := 0\<rparr>"
      by (subst opened(5)) simp
    ultimately show ?thesis by blast
  qed
qed

section \<open>The invariant of the encoder\<close>

definition closed_run :: "nat \<Rightarrow> rle_run \<Rightarrow> bool" where
  "closed_run w r \<longleftrightarrow> run_ok w r \<and> 8 \<le> length (run_values r)"

definition enc_inv :: "byte list \<Rightarrow> rle_encoder \<Rightarrow> u64 list \<Rightarrow> bool" where
  "enc_inv prefix e vs \<longleftrightarrow>
     re_width e \<le> 64 \<and> length (re_buffered e) = 8 \<and> (\<forall>v \<in> set vs. take_bit (re_width e) v = v)
     \<and> (\<exists>rs ps. emitted prefix rs ps e \<and> re_packed e = length ps \<and> length ps \<le> 62 * 8
          \<and> (\<forall>r \<in> set rs. closed_run (re_width e) r)
          \<and> (if 8 \<le> re_repeat e
             then re_num e = 0 \<and> ps = []
                  \<and> vs = concat (map run_values rs) @ replicate (re_repeat e) (re_current e)
             else re_repeat e \<le> re_num e \<and> re_num e < 8
                  \<and> vs = concat (map run_values rs) @ ps @ take (re_num e) (re_buffered e)
                  \<and> drop (re_num e - re_repeat e) (take (re_num e) (re_buffered e)) =
                      replicate (re_repeat e) (re_current e)))"

lemma emitted_update [simp]:
  "emitted prefix rs ps (e\<lparr>re_num := n\<rparr>) = emitted prefix rs ps e"
  "emitted prefix rs ps (e\<lparr>re_repeat := n\<rparr>) = emitted prefix rs ps e"
  "emitted prefix rs ps (e\<lparr>re_packed := n\<rparr>) = emitted prefix rs ps e"
  "emitted prefix rs ps (e\<lparr>re_current := v\<rparr>) = emitted prefix rs ps e"
  "emitted prefix rs ps (e\<lparr>re_buffered := b\<rparr>) = emitted prefix rs ps e"
  by (simp_all add: emitted_def)

lemma enc_inv_new: "w \<le> 64 \<Longrightarrow> enc_inv prefix (rle_encoder_from_buf w prefix) []"
  by (auto simp: enc_inv_def emitted_def rle_encoder_from_buf_def intro!: exI [of _ "[]"])

lemma flush_buffered_values_inv:
  assumes e: "emitted prefix rs ps e" "re_packed e = length ps" "length ps \<le> 62 * 8"
      "\<forall>r \<in> set rs. closed_run (re_width e) r" "re_width e \<le> 64" "length (re_buffered e) = 8" "re_num e = 8"
    and rep: "re_repeat e \<le> 8" "8 \<le> re_repeat e \<Longrightarrow> re_buffered e = replicate 8 (re_current e)"
    and fit: "\<forall>v \<in> set (concat (map run_values rs) @ ps @ re_buffered e). take_bit (re_width e) v = v"
  shows "\<exists>e'. flush_buffered_values e = Inr e' \<and> re_width e' = re_width e
    \<and> enc_inv prefix e' (concat (map run_values rs) @ ps @ re_buffered e)"
proof (cases "8 \<le> re_repeat e")
  case True
  then have rep8: "re_repeat e = 8" "re_buffered e = replicate 8 (re_current e)" using rep by auto
  show ?thesis
  proof (cases "ps = []")
    case True
    then show ?thesis
      using e rep8 fit by (auto simp: flush_buffered_values_def enc_inv_def Let_def intro!: exI [of _ rs])
  next
    case False
    let ?e = "e\<lparr>re_num := 0\<rparr>"
    have dvd: "8 dvd length ps" using e(1) by (simp add: emitted_def Let_def)
    obtain e' where e': "flush_bit_packed_run True ?e = Inr e'" "emitted prefix (rs @ [Packed ps]) [] e'"
        "\<exists>w. e' = e\<lparr>re_indicator := - 1, re_writer := w, re_num := 0, re_packed := 0\<rparr>"
      using flush_bit_packed_run_emitted(2) [of prefix rs ps ?e "[]"] e False by auto
    have "closed_run (re_width e) (Packed ps)"
      using dvd e(3) False fit by (auto simp: closed_run_def dest: dvd_imp_le)
    then have "enc_inv prefix e' (concat (map run_values rs) @ ps @ re_buffered e)"
      using e' e rep8 fit unfolding enc_inv_def by (auto intro!: exI [of _ "rs @ [Packed ps]"])
    then show ?thesis
      using e' e(2) rep8 False dvd by (auto simp: flush_buffered_values_def Let_def)
  qed
next
  case False
  let ?us = "re_buffered e" and ?e = "e\<lparr>re_packed := re_packed e + re_num e\<rparr>"
  have dvd: "8 dvd length ps" using e(1) by (simp add: emitted_def Let_def)
  have us: "?us = take (re_num ?e) (re_buffered ?e)" "ps @ ?us \<noteq> []" using e by auto
  have pre: "emitted prefix rs ps ?e" "re_num ?e \<le> length (re_buffered ?e)" "8 dvd re_num ?e"
      "\<forall>u \<in> set ?us. take_bit (re_width ?e) u = u" "re_width ?e \<le> 64"
    using e fit by auto
  note run = flush_bit_packed_run_emitted [OF pre(1) us(1) pre(2,3) us(2) pre(4,5)]
  show ?thesis
  proof (cases "length ps = 62 * 8")
    case True
    then have "ps \<noteq> []" by auto
    then have "\<not> re_indicator e < 0" using e(1) by (simp add: emitted_def Let_def)
    obtain e' where e': "flush_bit_packed_run True ?e = Inr e'" "emitted prefix (rs @ [Packed (ps @ ?us)]) [] e'"
        "\<exists>w. e' = ?e\<lparr>re_indicator := - 1, re_writer := w, re_num := 0, re_packed := 0\<rparr>"
      using run(2) e(2,6,7) True by auto
    have "closed_run (re_width e) (Packed (ps @ ?us))"
      using dvd e fit by (auto simp: closed_run_def)
    then have "enc_inv prefix (e'\<lparr>re_repeat := 0\<rparr>) (concat (map run_values rs) @ ps @ ?us)"
      using e' e fit unfolding enc_inv_def by (auto intro!: exI [of _ "rs @ [Packed (ps @ ?us)]"])
    then show ?thesis
      using e' e(2,7) False True \<open>\<not> re_indicator e < 0\<close>
      by (auto simp: flush_buffered_values_def Let_def MAX_GROUPS_PER_BIT_PACKED_RUN_def)
  next
    case short: False
    then have "length ps < 62 * 8" using e(3) by simp
    then have len: "length (ps @ ?us) \<le> 62 * 8" using dvd e(6) by (auto elim!: dvdE)
    obtain e' where e': "flush_bit_packed_run False ?e = Inr e'" "emitted prefix rs (ps @ ?us) e'"
        "\<exists>i w. e' = ?e\<lparr>re_indicator := i, re_writer := w, re_num := 0\<rparr>"
      using run(1) by auto
    have "enc_inv prefix (e'\<lparr>re_repeat := 0\<rparr>) (concat (map run_values rs) @ ps @ ?us)"
      using e' e fit len unfolding enc_inv_def by (auto intro!: exI [of _ rs] exI [of _ "ps @ ?us"])
    moreover have "\<not> 64 \<le> (re_packed e + re_num e) div 8 + 1" using len e(2,6,7) by simp
    ultimately show ?thesis
      using e' False by (auto simp: flush_buffered_values_def Let_def MAX_GROUPS_PER_BIT_PACKED_RUN_def)
  qed
qed

lemma buffer_value_inv:
  assumes e: "emitted prefix rs ps e" "re_packed e = length ps" "length ps \<le> 62 * 8"
      "\<forall>r \<in> set rs. closed_run (re_width e) r" "re_width e \<le> 64" "length (re_buffered e) = 8" "re_num e < 8"
    and rep: "re_repeat e \<le> re_num e + 1" "re_current e = v"
      "drop (re_num e + 1 - re_repeat e) (take (re_num e) (re_buffered e) @ [v]) = replicate (re_repeat e) v"
    and vs: "vs = concat (map run_values rs) @ ps @ take (re_num e) (re_buffered e)"
    and fit: "\<forall>u \<in> set (vs @ [v]). take_bit (re_width e) u = u"
  shows "\<exists>e'. buffer_value v e = Inr e' \<and> re_width e' = re_width e \<and> enc_inv prefix e' (vs @ [v])"
proof -
  let ?b = "(re_buffered e)[re_num e := v]"
  let ?e = "e\<lparr>re_buffered := ?b, re_num := re_num e + 1\<rparr>"
  have take: "take (re_num e + 1) ?b = take (re_num e) (re_buffered e) @ [v]"
    using e(6,7) by (simp add: take_Suc_conv_app_nth)
  have dvd: "8 dvd length ps" using e(1) by (simp add: emitted_def Let_def)
  show ?thesis
  proof (cases "re_num e + 1 = 8")
    case True
    then have b: "?b = take (re_num e) (re_buffered e) @ [v]"
      using take e(6) by (metis length_list_update order_refl take_all)
    have "\<exists>e'. flush_buffered_values ?e = Inr e' \<and> re_width e' = re_width ?e
        \<and> enc_inv prefix e' (concat (map run_values rs) @ ps @ re_buffered ?e)"
    proof (rule flush_buffered_values_inv)
      show "re_buffered ?e = replicate 8 (re_current ?e)" if "8 \<le> re_repeat ?e"
        using that rep True b by auto
    qed (use e rep True fit vs b in auto)
    then show ?thesis
      using e True dvd vs b by (auto simp: buffer_value_def Let_def)
  next
    case False
    then have "enc_inv prefix ?e (vs @ [v])"
      using e rep vs fit take unfolding enc_inv_def by (auto intro!: exI [of _ rs] exI [of _ ps])
    then show ?thesis using e(6,7) False by (simp add: buffer_value_def Let_def)
  qed
qed

lemma rle_put_inv:
  assumes inv: "enc_inv prefix e vs" and v: "take_bit (re_width e) v = v" and len: "length vs < 2 ^ 63"
  shows "\<exists>e'. rle_put v e = Inr e' \<and> re_width e' = re_width e \<and> enc_inv prefix e' (vs @ [v])"
proof -
  obtain rs ps where e: "emitted prefix rs ps e" "re_packed e = length ps" "length ps \<le> 62 * 8"
      "\<forall>r \<in> set rs. closed_run (re_width e) r"
    and w: "re_width e \<le> 64" "length (re_buffered e) = 8"
    and fit: "\<forall>u \<in> set (vs @ [v]). take_bit (re_width e) u = u"
    and mode: "if 8 \<le> re_repeat e
        then re_num e = 0 \<and> ps = []
             \<and> vs = concat (map run_values rs) @ replicate (re_repeat e) (re_current e)
        else re_repeat e \<le> re_num e \<and> re_num e < 8
             \<and> vs = concat (map run_values rs) @ ps @ take (re_num e) (re_buffered e)
             \<and> drop (re_num e - re_repeat e) (take (re_num e) (re_buffered e)) =
                 replicate (re_repeat e) (re_current e)"
    using inv v unfolding enc_inv_def by auto
  show ?thesis
  proof (cases "8 \<le> re_repeat e")
    case True
    then have vs: "re_num e = 0" "ps = []" "vs = concat (map run_values rs) @ replicate (re_repeat e) (re_current e)"
      using mode by simp_all
    show ?thesis
    proof (cases "re_current e = v")
      case same: True
      have "enc_inv prefix (e\<lparr>re_repeat := re_repeat e + 1\<rparr>) (vs @ [v])"
        using e w fit True vs same unfolding enc_inv_def
        by (auto intro!: exI [of _ rs] simp: replicate_append_same)
      then show ?thesis using True same by (simp add: rle_put_def Let_def)
    next
      case new: False
      let ?r = "Repeated (re_repeat e) (re_current e)"
      obtain e1 where e1: "flush_rle_run e = Inr e1" "emitted prefix (rs @ [?r]) [] e1"
          "re_num e1 = 0" "re_width e1 = re_width e" "re_buffered e1 = re_buffered e" "re_packed e1 = re_packed e"
        using flush_rle_run_emitted [of prefix rs e] e(1) True vs(2) by auto
      have "closed_run (re_width e) ?r" using True len fit vs(3) by (auto simp: closed_run_def)
      then have "\<exists>e'. buffer_value v (e1\<lparr>re_repeat := 1, re_current := v\<rparr>) = Inr e'
          \<and> re_width e' = re_width (e1\<lparr>re_repeat := 1, re_current := v\<rparr>) \<and> enc_inv prefix e' (vs @ [v])"
        using e e1 w vs fit by (intro buffer_value_inv [of prefix "rs @ [?r]" "[]"]) auto
      then show ?thesis using True new e1 e(2) vs(2) by (simp add: rle_put_def Let_def)
    qed
  next
    case False
    then have vs: "re_repeat e \<le> re_num e" "re_num e < 8"
        "vs = concat (map run_values rs) @ ps @ take (re_num e) (re_buffered e)"
        "drop (re_num e - re_repeat e) (take (re_num e) (re_buffered e)) = replicate (re_repeat e) (re_current e)"
      using mode by simp_all
    let ?k = "if re_current e = v then re_repeat e + 1 else 1"
    have last: "drop (re_num e + 1 - ?k) (take (re_num e) (re_buffered e) @ [v]) = replicate ?k v"
      using vs w(2) by (auto simp: replicate_append_same)
    have "\<exists>e'. buffer_value v (e\<lparr>re_repeat := ?k, re_current := v\<rparr>) = Inr e'
        \<and> re_width e' = re_width (e\<lparr>re_repeat := ?k, re_current := v\<rparr>) \<and> enc_inv prefix e' (vs @ [v])"
      using e w vs fit last by (intro buffer_value_inv [of prefix rs ps]) auto
    then show ?thesis using False by (auto simp: rle_put_def Let_def)
  qed
qed

section \<open>Flushing\<close>

lemma fill_zeros:
  "n \<le> length b \<Longrightarrow>
    fold_results (\<lambda>i b. vec_set b i x) [n..<length b] b = Inr (take n b @ replicate (length b - n) x)"
proof (induction "length b - n" arbitrary: n b)
  case (Suc k)
  then have n: "n < length b" by simp
  have "k = length (b[n := x]) - Suc n" "Suc n \<le> length (b[n := x])" using Suc.hyps(2) by auto
  note IH = Suc.hyps(1) [OF this]
  have "take (Suc n) (b[n := x]) @ replicate (length b - Suc n) x = take n b @ replicate (length b - n) x"
    using n by (simp add: take_Suc_conv_app_nth replicate_Suc [symmetric] Suc_diff_Suc del: replicate_Suc)
  then show ?case using IH n by (simp add: upt_conv_Cons)
qed simp

lemma length_vlq_bytes: "length (vlq_bytes v) \<le> 1 + unat v div 128"
proof (induction v rule: vlq_bytes.induct)
  case (1 v)
  show ?case
  proof (cases "drop_bit 7 v = 0")
    case False
    let ?q = "unat v div 128"
    have q: "unat (drop_bit 7 v) = ?q" unfolding unat_drop_bit_eq by (simp add: drop_bit_eq_div)
    then have "0 < ?q" using False by (metis unat_gt_0)
    then have "1 + ?q div 128 \<le> ?q" by linarith
    then show ?thesis
      using "1.IH" False q by (simp add: vlq_bytes.simps [of v] and_high_bits)
  qed (simp add: vlq_bytes.simps [of v] and_high_bits)
qed

lemma ceil_le: "ceil w 8 \<le> w"
  by (cases w) (simp_all add: ceil_8)

lemma closed_run_bytes:
  assumes "closed_run w r"
  shows "length (run_bytes w r) \<le> length (run_values r) div 8 * (1 + w)"
proof (cases r)
  case (Repeated k v)
  let ?m = "k div 8"
  have k: "8 \<le> k" "k < 2 ^ 63" using assms Repeated by (auto simp: closed_run_def)
  have "unat (of_nat (2 * k) :: u64) = 2 * k" using k by (intro unat_of_nat_64) simp
  then have "length (vlq_bytes (of_nat (2 * k))) \<le> 1 + 2 * k div 128"
    using length_vlq_bytes [of "of_nat (2 * k)"] by simp
  also have "2 * k div 128 = ?m div 8"
    using div_mult_mult1 [of 2 k 64] div_mult2_eq [of k 8 8] by simp
  also have "1 + ?m div 8 \<le> ?m" using k(1) div_le_mono [of 8 k 8] by linarith
  finally have "length (run_bytes w r) \<le> ?m + w" using Repeated ceil_le [of w] by simp
  also have "\<dots> \<le> ?m + ?m * w" using k(1) div_le_mono [of 8 k 8] by simp
  finally show ?thesis using Repeated by simp
next
  case (Packed vs)
  let ?g = "length vs div 8"
  have g: "1 \<le> ?g" "?g < 2 ^ 60" "8 dvd length vs" using assms Packed by (auto simp: closed_run_def)
  have "unat (of_nat (2 * ?g + 1) :: u64) = 2 * ?g + 1" using g by (intro unat_of_nat_64) simp
  then have "length (vlq_bytes (of_nat (2 * ?g + 1))) \<le> 1 + (2 * ?g + 1) div 128"
    using length_vlq_bytes [of "of_nat (2 * ?g + 1)"] by simp
  also have "\<dots> \<le> ?g" using g(1) by linarith
  also have "length vs * w div 8 = ?g * w" using g(3) by (auto elim!: dvdE)
  ultimately show ?thesis using Packed by simp
qed

lemma closed_runs_bytes:
  "\<forall>r \<in> set rs. closed_run w r \<Longrightarrow>
    \<exists>m. length (concat (map (run_bytes w) rs)) \<le> m * (1 + w) \<and> 8 * m \<le> length (concat (map run_values rs))"
proof (induction rs)
  case (Cons r rs)
  then obtain m where m: "length (concat (map (run_bytes w) rs)) \<le> m * (1 + w)"
      "8 * m \<le> length (concat (map run_values rs))" by auto
  have "length (run_bytes w r) \<le> length (run_values r) div 8 * (1 + w)"
    using Cons.prems closed_run_bytes [of w r] by simp
  then have "length (concat (map (run_bytes w) (r # rs))) \<le> (length (run_values r) div 8 + m) * (1 + w)"
    using m(1) by (simp add: add_mult_distrib)
  moreover have "8 * (length (run_values r) div 8 + m) \<le> length (concat (map run_values (r # rs)))"
    using m(2) by simp
  ultimately show ?case by blast
qed simp

definition flushed :: "byte list \<Rightarrow> rle_encoder \<Rightarrow> u64 list \<Rightarrow> bool" where
  "flushed prefix e vs \<longleftrightarrow>
     re_packed e = 0 \<and> re_repeat e = 0 \<and> re_num e = 0
     \<and> (\<exists>rs pad. emitted prefix rs [] e \<and> (\<forall>r \<in> set rs. run_ok (re_width e) r)
        \<and> concat (map run_values rs) = vs @ pad \<and> length pad < 8
        \<and> length (concat (map (run_bytes (re_width e)) rs)) \<le> ceil (length vs) 8 * (1 + re_width e))"

lemma flushed_last_run:
  assumes e: "emitted prefix (rs @ [r]) [] e'" "re_width e' = w" "\<forall>r \<in> set rs. closed_run w r" "run_ok w r"
    and vs: "concat (map run_values rs) @ run_values r = vs @ pad" "length pad < 8" "length pad \<le> length (run_values r)"
    and bytes: "length (run_bytes w r) \<le> ceil (length (run_values r) - length pad) 8 * (1 + w)"
    and idle: "re_packed e' = 0" "re_repeat e' = 0" "re_num e' = 0"
  shows "flushed prefix e' vs"
proof -
  let ?n = "length (run_values r) - length pad"
  obtain m where m: "length (concat (map (run_bytes w) rs)) \<le> m * (1 + w)"
      "8 * m \<le> length (concat (map run_values rs))"
    using closed_runs_bytes [OF e(3)] by blast
  have len: "length vs = length (concat (map run_values rs)) + ?n"
    using arg_cong [OF vs(1), of length] vs(3) by simp
  then have "8 * m + ?n \<le> length vs" using m(2) by simp
  then have "m + ceil ?n 8 \<le> ceil (length vs) 8" unfolding ceil_8 by linarith
  then have "(m + ceil ?n 8) * (1 + w) \<le> ceil (length vs) 8 * (1 + w)" by (rule mult_right_mono) simp
  then have "length (concat (map (run_bytes w) (rs @ [r]))) \<le> ceil (length vs) 8 * (1 + w)"
    using m(1) bytes by (simp add: add_mult_distrib)
  then show ?thesis
    unfolding flushed_def using e vs idle by (auto simp: closed_run_def intro!: exI [of _ "rs @ [r]"])
qed

lemma rle_flush_flushed:
  assumes inv: "enc_inv prefix e vs" and len: "length vs < 2 ^ 63"
  shows "\<exists>e'. rle_flush e = Inr e' \<and> flushed prefix e' vs \<and> re_width e' = re_width e"
proof -
  let ?w = "re_width e"
  obtain rs ps where e: "emitted prefix rs ps e" "re_packed e = length ps" "length ps \<le> 62 * 8"
      "\<forall>r \<in> set rs. closed_run ?w r"
    and w: "?w \<le> 64" "length (re_buffered e) = 8"
    and fit: "\<forall>u \<in> set vs. take_bit ?w u = u"
    and mode: "if 8 \<le> re_repeat e
        then re_num e = 0 \<and> ps = []
             \<and> vs = concat (map run_values rs) @ replicate (re_repeat e) (re_current e)
        else re_repeat e \<le> re_num e \<and> re_num e < 8
             \<and> vs = concat (map run_values rs) @ ps @ take (re_num e) (re_buffered e)
             \<and> drop (re_num e - re_repeat e) (take (re_num e) (re_buffered e)) =
                 replicate (re_repeat e) (re_current e)"
    using inv unfolding enc_inv_def by auto
  consider "re_packed e = 0" "re_repeat e = 0" "re_num e = 0"
    | "0 < re_repeat e" "ps = []" "re_repeat e = re_num e \<or> re_num e = 0"
    | "\<not> (0 < re_repeat e \<and> ps = [] \<and> (re_repeat e = re_num e \<or> re_num e = 0))" "0 < re_packed e \<or> 0 < re_num e"
    using mode e(2) by (cases "8 \<le> re_repeat e") auto
  then show ?thesis
  proof cases
    case 1
    then have vs: "vs = concat (map run_values rs)" "ps = []" using mode e(2) by auto
    obtain m where "length (concat (map (run_bytes ?w) rs)) \<le> m * (1 + ?w)" "8 * m \<le> length vs"
      using closed_runs_bytes [OF e(4)] vs(1) by blast
    moreover have "m * (1 + ?w) \<le> ceil (length vs) 8 * (1 + ?w)"
      using \<open>8 * m \<le> length vs\<close> by (intro mult_right_mono) (simp_all add: ceil_8)
    ultimately have "flushed prefix e vs"
      using e vs 1 unfolding flushed_def by (auto intro!: exI [of _ rs] simp: closed_run_def)
    then show ?thesis using 1 by (simp add: rle_flush_def)
  next
    case 2
    let ?r = "Repeated (re_repeat e) (re_current e)"
    have vs: "vs = concat (map run_values rs) @ run_values ?r"
      using mode 2 by (auto split: if_splits)
    obtain e' where e': "flush_rle_run e = Inr e'" "emitted prefix (rs @ [?r]) [] e'" "re_width e' = ?w"
        "re_packed e' = 0" "re_repeat e' = 0" "re_num e' = 0"
      using flush_rle_run_emitted [of prefix rs e] e(1,2) 2 by auto
    have ok: "run_ok ?w ?r" using 2 len vs fit by auto
    have "length (run_bytes ?w ?r) \<le> ceil (re_repeat e) 8 * (1 + ?w)"
    proof (cases "8 \<le> re_repeat e")
      case True
      then have "length (run_bytes ?w ?r) \<le> re_repeat e div 8 * (1 + ?w)"
        using closed_run_bytes [of ?w ?r] ok by (simp add: closed_run_def)
      also have "\<dots> \<le> ceil (re_repeat e) 8 * (1 + ?w)"
        by (intro mult_right_mono) (simp_all add: ceil_8 div_le_mono)
      finally show ?thesis .
    next
      case False
      then have "unat (of_nat (2 * re_repeat e) :: u64) = 2 * re_repeat e" by (intro unat_of_nat_64) simp
      then have "length (vlq_bytes (of_nat (2 * re_repeat e))) \<le> 1"
        using length_vlq_bytes [of "of_nat (2 * re_repeat e)"] False by simp
      moreover have "1 \<le> ceil (re_repeat e) 8" using 2(1) by (simp add: ceil_8)
      then have "1 + ?w \<le> ceil (re_repeat e) 8 * (1 + ?w)" by (simp del: mult_Suc mult_Suc_right)
      ultimately show ?thesis using ceil_le [of ?w] by simp
    qed
    then have "flushed prefix e' vs"
      using e'(2-) e(4) ok vs by (intro flushed_last_run [of prefix rs ?r e' ?w vs "[]"]) simp_all
    then show ?thesis using 2 e'(1,3) e(2) by (auto simp: rle_flush_def Let_def)
  next
    case 3
    then have vs: "re_num e < 8" "vs = concat (map run_values rs) @ ps @ take (re_num e) (re_buffered e)"
      using mode e(2) by (auto split: if_splits)
    let ?z = "if re_num e = 0 then 0 else 8 - re_num e"
    let ?us = "take (re_num e) (re_buffered e) @ replicate ?z 0"
    let ?b = "if re_num e = 0 then re_buffered e else ?us"
    let ?e = "e\<lparr>re_buffered := ?b, re_num := re_num e + ?z, re_packed := length ps + (re_num e + ?z)\<rparr>"
    have dvd: "8 dvd length ps" using e(1) by (simp add: emitted_def Let_def)
    have pre: "emitted prefix rs ps ?e" "?us = take (re_num ?e) (re_buffered ?e)"
        "re_num ?e \<le> length (re_buffered ?e)" "8 dvd re_num ?e" "ps @ ?us \<noteq> []"
        "\<forall>u \<in> set ?us. take_bit (re_width ?e) u = u" "re_width ?e \<le> 64"
      using e w vs fit 3(2) by (auto simp: min_def split: if_splits)
    have "length (ps @ ?us) \<le> 63 * 8" "re_packed ?e = length (ps @ ?us)" using e(3) vs(1) w(2) by auto
    then obtain e' where e': "flush_bit_packed_run True ?e = Inr e'"
        "emitted prefix (rs @ [Packed (ps @ ?us)]) [] e'" "re_width e' = ?w"
        "re_packed e' = 0" "re_num e' = 0"
      using flush_bit_packed_run_emitted(2) [OF pre] by auto
    have groups: "8 dvd length (ps @ ?us)" using dvd vs(1) w(2) by (auto simp: min_def)
    moreover have "0 < length (ps @ ?us)" using pre(5) by blast
    ultimately have "closed_run ?w (Packed (ps @ ?us))"
      using e(3) w(2) fit vs by (auto simp: closed_run_def dest: dvd_imp_le)
    note bytes = closed_run_bytes [OF this]
    have "length (ps @ ?us) div 8 \<le> ceil (length (ps @ ?us) - ?z) 8"
      using groups w(2) vs(1) by (auto simp: ceil_8 elim!: dvdE)
    then have "length (run_values (Packed (ps @ ?us))) div 8 * (1 + ?w) \<le>
        ceil (length (ps @ ?us) - ?z) 8 * (1 + ?w)"
      unfolding run_values.simps by (rule mult_right_mono) simp
    with bytes have "length (run_bytes ?w (Packed (ps @ ?us))) \<le>
        ceil (length (ps @ ?us) - ?z) 8 * (1 + ?w)" by (rule le_trans)
    then have "flushed prefix (e'\<lparr>re_repeat := 0\<rparr>) vs"
      using e' e(4) \<open>closed_run ?w (Packed (ps @ ?us))\<close> vs w(2)
      by (intro flushed_last_run [of prefix rs "Packed (ps @ ?us)" _ ?w vs "replicate ?z 0"])
         (auto simp: closed_run_def)
    moreover have "rle_flush e = Inr (e'\<lparr>re_repeat := 0\<rparr>)"
    proof (cases "re_num e = 0")
      case True
      then have "?e = e\<lparr>re_packed := length ps\<rparr>" by (cases e) simp
      then have "flush_bit_packed_run True (e\<lparr>re_packed := length ps\<rparr>) = Inr e'" using e'(1) by argo
      then show ?thesis using 3 True e(2) by (auto simp: rle_flush_def Let_def)
    next
      case False
      then show ?thesis
        using 3 e'(1) e(2) w(2) vs(1) fill_zeros [of "re_num e" "re_buffered e" 0]
        by (auto simp: rle_flush_def Let_def max_def)
    qed
    ultimately show ?thesis using e'(3) by auto
  qed
qed

lemma rle_flush_idle: "flushed prefix e vs \<Longrightarrow> rle_flush e = Inr e"
  by (simp add: flushed_def rle_flush_def)

lemma flushed_bytes:
  assumes e: "flushed prefix e vs" "re_width e = w"
  obtains rs pad where "bw_consume (re_writer e) = prefix @ concat (map (run_bytes w) rs)"
    "\<forall>r \<in> set rs. run_ok w r" "concat (map run_values rs) = vs @ pad" "length pad < 8"
    "length (concat (map (run_bytes w) rs)) \<le> max_buffer_size w (length vs)"
proof -
  obtain rs pad where rs: "emitted prefix rs [] e" "\<forall>r \<in> set rs. run_ok w r"
      "concat (map run_values rs) = vs @ pad" "length pad < 8"
      "length (concat (map (run_bytes w) rs)) \<le> ceil (length vs) 8 * (1 + w)"
    using e unfolding flushed_def by blast
  have "stream (bw_consume (re_writer e)) = stream (prefix @ concat (map (run_bytes w) rs))"
    using rs(1) e(2) writer_aligned(2) [OF _ emitted_aligned [OF rs(1)]] by (simp add: emitted_def Let_def)
  then have "bw_consume (re_writer e) = prefix @ concat (map (run_bytes w) rs)"
    by (simp only: stream_inject)
  moreover have "ceil (length vs) 8 * (1 + w) \<le> max_buffer_size w (length vs)"
    by (simp add: max_buffer_size_def Let_def)
  ultimately show thesis using that rs by (meson le_trans)
qed

lemma rle_puts_inv:
  "enc_inv prefix e us \<Longrightarrow> \<forall>v \<in> set vs. take_bit (re_width e) v = v \<Longrightarrow> length (us @ vs) \<le> 2 ^ 63 \<Longrightarrow>
    \<exists>e'. fold_results rle_put vs e = Inr e' \<and> re_width e' = re_width e \<and> enc_inv prefix e' (us @ vs)"
proof (induction vs arbitrary: us e)
  case (Cons v vs)
  obtain e1 where e1: "rle_put v e = Inr e1" "re_width e1 = re_width e" "enc_inv prefix e1 (us @ [v])"
    using rle_put_inv [OF Cons.prems(1), of v] Cons.prems by auto
  then show ?case using Cons.IH [OF e1(3)] Cons.prems by simp
qed auto

definition rle_put_all :: "u64 list \<Rightarrow> rle_encoder \<Rightarrow> rle_encoder result" where
  "rle_put_all vs e = bind_result (fold_results rle_put vs e) rle_flush"

lemma rle_put_all_flushed:
  assumes "w \<le> 64" "\<forall>v \<in> set vs. take_bit w v = v" "length vs < 2 ^ 63"
  obtains e where "rle_put_all vs (rle_encoder_from_buf w prefix) = Inr e" "flushed prefix e vs" "re_width e = w"
proof -
  have width: "re_width (rle_encoder_from_buf w prefix) = w" by (simp add: rle_encoder_from_buf_def)
  obtain e1 where e1: "fold_results rle_put vs (rle_encoder_from_buf w prefix) = Inr e1"
      "re_width e1 = w" "enc_inv prefix e1 vs"
    using rle_puts_inv [OF enc_inv_new [OF assms(1), of prefix], of vs] assms width by auto
  then show thesis
    using that rle_flush_flushed [OF e1(3) assms(3)] by (auto simp: rle_put_all_def)
qed

lemma read_batches:
  "denotes d vs \<Longrightarrow> sum_list ns \<le> length vs \<Longrightarrow> int_type TYPE('a::len) \<Longrightarrow>
    \<exists>vss d'. read_values rle_read ns d = Inr (vss, d') \<and> map length vss = ns
      \<and> concat vss = (map from_u64 (take (sum_list ns) vs) :: 'a word list)"
proof (induction ns arbitrary: d vs)
  case (Cons n ns)
  obtain d1 where d1: "rle_read n d = Inr (map from_u64 (take n vs) :: 'a word list, d1)" "denotes d1 (drop n vs)"
    using rle_read_denotes [OF Cons.prems(1), of n] Cons.prems by auto
  obtain vss d' where "read_values rle_read ns d1 = Inr (vss, d')" "map length vss = ns"
      "concat vss = (map from_u64 (take (sum_list ns) (drop n vs)) :: 'a word list)"
    using Cons.IH [OF d1(2) _ Cons.prems(3)] Cons.prems(2) by (force simp: le_diff_conv2)
  then show ?case
    using d1 Cons.prems by (auto simp: take_add simp flip: map_append)
qed auto

lemma rle_encode_bytes:
  assumes w: "w \<le> 64" and vs: "\<forall>v \<in> set vs. take_bit w v = v" "length vs < 2 ^ 63"
  obtains e rs pad where "fold_results rle_put vs (rle_encoder_from_buf w prefix) = Inr e"
    "rle_consume e = Inr (prefix @ concat (map (run_bytes w) rs))" "\<forall>r \<in> set rs. run_ok w r"
    "concat (map run_values rs) = vs @ pad" "length (concat (map (run_bytes w) rs)) \<le> max_buffer_size w (length vs)"
proof -
  obtain e1 where e1: "rle_put_all vs (rle_encoder_from_buf w prefix) = Inr e1" "flushed prefix e1 vs" "re_width e1 = w"
    using rle_put_all_flushed [OF w vs] .
  then obtain e where e: "fold_results rle_put vs (rle_encoder_from_buf w prefix) = Inr e" "rle_flush e = Inr e1"
    by (auto simp: rle_put_all_def bind_result_eq_Inr)
  obtain rs pad where rs: "bw_consume (re_writer e1) = prefix @ concat (map (run_bytes w) rs)"
      "\<forall>r \<in> set rs. run_ok w r" "concat (map run_values rs) = vs @ pad" "length pad < 8"
      "length (concat (map (run_bytes w) rs)) \<le> max_buffer_size w (length vs)"
    using flushed_bytes [OF e1(2,3)] .
  then show thesis using that e by (auto simp: rle_consume_def)
qed

section \<open>Properties\<close>

text \<open>C29. RLE round trip and size bound: encoding any list of values that fit the bit width
  with \<open>RleEncoder\<close> (\<open>put\<close> each value, then \<open>consume\<close>) never fails, writes at most
  \<open>max_buffer_size\<close> bytes, and \<open>RleBitPackedDecoder\<close> over these bytes (followed by anything)
  returns the values in order, in whatever batches they are requested and at every integer
  type of up to 64 bits.\<close>

theorem rle_round_trip:
  assumes w: "w \<le> 64" and vs: "\<forall>v \<in> set vs. take_bit w v = v" "length vs < 2 ^ 63"
    and ns: "sum_list ns \<le> length vs" and ty: "int_type TYPE('a::len)"
  shows "\<exists>e bytes d vss d'. fold_results rle_put vs (rle_encoder_from_buf w []) = Inr e
    \<and> rle_consume e = Inr bytes \<and> length bytes \<le> max_buffer_size w (length vs)
    \<and> rle_decoder_new (bytes @ rest) w = Inr d
    \<and> read_values rle_read ns d = Inr (vss, d') \<and> map length vss = ns
    \<and> concat vss = (map from_u64 (take (sum_list ns) vs) :: 'a word list)"
proof -
  obtain e rs pad where e: "fold_results rle_put vs (rle_encoder_from_buf w []) = Inr e"
      "rle_consume e = Inr ([] @ concat (map (run_bytes w) rs))" "\<forall>r \<in> set rs. run_ok w r"
      "concat (map run_values rs) = vs @ pad" "length (concat (map (run_bytes w) rs)) \<le> max_buffer_size w (length vs)"
    using rle_encode_bytes [OF w vs] .
  obtain d where d: "rle_decoder_new (concat (map (run_bytes w) rs) @ rest) w = Inr d" "denotes d (vs @ pad)"
    using denotes_new [OF w e(3), of rest] e(4) by auto
  obtain vss d' where "read_values rle_read ns d = Inr (vss, d')" "map length vss = ns"
      "concat vss = (map from_u64 (take (sum_list ns) (vs @ pad)) :: 'a word list)"
    using read_batches [OF d(2) _ ty, of ns] ns by auto
  then show ?thesis using e d(1) ns by auto
qed

theorem rle_round_trip_witness:
  "\<exists>e bytes d vss d'. fold_results rle_put (replicate 20 3 @ [1, 0, 2]) (rle_encoder_from_buf 2 []) = Inr e
    \<and> rle_consume e = Inr bytes \<and> length bytes \<le> max_buffer_size 2 23
    \<and> rle_decoder_new (bytes @ [0xFF]) 2 = Inr d
    \<and> read_values rle_read [5, 0, 17] d = Inr (vss, d') \<and> map length vss = [5, 0, 17]
    \<and> concat vss = (replicate 20 3 @ [1, 0] :: 16 word list)"
proof -
  have "map from_u64 (take (sum_list [5, 0, 17]) (replicate 20 3 @ [1, 0, 2])) =
      (replicate 20 3 @ [1, 0] :: 16 word list)"
    by (simp add: from_u64_def to_le_bytes_def take_replicate upt_conv_Cons)
  moreover have "\<forall>v \<in> set (replicate 20 3 @ [1, 0, 2]). take_bit 2 v = (v :: u64)"
    by (simp add: take_bit_eq_mod)
  ultimately show ?thesis
    using rle_round_trip [of 2 "replicate 20 3 @ [1, 0, 2]" "[5, 0, 17]" "[0xFF]", where ?'a = 16]
    by simp
qed

end
