(* ===== verification/Levels.thy ===== *)
theory Levels
  imports Rle_Encoder
begin

text \<open>
  Repetition and definition levels: the encoder of a level column
  (\<open>glaredb_ext_parquet/src/encodings/levels.rs\<close>, \<open>LevelEncoder\<close>) and the decoders that the
  page reader sets up for data pages v1 and v2 (\<open>column/page_reader.rs\<close>,
  \<open>get_level_decoder\<close>), over the owned page buffer (\<open>column/read_buffer.rs\<close>).

  A level is an \<open>i16\<close>, here a \<open>16 word\<close> read as a signed number; \<open>as u64\<close> sign extends it. An
  \<open>OwnedReadBuffer\<close> is the list of the bytes that remain in it.
\<close>

section \<open>The page buffer\<close>

type_synonym owned_buffer = "byte list"

definition owned_skip :: "nat \<Rightarrow> owned_buffer \<Rightarrow> owned_buffer result" where
  "owned_skip num_bytes page =
     (if length page < num_bytes then Inl (DbError ''Attempted to skip more bytes than remaining'')
      else Inr (drop num_bytes page))"

definition take_next :: "nat \<Rightarrow> owned_buffer \<Rightarrow> (read_cursor \<times> owned_buffer) result" where
  "take_next num_bytes page =
     bind_result (owned_skip num_bytes page) (\<lambda>rest. Inr (take num_bytes page, rest))"

definition take_remaining :: "owned_buffer \<Rightarrow> read_cursor \<times> owned_buffer" where
  "take_remaining page = (page, [])"

definition read_next_word :: "read_cursor \<Rightarrow> ('a::len word \<times> read_cursor) result" where
  "read_next_word cursor =
     (if LENGTH('a) div 8 \<le> length cursor
      then Inr (from_le_bytes (take (LENGTH('a) div 8) cursor), drop (LENGTH('a) div 8) cursor)
      else Inl (Panic ''assertion failed: self.remaining >= size_of T''))"

lemma take_next_ok [simp]: "n \<le> length page \<Longrightarrow> take_next n page = Inr (take n page, drop n page)"
  by (simp add: take_next_def owned_skip_def)

section \<open>Level encoders\<close>

datatype encoding = PLAIN | PLAIN_DICTIONARY | RLE | BIT_PACKED | DELTA_BINARY_PACKED
  | DELTA_LENGTH_BYTE_ARRAY | DELTA_BYTE_ARRAY | RLE_DICTIONARY | BYTE_STREAM_SPLIT

type_synonym i16 = "16 word"

datatype level_encoder = LevelRle rle_encoder | LevelRleV2 rle_encoder | LevelBitPacked nat bit_writer

definition level_bit_width :: "i16 \<Rightarrow> nat" where
  "level_bit_width max_level = num_required_bits (scast max_level)"

definition levels_max_buffer_size :: "encoding \<Rightarrow> i16 \<Rightarrow> nat \<Rightarrow> nat result" where
  "levels_max_buffer_size enc max_level num_buffered_values =
     (let bit_width = level_bit_width max_level
      in if enc = RLE then Inr (max_buffer_size bit_width num_buffered_values)
         else if enc = BIT_PACKED then Inr (ceil (num_buffered_values * bit_width) 8)
         else Inl (Panic ''Unsupported encoding type''))"

definition level_encoder_v1 :: "encoding \<Rightarrow> i16 \<Rightarrow> nat \<Rightarrow> level_encoder result" where
  "level_encoder_v1 enc max_level capacity =
     bind_result (levels_max_buffer_size enc max_level capacity) (\<lambda>_.
     let bit_width = level_bit_width max_level
     in if enc = RLE then Inr (LevelRle (rle_encoder_from_buf bit_width (replicate 4 0)))
        else if enc = BIT_PACKED then Inr (LevelBitPacked bit_width (bit_writer_from_buf []))
        else Inl (Panic ''Unsupported encoding type''))"

definition level_encoder_v2 :: "i16 \<Rightarrow> nat \<Rightarrow> level_encoder result" where
  "level_encoder_v2 max_level capacity =
     bind_result (levels_max_buffer_size RLE max_level capacity) (\<lambda>_.
     Inr (LevelRleV2 (rle_encoder_from_buf (level_bit_width max_level) [])))"

fun level_put :: "i16 list \<Rightarrow> level_encoder \<Rightarrow> (nat \<times> level_encoder) result" where
  "level_put buffer (LevelRle e) =
     bind_result (rle_put_all (map scast buffer) e) (\<lambda>e. Inr (length buffer, LevelRle e))"
| "level_put buffer (LevelRleV2 e) =
     bind_result (rle_put_all (map scast buffer) e) (\<lambda>e. Inr (length buffer, LevelRleV2 e))"
| "level_put buffer (LevelBitPacked bit_width w) =
     bind_result (fold_results (\<lambda>l. put_value (scast l) bit_width) buffer w) (\<lambda>w.
     Inr (length buffer, LevelBitPacked bit_width (bw_flush w)))"

fun level_consume :: "level_encoder \<Rightarrow> byte list result" where
  "level_consume (LevelRle e) =
     bind_result (rle_consume e) (\<lambda>encoded_data.
     bind_result (usize_sub (length encoded_data) 4) (\<lambda>encoded_len.
     let len_bytes = to_le_bytes (of_nat encoded_len :: 32 word)
     in Inr (len_bytes @ drop (length len_bytes) encoded_data)))"
| "level_consume (LevelRleV2 e) = rle_consume e"
| "level_consume (LevelBitPacked bit_width w) = Inr (bw_consume w)"

section \<open>Level decoders\<close>

definition level_decoder_v1 :: "i16 \<Rightarrow> owned_buffer \<Rightarrow> (rle_decoder \<times> owned_buffer) result" where
  "level_decoder_v1 max_level page =
     bind_result (take_next 4 page) (\<lambda>(cursor, page).
     bind_result (read_next_word cursor) (\<lambda>(len :: 32 word, _).
     bind_result (take_next (unat (scast len :: u64)) page) (\<lambda>(read_buffer, page).
     bind_result (rle_decoder_new read_buffer (level_bit_width max_level)) (\<lambda>d. Inr (d, page)))))"

definition level_decoder_v2 :: "i16 \<Rightarrow> nat \<Rightarrow> owned_buffer \<Rightarrow> (rle_decoder \<times> owned_buffer) result" where
  "level_decoder_v2 max_level len page =
     bind_result (take_next len page) (\<lambda>(read_buffer, page).
     bind_result (rle_decoder_new read_buffer (level_bit_width max_level)) (\<lambda>d. Inr (d, page)))"

section \<open>Levels as packed values\<close>

definition level_ok :: "i16 \<Rightarrow> i16 \<Rightarrow> bool" where
  "level_ok max_level l \<longleftrightarrow> 0 \<le> sint l \<and> sint l \<le> sint max_level"

lemma uint_scast_level:
  assumes "0 \<le> sint (l :: i16)"
  shows "uint (scast l :: u64) = sint l"
proof -
  have "uint (scast l :: u64) = take_bit 64 (sint l)" by transfer simp
  moreover have "sint l < 2 ^ 64" using sint_lt [of l] by simp
  ultimately show ?thesis using assms by (simp add: take_bit_int_eq_self)
qed

lemma level_fits:
  assumes "level_ok max_level l"
  shows "take_bit (level_bit_width max_level) (scast l) = (scast l :: u64)"
proof -
  have "uint (scast l :: u64) \<le> uint (scast max_level :: u64)"
    using assms by (simp add: level_ok_def uint_scast_level)
  then show ?thesis
    unfolding level_bit_width_def by (intro take_bit_num_required_bits_le) (simp add: word_le_def)
qed

lemma from_u64_scast: "from_u64 (scast (l :: i16)) = l"
proof -
  have "from_u64 (of_bits (bits 64 (scast l :: u64))) = (of_bits (bits 64 (scast l :: u64)) :: i16)"
    by (intro from_u64_of_bits) simp
  moreover have "of_bits (bits 64 (scast l :: u64)) = l"
    by (intro bit_word_eqI) (auto simp: stream_simps bit_simps)
  ultimately show ?thesis by (simp add: of_bits_bits take_bit_word_eq_self)
qed

lemma level_bit_width_le [simp]: "level_bit_width max_level \<le> 64"
  by (simp add: level_bit_width_def)

lemma level_put_flushed:
  assumes "\<forall>l \<in> set ls. level_ok max_level l" "length ls < 2 ^ 63"
  obtains e rs pad where
    "rle_put_all (map scast ls) (rle_encoder_from_buf (level_bit_width max_level) prefix) = Inr e"
    "rle_consume e = Inr (prefix @ concat (map (run_bytes (level_bit_width max_level)) rs))"
    "\<forall>r \<in> set rs. run_ok (level_bit_width max_level) r" "concat (map run_values rs) = map scast ls @ pad"
    "length (concat (map (run_bytes (level_bit_width max_level)) rs)) \<le>
       max_buffer_size (level_bit_width max_level) (length ls)"
proof -
  let ?w = "level_bit_width max_level" and ?vs = "map scast ls :: u64 list"
  have "\<forall>v \<in> set ?vs. take_bit ?w v = v" "length ?vs < 2 ^ 63" using assms by (auto simp: level_fits)
  from rle_put_all_flushed [OF level_bit_width_le this] obtain e
    where e: "rle_put_all ?vs (rle_encoder_from_buf ?w prefix) = Inr e" "flushed prefix e ?vs" "re_width e = ?w" .
  then obtain rs pad where "bw_consume (re_writer e) = prefix @ concat (map (run_bytes ?w) rs)"
      "\<forall>r \<in> set rs. run_ok ?w r" "concat (map run_values rs) = ?vs @ pad" "length pad < 8"
      "length (concat (map (run_bytes ?w) rs)) \<le> max_buffer_size ?w (length ?vs)"
    using flushed_bytes [OF e(2,3)] by metis
  then show thesis using that e(1) rle_flush_idle [OF e(2)] by (simp add: rle_consume_def)
qed

lemma level_batches:
  assumes d: "denotes d (map scast ls @ pad)" and ns: "sum_list ns \<le> length (ls :: i16 list)"
  shows "\<exists>vss d'. read_values rle_read ns d = Inr (vss, d') \<and> map length vss = ns
    \<and> concat vss = take (sum_list ns) ls"
  using read_batches [OF d, of ns, where ?'a = 16] ns
  by (auto simp: take_map from_u64_scast comp_def)

lemma read_length_header:
  assumes "n < 2 ^ 31"
  shows "read_next_word (to_le_bytes (of_nat n :: 32 word)) = Inr (of_nat n :: 32 word, [])"
    "unat (scast (of_nat n :: 32 word) :: u64) = n"
proof -
  show "read_next_word (to_le_bytes (of_nat n :: 32 word)) = Inr (of_nat n :: 32 word, [])"
    using from_to_le_bytes [of "of_nat n :: 32 word"] by (simp add: read_next_word_def)
  have "sint (of_nat n :: 32 word) = int n"
    using assms by (simp add: signed_of_nat signed_take_bit_int_eq_self)
  moreover have "uint (scast (of_nat n :: 32 word) :: u64) = take_bit 64 (sint (of_nat n :: 32 word))"
    by transfer simp
  ultimately have "uint (scast (of_nat n :: 32 word) :: u64) = int n"
    using assms by (simp add: take_bit_int_eq_self)
  then show "unat (scast (of_nat n :: 32 word) :: u64) = n" by (metis nat_int unat_eq_nat_uint)
qed

lemma levels_v1_denotes:
  assumes ls: "\<forall>l \<in> set ls. level_ok max_level l" "length ls < 2 ^ 63"
  obtains e e' bytes where "level_encoder_v1 RLE max_level capacity = Inr e" "level_put ls e = Inr (length ls, e')"
    "level_consume e' = Inr bytes" "length bytes \<le> 4 + max_buffer_size (level_bit_width max_level) (length ls)"
    "\<And>rest. length bytes < 4 + 2 ^ 31 \<Longrightarrow>
       \<exists>d pad. level_decoder_v1 max_level (bytes @ rest) = Inr (d, rest) \<and> denotes d (map scast ls @ pad)"
proof -
  let ?w = "level_bit_width max_level"
  obtain e rs pad where e: "rle_put_all (map scast ls) (rle_encoder_from_buf ?w (replicate 4 0)) = Inr e"
      "rle_consume e = Inr (replicate 4 0 @ concat (map (run_bytes ?w) rs))"
      "\<forall>r \<in> set rs. run_ok ?w r" "concat (map run_values rs) = map scast ls @ pad"
      "length (concat (map (run_bytes ?w) rs)) \<le> max_buffer_size ?w (length ls)"
    using level_put_flushed [OF ls] .
  let ?body = "concat (map (run_bytes ?w) rs)"
  let ?header = "to_le_bytes (of_nat (length ?body) :: 32 word)"
  obtain d where d: "rle_decoder_new (?body @ []) ?w = Inr d" "denotes d (map scast ls @ pad)"
    using denotes_new [OF level_bit_width_le e(3), of "[]"] e(4) by auto
  have "level_decoder_v1 max_level ((?header @ ?body) @ rest) = Inr (d, rest)" if "length (?header @ ?body) < 4 + 2 ^ 31" for rest
  proof -
    have "length ?body < 2 ^ 31" using that by simp
    from read_length_header [OF this] show ?thesis using d(1) by (simp add: level_decoder_v1_def)
  qed
  moreover have "level_consume (LevelRle e) = Inr (?header @ ?body)" using e(2) by (simp add: Let_def)
  moreover have "level_encoder_v1 RLE max_level capacity = Inr (LevelRle (rle_encoder_from_buf ?w (replicate 4 0)))"
    by (simp add: level_encoder_v1_def levels_max_buffer_size_def Let_def)
  moreover have "level_put ls (LevelRle (rle_encoder_from_buf ?w (replicate 4 0))) = Inr (length ls, LevelRle e)"
    using e(1) by simp
  moreover have "length (?header @ ?body) \<le> 4 + max_buffer_size ?w (length ls)" using e(5) by simp
  ultimately show thesis using that d(2) by blast
qed

section \<open>Properties\<close>

text \<open>C30. Levels round trip through a data page v1: the bytes that \<open>LevelEncoder::v1\<close> writes
  for a list of levels (length header included, as long as the encoded size fits the 32-bit
  header) are taken off the page by the page reader's level decoder, which leaves exactly the
  rest of the page, and reading from the decoder returns the levels in whatever batches they
  are requested.\<close>

theorem levels_v1_round_trip:
  assumes ls: "\<forall>l \<in> set ls. level_ok max_level l" "length ls < 2 ^ 63"
    and size: "max_buffer_size (level_bit_width max_level) (length ls) < 2 ^ 31"
    and ns: "sum_list ns \<le> length ls"
  shows "\<exists>e e' bytes d vss d'. level_encoder_v1 RLE max_level capacity = Inr e
    \<and> level_put ls e = Inr (length ls, e') \<and> level_consume e' = Inr bytes
    \<and> level_decoder_v1 max_level (bytes @ rest) = Inr (d, rest)
    \<and> read_values rle_read ns d = Inr (vss, d') \<and> map length vss = ns
    \<and> concat vss = take (sum_list ns) ls"
proof -
  obtain e e' bytes where enc: "level_encoder_v1 RLE max_level capacity = Inr e" "level_put ls e = Inr (length ls, e')"
      "level_consume e' = Inr bytes" "length bytes \<le> 4 + max_buffer_size (level_bit_width max_level) (length ls)"
    and dec: "\<And>rest. length bytes < 4 + 2 ^ 31 \<Longrightarrow>
       \<exists>d pad. level_decoder_v1 max_level (bytes @ rest) = Inr (d, rest) \<and> denotes d (map scast ls @ pad)"
    by (rule levels_v1_denotes [OF ls, of capacity]) blast
  have "length bytes < 4 + 2 ^ 31" using enc(4) size by linarith
  then obtain d pad where d: "level_decoder_v1 max_level (bytes @ rest) = Inr (d, rest)" "denotes d (map scast ls @ pad)"
    using dec by blast
  then show ?thesis using enc(1-3) level_batches [OF d(2) ns] by blast
qed

theorem levels_v1_round_trip_witness:
  "\<exists>e e' bytes d vss d'. level_encoder_v1 RLE 1 4 = Inr e
    \<and> level_put [1, 0, 1, 1] e = Inr (4, e') \<and> level_consume e' = Inr bytes
    \<and> level_decoder_v1 1 (bytes @ [7, 0]) = Inr (d, [7, 0])
    \<and> read_values rle_read [3, 1] d = Inr (vss, d') \<and> map length vss = [3, 1]
    \<and> concat vss = ([1, 0, 1, 1] :: i16 list)"
proof -
  have "level_bit_width 1 < 2147483647" using level_bit_width_le [of 1] by linarith
  then have "max_buffer_size (level_bit_width 1) 4 < 2 ^ 31"
    by (simp add: max_buffer_size_def Let_def ceil_8)
  moreover have "\<forall>l \<in> set [1, 0, 1, 1]. level_ok 1 l" by (simp add: level_ok_def)
  moreover have "length [1, 0, 1, 1 :: i16] = 4" by simp
  ultimately show ?thesis
    using levels_v1_round_trip [of "[1, 0, 1, 1]" 1 "[3, 1]" 4 "[7, 0]"] by (simp del: list.size)
qed

end
