(* ===== verification/Delta.thy ===== *)
theory Delta
  imports Levels
begin

text \<open>
  Delta binary packed pages: the value decoder of the column reader
  (\<open>glaredb_ext_parquet/src/column/encoding/delta_binary_packed.rs\<close>,
  \<open>DeltaBinaryPackedValueDecoder\<close>). The decoder is generic in its integer type (\<open>i32\<close> or
  \<open>i64\<close>), here a word type \<open>'a word\<close>; the wrapping additions of the source are additions of
  words. The output slice of \<open>read\<close> is represented by its length, the result is the list of
  the values that were written from its start.

  The specification is the grammar of the encoding: a page is a header and a list of blocks,
  a block a minimal delta and a list of miniblocks, a miniblock a bit width and the packed
  differences to the minimal delta.
\<close>

section \<open>The value decoder\<close>

record 'v delta_decoder =
  dd_cursor :: read_cursor
  dd_mini_count :: nat
  dd_total :: nat
  dd_remaining :: nat
  dd_widths :: "nat list"
  dd_mini_idx :: nat
  dd_value_idx :: nat
  dd_per_mini :: nat
  dd_min :: 'v
  dd_prev :: 'v
  dd_unpack :: bit_unpack_state

definition from_i64 :: "u64 \<Rightarrow> 'a::len word option" where
  "from_i64 v = (if - (2 ^ (LENGTH('a) - 1)) \<le> sint v \<and> sint v < 2 ^ (LENGTH('a) - 1)
                 then Some (scast v) else None)"

fun read_widths :: "nat \<Rightarrow> read_cursor \<Rightarrow> (nat list \<times> read_cursor) result" where
  "read_widths 0 cursor = Inr ([], cursor)"
| "read_widths (Suc n) cursor =
     bind_result (read_next_unchecked cursor) (\<lambda>(b, cursor).
     bind_result (read_widths n cursor) (\<lambda>(ws, cursor). Inr (unat b # ws, cursor)))"

definition load_next_block :: "'a::len word delta_decoder \<Rightarrow> 'a word delta_decoder result" where
  "load_next_block d =
     bind_result (read_unsigned_vlq (dd_cursor d)) (\<lambda>(v, cursor).
       case from_i64 (zigzag_decode v) of
         None \<Rightarrow> Inl (DbError ''Min delta too large'')
       | Some min_delta \<Rightarrow>
           bind_result (read_widths (dd_mini_count d) cursor) (\<lambda>(widths, cursor).
           bind_result (vec_get widths 0) (\<lambda>width.
           Inr (d\<lparr>dd_cursor := cursor, dd_min := min_delta, dd_widths := widths, dd_mini_idx := 0,
                  dd_value_idx := 0, dd_unpack := bit_unpack_state_new width\<rparr>))))"

definition delta_try_new :: "read_cursor \<Rightarrow> 'a::len word delta_decoder result" where
  "delta_try_new cursor =
     bind_result (read_unsigned_vlq cursor) (\<lambda>(block_size, cursor).
     bind_result (read_unsigned_vlq cursor) (\<lambda>(mini_block_count, cursor).
     bind_result (read_unsigned_vlq cursor) (\<lambda>(total_values, cursor).
     bind_result (read_unsigned_vlq cursor) (\<lambda>(v, cursor).
       case from_i64 (zigzag_decode v) of
         None \<Rightarrow> Inl (DbError ''first value too large'')
       | Some first_val \<Rightarrow>
           if mini_block_count = 0 then Inl (Panic ''attempt to divide by zero'')
           else
             let inner = \<lparr>dd_cursor = cursor, dd_mini_count = unat mini_block_count,
                          dd_total = unat total_values, dd_remaining = unat total_values - 1,
                          dd_widths = replicate (unat mini_block_count) 0, dd_mini_idx = 0,
                          dd_value_idx = 0,
                          dd_per_mini = unat block_size div unat mini_block_count,
                          dd_min = 0, dd_prev = first_val, dd_unpack = bit_unpack_state_new 0\<rparr>
             in if 0 < unat total_values then load_next_block inner else Inr inner))))"

fun delta_sums :: "'a::len word \<Rightarrow> 'a word \<Rightarrow> 'a word list \<Rightarrow> 'a word list" where
  "delta_sums min_delta prev [] = []"
| "delta_sums min_delta prev (u # us) =
     (let final_v = u + min_delta + prev in final_v # delta_sums min_delta final_v us)"


definition start_mini_block :: "'a::len word delta_decoder \<Rightarrow> 'a word delta_decoder result" where
  "start_mini_block d =
     (if dd_value_idx d = 0
      then bind_result (vec_get (dd_widths d) (dd_mini_idx d)) (\<lambda>bit_width.
           Inr (d\<lparr>dd_unpack := bit_unpack_state_new bit_width\<rparr>))
      else Inr d)"

definition delta_step ::
    "nat \<Rightarrow> 'a::len word delta_decoder \<Rightarrow> ('a word list \<times> 'a word delta_decoder) result" where
  "delta_step rem_cap d =
     bind_result
       (if dd_per_mini d \<le> dd_value_idx d \<or> dd_mini_count d \<le> dd_mini_idx d
        then load_next_block d else Inr d) (\<lambda>d.
     bind_result (start_mini_block d) (\<lambda>d.
     bind_result (usize_sub (dd_per_mini d) (dd_value_idx d)) (\<lambda>rem_in_mini_block.
     let count = min rem_cap rem_in_mini_block
     in bind_result (bit_unpack (dd_unpack d) (dd_cursor d) count) (\<lambda>(unpack_buf, state, cursor).
        bind_result (usize_sub (dd_remaining d) count) (\<lambda>values_remaining.
        let out = delta_sums (dd_min d) (dd_prev d) unpack_buf;
            d = d\<lparr>dd_cursor := cursor, dd_unpack := state, dd_prev := last (dd_prev d # out),
                  dd_remaining := values_remaining, dd_value_idx := dd_value_idx d + count\<rparr>
        in Inr (out, if dd_per_mini d \<le> dd_value_idx d
                     then d\<lparr>dd_mini_idx := dd_mini_idx d + 1, dd_value_idx := 0\<rparr> else d))))))"

lemma length_delta_sums [simp]: "length (delta_sums m p us) = length us"
  by (induction us arbitrary: p) (simp_all add: Let_def)

lemma delta_sums_eq_Nil [simp]: "delta_sums m p us = [] \<longleftrightarrow> us = []"
  by (cases us) (simp_all add: Let_def)

lemma read_widths_shorter: "read_widths n c = Inr (ws, c') \<Longrightarrow> length c' \<le> length c"
  by (induction n c arbitrary: ws rule: read_widths.induct)
     (fastforce simp: bind_result_eq_Inr read_next_unchecked_eq_Inr)+

lemma load_next_block_shorter:
  "load_next_block d = Inr d' \<Longrightarrow> length (dd_cursor d') < length (dd_cursor d)"
  by (fastforce simp: load_next_block_def bind_result_eq_Inr read_unsigned_vlq_def
      dest: read_unsigned_vlq_loop_shorter read_widths_shorter split: option.splits)

lemma length_read_values: "read_values f ns s = Inr (vs, s') \<Longrightarrow> length vs = length ns"
  by (induction ns arbitrary: s vs) (auto simp: bind_result_eq_Inr)

lemma length_bit_unpack: "bit_unpack st c n = Inr (us, st', c') \<Longrightarrow> length us = n"
  by (auto simp: bit_unpack_def bind_result_eq_Inr Let_def length_read_values split: if_splits)

lemma bit_unpack_none: "bit_unpack st c 0 = Inr (us, st', c') \<Longrightarrow> c' = c"
  by (auto simp: bit_unpack_def bind_result_eq_Inr Let_def split: if_splits)

lemma start_mini_block_eq_Inr:
  "start_mini_block d = Inr d' \<Longrightarrow>
    dd_cursor d' = dd_cursor d \<and> dd_per_mini d' = dd_per_mini d \<and> dd_value_idx d' = dd_value_idx d"
  by (auto simp: start_mini_block_def bind_result_eq_Inr split: if_splits)

lemma delta_step_progress:
  fixes d :: "'a::len word delta_decoder"
  assumes "delta_step rem_cap d = Inr (out, d')" "0 < rem_cap"
  shows "out \<noteq> [] \<or> length (dd_cursor d') < length (dd_cursor d)"
proof -
  let ?full = "dd_per_mini d \<le> dd_value_idx d \<or> dd_mini_count d \<le> dd_mini_idx d"
  obtain d1 d2 k us st c where
      d1: "(if ?full then load_next_block d else Inr d) = Inr d1"
    and d2: "start_mini_block d1 = Inr d2" and k: "usize_sub (dd_per_mini d2) (dd_value_idx d2) = Inr k"
    and us: "bit_unpack (dd_unpack d2) (dd_cursor d2) (min rem_cap k) = Inr (us :: 'a word list, st, c)"
    and out: "length out = length us" "dd_cursor d' = c"
    using assms(1) unfolding delta_step_def Let_def bind_result_eq_Inr split_paired_Ex prod.case
    by (elim exE conjE) (auto split: if_splits)
  show ?thesis
  proof (cases "out = []")
    case True
    then have "k = 0" using out(1) length_bit_unpack [OF us] assms(2) by simp
    then have "?full" using d1 start_mini_block_eq_Inr [OF d2] k
      by (auto simp: usize_sub_def split: if_splits)
    then show ?thesis
      using d1 load_next_block_shorter [of d d1] start_mini_block_eq_Inr [OF d2] us out
      by (auto simp: \<open>k = 0\<close> dest: bit_unpack_none)
  qed simp
qed

function delta_loop ::
    "nat \<Rightarrow> 'a::len word delta_decoder \<Rightarrow> ('a word list \<times> 'a word delta_decoder) result" where
  "delta_loop rem_cap d =
     (if 0 < rem_cap \<and> 0 < dd_remaining d
      then bind_result (delta_step rem_cap d) (\<lambda>(out, d).
           bind_result (delta_loop (rem_cap - length out) d) (\<lambda>(outs, d). Inr (out @ outs, d)))
      else Inr ([], d))"
  by pat_completeness auto
termination delta_loop
proof (relation "measures [\<lambda>(n, d). n, \<lambda>(n, d). length (dd_cursor d)]", goal_cases)
  case (2 n d x out d')
  then show ?case using delta_step_progress [of n d out d'] by (cases out) auto
qed simp

declare delta_loop.simps [simp del]

definition delta_read :: "nat \<Rightarrow> 'a::len word delta_decoder \<Rightarrow> ('a word list \<times> 'a word delta_decoder) result"
where
  "delta_read out_len d =
     (if out_len = 0 then Inr ([], d)
      else bind_result (delta_loop (out_len - 1) d) (\<lambda>(out, d'). Inr (dd_prev d # out, d')))"

definition delta_try_into_cursor :: "'a::len word delta_decoder \<Rightarrow> read_cursor result" where
  "delta_try_into_cursor d =
     bind_result (vec_get (dd_widths d) (dd_mini_idx d)) (\<lambda>width.
     bind_result (usize_sub (dd_per_mini d) (dd_value_idx d)) (\<lambda>rem_vals.
     if 0 < width \<and> 0 < rem_vals
     then skip_bytes_unchecked (ceil (width * rem_vals) 8) (dd_cursor d)
     else Inr (dd_cursor d)))"

section \<open>The format\<close>

type_synonym mini_block = "nat \<times> u64 list"
type_synonym 'a delta_block = "'a word \<times> mini_block list"

fun mini_fits :: "mini_block \<Rightarrow> bool" where
  "mini_fits (w, us) \<longleftrightarrow> w \<le> 64 \<and> (\<forall>u \<in> set us. take_bit w u = u)"

definition mini_bits :: "mini_block list \<Rightarrow> bool list" where
  "mini_bits ms = concat (map (\<lambda>(w, us). pack w us) ms)"

definition mini_deltas :: "'a::len word \<Rightarrow> mini_block list \<Rightarrow> 'a word list" where
  "mini_deltas min_delta ms = map (\<lambda>u. from_u64 u + min_delta) (concat (map snd ms))"

fun block_ok :: "nat \<Rightarrow> nat \<Rightarrow> 'a::len delta_block \<Rightarrow> bool" where
  "block_ok n per (m, ms) \<longleftrightarrow> length ms = n \<and> list_all mini_fits ms \<and> list_all (\<lambda>x. length (snd x) = per) ms"

fun block_bytes :: "'a::len delta_block \<Rightarrow> byte list" where
  "block_bytes (m, ms) =
     vlq_bytes (zigzag_encode (scast m)) @ map (of_nat \<circ> fst) ms @ bytes_of_bits (mini_bits ms)"

fun block_deltas :: "'a::len delta_block \<Rightarrow> 'a word list" where
  "block_deltas (m, ms) = mini_deltas m ms"

fun running :: "'a::len word \<Rightarrow> 'a word list \<Rightarrow> 'a word list" where
  "running p [] = []"
| "running p (x # xs) = (x + p) # running (x + p) xs"

lemma delta_sums_running: "delta_sums m p us = running p (map (\<lambda>u. u + m) us)"
  by (induction us arbitrary: p) (simp_all add: Let_def)

lemma running_append: "running p (xs @ ys) = running p xs @ running (last (p # running p xs)) ys"
  by (induction xs arbitrary: p) simp_all

lemma length_running [simp]: "length (running p xs) = length xs"
  by (induction xs arbitrary: p) simp_all

lemma mini_bits_Cons [simp]: "mini_bits ((w, us) # ms) = pack w us @ mini_bits ms"
  by (simp add: mini_bits_def)

lemma mini_bits_Nil [simp]: "mini_bits [] = []"
  by (simp add: mini_bits_def)

lemma mini_deltas_Cons [simp]:
  "mini_deltas m ((w, us) # ms) = map (\<lambda>u. from_u64 u + m) us @ mini_deltas m ms"
  by (simp add: mini_deltas_def)

lemma mini_deltas_Nil [simp]: "mini_deltas m [] = []"
  by (simp add: mini_deltas_def)

lemma mini_bits_aligned: "list_all (\<lambda>x. length (snd x) = per) ms \<Longrightarrow> 8 dvd per \<Longrightarrow> 8 dvd length (mini_bits ms)"
  by (induction ms) auto

lemma stream_realigned:
  assumes "drop p (stream bs) = D" "p < 8" "8 dvd length D"
  shows "stream bs = D"
proof (cases bs)
  case (Cons b bs')
  have "8 dvd 8 * length bs - p" using assms(3) by (simp flip: assms(1))
  then have "p = 0" using Cons assms(2) by simp presburger
  then show ?thesis using assms(1) by simp
qed (use assms in auto)

lemma sint_scast_i64:
  assumes "LENGTH('a::len) \<le> 64"
  shows "sint (scast (m :: 'a word) :: u64) = sint m" "ucast (scast m :: u64) = m"
proof -
  have "(2 :: int) ^ (LENGTH('a) - Suc 0) \<le> 2 ^ 63" using assms by (intro power_increasing) auto
  then have "- (2 ^ 63) \<le> sint m" "sint m < 2 ^ 63"
    using sint_greater_eq [of m] sint_less [of m] by linarith+
  then show "sint (scast m :: u64) = sint m"
    by (simp add: signed_scast_eq signed_take_bit_int_eq_self)
  show "ucast (scast m :: u64) = m"
    using assms by (intro bit_word_eqI) (auto simp: bit_simps)
qed

lemma from_i64_scast:
  assumes "LENGTH('a::len) \<le> 64"
  shows "from_i64 (scast (m :: 'a word)) = Some m"
proof -
  have "scast (scast m :: u64) = m"
    using assms by (intro bit_word_eqI) (auto simp: bit_simps)
  then show ?thesis
    using sint_greater_eq [of m] sint_less [of m] by (simp add: from_i64_def sint_scast_i64 [OF assms])
qed

lemma read_widths_bytes:
  "\<forall>x \<in> set ms. fst x \<le> 64 \<Longrightarrow>
    read_widths (length ms) (map (of_nat \<circ> fst) ms @ rest) = Inr (map fst ms, rest)"
  by (induction ms) (auto simp: unsigned_of_nat take_bit_nat_eq_self)

section \<open>What a decoder denotes\<close>

fun current_ok :: "nat \<Rightarrow> nat \<Rightarrow> bit_unpack_state \<Rightarrow> mini_block list \<Rightarrow> bool" where
  "current_ok per idx state [] \<longleftrightarrow> idx = 0"
| "current_ok per idx state (x # ms) \<longleftrightarrow>
     length (snd x) = per - idx \<and> list_all (\<lambda>x. length (snd x) = per) ms
     \<and> (idx \<noteq> 0 \<longrightarrow> bus_pos state < 8 \<and> bus_width state = fst x)"

definition delta_bits :: "'a::len word delta_decoder \<Rightarrow> bool list" where
  "delta_bits d = drop (if dd_value_idx d = 0 then 0 else bus_pos (dd_unpack d)) (stream (dd_cursor d))"

fun trailing :: "nat \<Rightarrow> nat \<Rightarrow> mini_block list \<Rightarrow> mini_block list list \<Rightarrow> bool" where
  "trailing idx n [] [] \<longleftrightarrow> True"
| "trailing idx n [] (ms # bs) \<longleftrightarrow> 0 < n \<and> trailing 0 n ms bs"
| "trailing idx n (x # ms) bs \<longleftrightarrow> (idx = 0 \<and> n = 0 \<longrightarrow> fst x = 0) \<and> trailing 0 (n - length (snd x)) ms bs"

definition delta_denotes :: "'a::len word delta_decoder \<Rightarrow> nat \<Rightarrow> byte list \<Rightarrow> 'a word list \<Rightarrow> bool" where
  "delta_denotes d n rest ds \<longleftrightarrow> (\<exists>ms bs.
     8 dvd dd_per_mini d \<and> 0 < dd_mini_count d \<and> dd_value_idx d < dd_per_mini d
     \<and> dd_mini_idx d + length ms = dd_mini_count d \<and> map fst ms = drop (dd_mini_idx d) (dd_widths d)
     \<and> list_all mini_fits ms \<and> current_ok (dd_per_mini d) (dd_value_idx d) (dd_unpack d) ms
     \<and> (\<forall>b \<in> set bs. block_ok (dd_mini_count d) (dd_per_mini d) b)
     \<and> delta_bits d = mini_bits ms @ stream (concat (map block_bytes bs) @ rest)
     \<and> ds = mini_deltas (dd_min d) ms @ concat (map block_deltas bs)
     \<and> trailing (dd_value_idx d) n ms (map snd bs))"

lemma load_block:
  assumes b: "block_ok (dd_mini_count d) per (m, ms)" "0 < dd_mini_count d"
    and cursor: "dd_cursor d = block_bytes (m :: 'a::len word, ms) @ rest" and ty: "int_type TYPE('a)"
  shows "load_next_block d = Inr (d\<lparr>dd_cursor := bytes_of_bits (mini_bits ms) @ rest, dd_min := m,
    dd_widths := map fst ms, dd_mini_idx := 0, dd_value_idx := 0,
    dd_unpack := bit_unpack_state_new (fst (hd ms))\<rparr>)"
proof -
  have "\<forall>x \<in> set ms. fst x \<le> 64" using b(1) by (auto simp: list_all_iff)
  from read_widths_bytes [OF this]
  have "read_widths (dd_mini_count d) (map (of_nat \<circ> fst) ms @ bytes_of_bits (mini_bits ms) @ rest) =
      Inr (map fst ms, bytes_of_bits (mini_bits ms) @ rest)" using b(1) by simp
  moreover have "vec_get (map fst ms) 0 = Inr (fst (hd ms))"
    using b by (cases ms) (auto simp: vec_get_def)
  ultimately show ?thesis
    using int_type_D(2) [OF ty]
    by (simp add: load_next_block_def cursor zigzag_decode_encode from_i64_scast del: map_map)
qed

lemma loaded_denotes:
  assumes d: "block_ok (dd_mini_count d) (dd_per_mini d) (m, ms)" "0 < dd_mini_count d"
      "8 dvd dd_per_mini d" "0 < dd_per_mini d" "\<forall>b \<in> set bs. block_ok (dd_mini_count d) (dd_per_mini d) b"
      "trailing 0 n ms (map snd bs)"
  shows "delta_denotes (d\<lparr>dd_cursor := bytes_of_bits (mini_bits ms) @ concat (map block_bytes bs) @ rest,
      dd_min := m, dd_widths := map fst ms, dd_mini_idx := 0, dd_value_idx := 0, dd_unpack := st\<rparr>)
    n rest (concat (map block_deltas ((m, ms) # bs)))"
proof -
  have ms: "length ms = dd_mini_count d" "list_all mini_fits ms" "list_all (\<lambda>x. length (snd x) = dd_per_mini d) ms"
    using d(1) by simp_all
  have "stream (bytes_of_bits (mini_bits ms)) = mini_bits ms"
    using mini_bits_aligned [OF ms(3) d(3)] by (rule stream_bytes_of_bits)
  moreover have "current_ok (dd_per_mini d) 0 st ms" using ms(3) by (cases ms) auto
  ultimately show ?thesis
    unfolding delta_denotes_def using d ms
    by (intro exI [of _ ms] exI [of _ bs]) (simp add: delta_bits_def)
qed

lemma denotes_reload:
  fixes d :: "'a::len word delta_decoder"
  assumes d: "delta_denotes d n rest ds" "dd_mini_count d \<le> dd_mini_idx d" "ds \<noteq> []" and ty: "int_type TYPE('a)"
  shows "\<exists>d'. load_next_block d = Inr d' \<and> delta_denotes d' n rest ds \<and> dd_mini_idx d' < dd_mini_count d'
    \<and> dd_prev d' = dd_prev d \<and> dd_remaining d' = dd_remaining d"
proof -
  have "ms = [] \<and> dd_value_idx d = 0" if "dd_mini_idx d + length ms = dd_mini_count d"
      "current_ok (dd_per_mini d) (dd_value_idx d) (dd_unpack d) ms" for ms :: "mini_block list"
    using that d(2) by (cases ms) auto
  then obtain bs where bs: "\<forall>b \<in> set bs. block_ok (dd_mini_count d) (dd_per_mini d) b"
      "stream (dd_cursor d) = stream (concat (map block_bytes bs) @ rest)" "ds = concat (map block_deltas bs)"
      "8 dvd dd_per_mini d" "0 < dd_mini_count d" "0 < dd_per_mini d" "trailing 0 n [] (map snd bs)"
    using d(1) unfolding delta_denotes_def by (fastforce simp: delta_bits_def)
  obtain m ms bs' where b: "bs = (m, ms) # bs'" using d(3) bs(3) by (cases bs) auto
  have "dd_cursor d = block_bytes (m, ms) @ concat (map block_bytes bs') @ rest"
    using bs(2) unfolding stream_inject b by simp
  moreover have "block_ok (dd_mini_count d) (dd_per_mini d) (m, ms)"
      "\<forall>b \<in> set bs'. block_ok (dd_mini_count d) (dd_per_mini d) b" using bs(1) b by auto
  ultimately show ?thesis
    using load_block [of d "dd_per_mini d" m ms, OF _ _ _ ty] loaded_denotes [of d m ms bs' n _ rest] bs(3-) b by simp
qed

lemma denotes_current:
  fixes d :: "'a::len word delta_decoder"
  assumes d: "delta_denotes d n rest ds" "dd_mini_idx d < dd_mini_count d"
  obtains w us ms bs u where
    "start_mini_block d = Inr (d\<lparr>dd_unpack := u\<rparr>)" "bus_width u = w" "bus_pos u < 8" "w \<le> 64"
    "drop (bus_pos u) (stream (dd_cursor d)) = pack w us @ mini_bits ms @ stream (concat (map block_bytes bs) @ rest)"
    "length us = dd_per_mini d - dd_value_idx d" "\<forall>v \<in> set us. take_bit w v = v"
    "list_all (\<lambda>x. length (snd x) = dd_per_mini d) ms" "list_all mini_fits ms"
    "dd_mini_idx d + Suc (length ms) = dd_mini_count d" "w # map fst ms = drop (dd_mini_idx d) (dd_widths d)"
    "\<forall>b \<in> set bs. block_ok (dd_mini_count d) (dd_per_mini d) b"
    "ds = map (\<lambda>u. from_u64 u + dd_min d) us @ mini_deltas (dd_min d) ms @ concat (map block_deltas bs)"
    "dd_value_idx d = 0 \<and> n = 0 \<longrightarrow> w = 0" "trailing 0 (n - length us) ms (map snd bs)"
proof -
  obtain ms0 bs where *: "dd_mini_idx d + length ms0 = dd_mini_count d"
      "map fst ms0 = drop (dd_mini_idx d) (dd_widths d)" "list_all mini_fits ms0"
      "current_ok (dd_per_mini d) (dd_value_idx d) (dd_unpack d) ms0"
      "\<forall>b \<in> set bs. block_ok (dd_mini_count d) (dd_per_mini d) b"
      "delta_bits d = mini_bits ms0 @ stream (concat (map block_bytes bs) @ rest)"
      "ds = mini_deltas (dd_min d) ms0 @ concat (map block_deltas bs)"
      "trailing (dd_value_idx d) n ms0 (map snd bs)"
    using d(1) unfolding delta_denotes_def by blast
  obtain w us ms where ms: "ms0 = (w, us) # ms" using *(1) d(2) by (cases ms0) auto
  have "vec_get (dd_widths d) (dd_mini_idx d) = Inr w"
    using *(2) ms by (metis (no_types, lifting) fst_conv hd_drop_conv_nth list.sel(1) list.simps(3,9) drop_eq_Nil2
        linorder_not_le vec_get_def)
  then obtain u where "start_mini_block d = Inr (d\<lparr>dd_unpack := u\<rparr>)" "bus_width u = w" "bus_pos u < 8"
      "drop (bus_pos u) (stream (dd_cursor d)) = delta_bits d"
    using *(4) ms by (cases "dd_value_idx d = 0")
      (auto simp: start_mini_block_def bit_unpack_state_new_def delta_bits_def intro: that [of "dd_unpack d"])
  then show thesis using that [of u w us ms bs] * ms by auto
qed

definition advanced ::
    "nat \<Rightarrow> read_cursor \<Rightarrow> bit_unpack_state \<Rightarrow> 'a::len word \<Rightarrow> nat \<Rightarrow> 'a word delta_decoder \<Rightarrow> 'a word delta_decoder"
where
  "advanced k cursor state prev values_remaining d =
     (let d = d\<lparr>dd_cursor := cursor, dd_unpack := state, dd_prev := prev,
                dd_remaining := values_remaining, dd_value_idx := dd_value_idx d + k\<rparr>
      in if dd_per_mini d \<le> dd_value_idx d
         then d\<lparr>dd_mini_idx := dd_mini_idx d + 1, dd_value_idx := 0\<rparr> else d)"

lemma advanced_simps [simp]:
  "dd_prev (advanced k c st p r d) = p" "dd_remaining (advanced k c st p r d) = r"
  by (simp_all add: advanced_def Let_def)

lemma denotes_unpack:
  fixes d :: "'a::len word delta_decoder"
  assumes d: "delta_denotes d n rest ds" "dd_mini_idx d < dd_mini_count d" and k: "0 < k" "k \<le> dd_per_mini d - dd_value_idx d"
    and ty: "int_type TYPE('a)"
  obtains u us st c where
    "start_mini_block d = Inr (d\<lparr>dd_unpack := u\<rparr>)"
    "bit_unpack u (dd_cursor d) k = Inr (us :: 'a word list, st, c)" "map (\<lambda>u. u + dd_min d) us = take k ds"
    "\<forall>p r. delta_denotes (advanced k c st p r d) (n - k) rest (drop k ds)"
proof -
  obtain w us ms bs u where cur:
    "start_mini_block d = Inr (d\<lparr>dd_unpack := u\<rparr>)" "bus_width u = w" "bus_pos u < 8" "w \<le> 64"
    "drop (bus_pos u) (stream (dd_cursor d)) = pack w us @ mini_bits ms @ stream (concat (map block_bytes bs) @ rest)"
    "length us = dd_per_mini d - dd_value_idx d" "\<forall>v \<in> set us. take_bit w v = v"
    "list_all (\<lambda>x. length (snd x) = dd_per_mini d) ms" "list_all mini_fits ms"
    "dd_mini_idx d + Suc (length ms) = dd_mini_count d" "w # map fst ms = drop (dd_mini_idx d) (dd_widths d)"
    "\<forall>b \<in> set bs. block_ok (dd_mini_count d) (dd_per_mini d) b"
    "ds = map (\<lambda>u. from_u64 u + dd_min d) us @ mini_deltas (dd_min d) ms @ concat (map block_deltas bs)"
    "dd_value_idx d = 0 \<and> n = 0 \<longrightarrow> w = 0" "trailing 0 (n - length us) ms (map snd bs)"
    using denotes_current [OF d] .
  have per: "8 dvd dd_per_mini d" "0 < dd_mini_count d" "dd_value_idx d < dd_per_mini d"
    using d(1) unfolding delta_denotes_def by auto
  let ?tail = "mini_bits ms @ stream (concat (map block_bytes bs) @ rest)"
  have D: "drop (bus_pos u) (stream (dd_cursor d)) = pack w (take k us) @ pack w (drop k us) @ ?tail"
    unfolding cur(5) append_assoc [symmetric] pack_append [symmetric] by simp
  have len: "length (take k us) = k" using k cur(6) by simp
  have "map of_bits (chunks (replicate k w) (pack w (take k us) @ pack w (drop k us) @ ?tail)) =
      (map from_u64 (take k us) :: 'a word list)"
    using chunks_pack [OF ty, of "take k us" w "pack w (drop k us) @ ?tail"] cur(7) len by (auto dest: in_set_takeD)
  then obtain st c where st: "bit_unpack u (dd_cursor d) k = Inr (map from_u64 (take k us) :: 'a word list, st, c)"
      "bus_width st = w" "bus_pos st < 8" "drop (bus_pos st) (stream c) = pack w (drop k us) @ ?tail"
    using bit_unpack_ok [OF cur(4,3,2) ty, of k "dd_cursor d"] len by (auto simp: D)
  have "delta_denotes (advanced k c st p r d) (n - k) rest (drop k ds)" for p r
  proof (cases "dd_value_idx d + k < dd_per_mini d")
    case True
    then show ?thesis
      using per cur(4,6-15) st len k unfolding delta_denotes_def
      by (intro exI [of _ "(w, drop k us) # ms"] exI [of _ bs])
         (auto simp: advanced_def delta_bits_def drop_map dest: in_set_dropD)
  next
    case False
    then have "drop k us = []" using k cur(6) by simp
    moreover have "8 dvd length ?tail" using mini_bits_aligned [OF cur(8) per(1)] by simp
    ultimately have "stream c = ?tail" using st(3,4) by (auto intro: stream_realigned simp: pack_def)
    moreover have "current_ok (dd_per_mini d) 0 st ms" using cur(8) by (cases ms) auto
    moreover have "length us = k" using False k cur(6) by simp
    then have "trailing 0 (n - k) ms (map snd bs)" using cur(15) by simp
    moreover have "map fst ms = drop (Suc (dd_mini_idx d)) (dd_widths d)"
      using arg_cong [OF cur(11), of tl] by (simp add: drop_Suc tl_drop)
    ultimately show ?thesis
      using False per cur(8-10,12,13) \<open>drop k us = []\<close> k cur(6) unfolding delta_denotes_def
      by (intro exI [of _ ms] exI [of _ bs])
         (auto simp: advanced_def delta_bits_def)
  qed
  moreover have "map (\<lambda>u. u + dd_min d) (map from_u64 (take k us)) = take k ds"
    using cur(13) len by (simp add: take_map)
  ultimately show thesis using that cur(1) st(1) by blast
qed

lemma delta_step_denotes:
  fixes d :: "'a::len word delta_decoder"
  assumes d: "delta_denotes d m rest ds" and n: "0 < n" "n \<le> dd_remaining d" "n \<le> length ds"
    and ty: "int_type TYPE('a)"
  obtains k d' where "0 < k" "k \<le> n" "delta_step n d = Inr (running (dd_prev d) (take k ds), d')"
    "delta_denotes d' (m - k) rest (drop k ds)" "dd_prev d' = last (dd_prev d # running (dd_prev d) (take k ds))"
    "dd_remaining d' = dd_remaining d - k"
proof -
  let ?full = "dd_per_mini d \<le> dd_value_idx d \<or> dd_mini_count d \<le> dd_mini_idx d"
  have "ds \<noteq> []" using n by auto
  moreover have "\<not> dd_per_mini d \<le> dd_value_idx d" using d unfolding delta_denotes_def by auto
  ultimately obtain d1 where load: "(if ?full then load_next_block d else Inr d) = Inr d1"
      and d1: "delta_denotes d1 m rest ds" "dd_mini_idx d1 < dd_mini_count d1" "dd_prev d1 = dd_prev d"
      "dd_remaining d1 = dd_remaining d"
    using denotes_reload [OF d _ _ ty] d by (cases "dd_mini_count d \<le> dd_mini_idx d") auto
  define k where "k = min n (dd_per_mini d1 - dd_value_idx d1)"
  have lt: "dd_value_idx d1 < dd_per_mini d1" using d1(1) unfolding delta_denotes_def by auto
  then have k: "0 < k" "k \<le> dd_per_mini d1 - dd_value_idx d1" using n(1) by (auto simp: k_def)
  obtain u us st c where unpack: "start_mini_block d1 = Inr (d1\<lparr>dd_unpack := u\<rparr>)"
      "bit_unpack u (dd_cursor d1) k = Inr (us :: 'a word list, st, c)"
      "map (\<lambda>u. u + dd_min d1) us = take k ds"
      "\<forall>p r. delta_denotes (advanced k c st p r d1) (m - k) rest (drop k ds)"
    using denotes_unpack [OF d1(1,2) k ty] .
  let ?out = "running (dd_prev d) (take k ds)"
  have out: "delta_sums (dd_min d1) (dd_prev d1) us = ?out"
    using unpack(3) d1(3) by (simp add: delta_sums_running)
  have sub: "usize_sub (dd_per_mini d1) (dd_value_idx d1) = Inr (dd_per_mini d1 - dd_value_idx d1)"
      "usize_sub (dd_remaining d) k = Inr (dd_remaining d - k)"
    using lt n(2) by (auto intro!: usize_sub_ok simp: k_def)
  have "delta_step n d =
      Inr (?out, advanced k c st (last (dd_prev d # ?out)) (dd_remaining d - k) d1)"
    unfolding delta_step_def load advanced_def Let_def
    by (simp add: unpack(1,2) sub k_def [symmetric] d1(3,4) out [unfolded d1(3)])
  then show thesis using that [of k] k(1) unpack(4) by (simp add: k_def)
qed

lemma delta_loop_denotes:
  fixes d :: "'a::len word delta_decoder"
  assumes ty: "int_type TYPE('a)"
  shows "delta_denotes d m rest ds \<Longrightarrow> n \<le> dd_remaining d \<Longrightarrow> n \<le> length ds \<Longrightarrow>
    \<exists>d'. delta_loop n d = Inr (running (dd_prev d) (take n ds), d') \<and> delta_denotes d' (m - n) rest (drop n ds)
      \<and> dd_prev d' = last (dd_prev d # running (dd_prev d) (take n ds)) \<and> dd_remaining d' = dd_remaining d - n"
proof (induction n arbitrary: d m ds rule: less_induct)
  case (less n)
  show ?case
  proof (cases "n = 0")
    case True
    then show ?thesis using less.prems(1) by (simp add: delta_loop.simps [of 0])
  next
    case False
    then obtain k d1 where k: "0 < k" "k \<le> n" "delta_step n d = Inr (running (dd_prev d) (take k ds), d1)"
        and d1: "delta_denotes d1 (m - k) rest (drop k ds)" "dd_prev d1 = last (dd_prev d # running (dd_prev d) (take k ds))"
        "dd_remaining d1 = dd_remaining d - k"
      using delta_step_denotes [OF less.prems(1) _ less.prems(2,3) ty] by auto
    have "n - k < n" "n - k \<le> dd_remaining d1" "n - k \<le> length (drop k ds)" using k less.prems d1(3) by auto
    from less.IH [OF this(1) d1(1) this(2,3)] obtain d2 where d2:
        "delta_loop (n - k) d1 = Inr (running (dd_prev d1) (take (n - k) (drop k ds)), d2)"
        "delta_denotes d2 (m - k - (n - k)) rest (drop (n - k) (drop k ds))"
        "dd_prev d2 = last (dd_prev d1 # running (dd_prev d1) (take (n - k) (drop k ds)))"
        "dd_remaining d2 = dd_remaining d1 - (n - k)" by blast
    have "take n ds = take k ds @ take (n - k) (drop k ds)" using k(2) by (simp flip: take_add)
    then have run: "running (dd_prev d) (take n ds) =
        running (dd_prev d) (take k ds) @ running (dd_prev d1) (take (n - k) (drop k ds))"
      unfolding d1(2) by (simp only: running_append)
    have "length (take k ds) = k" using k less.prems(3) by simp
    then have "delta_loop n d = Inr (running (dd_prev d) (take n ds), d2)"
      using k less.prems(2) d2(1) by (simp add: delta_loop.simps [of n] run)
    moreover have "last (dd_prev d # running (dd_prev d) (take n ds)) = dd_prev d2"
      unfolding run d2(3) d1(2) by simp
    ultimately show ?thesis using d2 d1(3) k(2) by simp
  qed
qed

section \<open>Pages\<close>

definition page_header :: "nat \<Rightarrow> nat \<Rightarrow> nat \<Rightarrow> 'a::len word \<Rightarrow> byte list" where
  "page_header block_size mini_blocks t first_value =
     vlq_bytes (of_nat block_size) @ vlq_bytes (of_nat mini_blocks) @ vlq_bytes (of_nat t)
     @ vlq_bytes (zigzag_encode (scast first_value))"

lemma try_new_denotes:
  fixes v :: "'a::len word"
  assumes ty: "int_type TYPE('a)" and sizes: "0 < c" "0 < per" "8 dvd per" "c * per < 2 ^ 64" "0 < t" "t < 2 ^ 64"
    and bs: "\<forall>b \<in> set bs. block_ok c per b" "bs \<noteq> []" "trailing 0 n [] (map snd bs)"
  obtains d where "delta_try_new (page_header (c * per) c t v @ concat (map block_bytes bs) @ rest) = Inr d"
    "delta_denotes d n rest (concat (map block_deltas bs))" "dd_prev d = v" "dd_remaining d = t - 1"
    "dd_total d = t"
proof -
  obtain m ms bs' where b: "bs = (m, ms) # bs'" using bs(2) by (cases bs) auto
  let ?body = "block_bytes (m, ms) @ concat (map block_bytes bs') @ rest"
  let ?inner = "\<lparr>dd_cursor = ?body, dd_mini_count = c, dd_total = t, dd_remaining = t - 1,
      dd_widths = replicate c 0, dd_mini_idx = 0, dd_value_idx = 0, dd_per_mini = per,
      dd_min = 0, dd_prev = v, dd_unpack = bit_unpack_state_new 0\<rparr>"
  have "c \<le> c * per" using sizes(2) by simp
  then have c: "c < 2 ^ 64" using sizes(4) by linarith
  have u: "unat (of_nat (c * per) :: u64) = c * per" "unat (of_nat c :: u64) = c" "unat (of_nat t :: u64) = t"
    using sizes c by (simp_all only: unat_of_nat_64)
  then have "(of_nat c :: u64) \<noteq> 0" using sizes(1) by (metis less_irrefl unat_0)
  then have "delta_try_new (page_header (c * per) c t v @ ?body) = load_next_block ?inner"
    using sizes(1,5) int_type_D(2) [OF ty] unfolding delta_try_new_def page_header_def append_assoc
    by (simp only: read_unsigned_vlq_bytes bind_result_simps prod.case zigzag_decode_encode from_i64_scast
        option.case u if_False Let_def if_True nonzero_mult_div_cancel_left not_gr_zero less_irrefl
        neq0_conv [symmetric] not_False_eq_True)
  moreover have ok: "block_ok c per (m, ms)" "\<forall>b \<in> set bs'. block_ok c per b" using bs(1) b by auto
  then have "load_next_block ?inner = Inr (?inner\<lparr>dd_cursor := bytes_of_bits (mini_bits ms) @ concat (map block_bytes bs') @ rest,
      dd_min := m, dd_widths := map fst ms, dd_mini_idx := 0, dd_value_idx := 0,
      dd_unpack := bit_unpack_state_new (fst (hd ms))\<rparr>)" (is "_ = Inr ?d")
    using sizes(1) by (intro load_block [OF _ _ _ ty, of _ per]) simp_all
  moreover have "delta_denotes ?d n rest (concat (map block_deltas bs))"
    using loaded_denotes [of ?inner m ms bs'] ok sizes bs(3) b by simp
  ultimately show thesis using that [of ?d] b by simp
qed

end
