(* ===== verification/Delta_Encoder.thy ===== *)
theory Delta_Encoder
  imports Delta
begin

text \<open>
  The encoder of delta binary packed pages
  (\<open>glaredb_ext_parquet/src/encodings/encoding/mod.rs\<close>, \<open>DeltaBitPackEncoder\<close>), and the round
  trip through the decoder of the theory \<open>Delta\<close>. The physical type of the encoder is the type
  argument \<open>TYPE('a)\<close>, 32 bits for \<open>INT32\<close> and 64 for \<open>INT64\<close>; an \<open>i64\<close> is a \<open>64 word\<close> whose
  order is the order of \<open>sint\<close>. The padding value of unused widths is the one of a build
  without \<open>cfg(test)\<close>.
\<close>

section \<open>The encoder\<close>

record delta_encoder =
  de_header :: bit_writer
  de_writer :: bit_writer
  de_total :: nat
  de_first :: u64
  de_current :: u64
  de_block_size :: nat
  de_mini_size :: nat
  de_num_mini :: nat
  de_in_block :: nat
  de_deltas :: "u64 list"

definition DEFAULT_NUM_MINI_BLOCKS :: nat where
  "DEFAULT_NUM_MINI_BLOCKS = 4"

definition delta_encoder_new :: "'a::len itself \<Rightarrow> delta_encoder result" where
  "delta_encoder_new T =
     (if LENGTH('a) = 32 \<or> LENGTH('a) = 64
      then
        let mini_block_size = if LENGTH('a) = 32 then 32 else 64;
            block_size = mini_block_size * DEFAULT_NUM_MINI_BLOCKS
        in if block_size mod 128 \<noteq> 0 then Inl (Panic ''assertion failed: block_size % 128 == 0'')
           else Inr \<lparr>de_header = bit_writer_new 32, de_writer = bit_writer_new (1024 * 1024),
                     de_total = 0, de_first = 0, de_current = 0, de_block_size = block_size,
                     de_mini_size = mini_block_size, de_num_mini = DEFAULT_NUM_MINI_BLOCKS,
                     de_in_block = 0, de_deltas = replicate block_size 0\<rparr>
      else Inl (Panic ''DeltaBitPackDecoder only supports i32 and i64''))"

definition delta_subtract :: "'a::len itself \<Rightarrow> u64 \<Rightarrow> u64 \<Rightarrow> u64" where
  "delta_subtract T left right = scast (ucast left - ucast right :: 'a word)"

definition subtract_u64 :: "'a::len itself \<Rightarrow> u64 \<Rightarrow> u64 \<Rightarrow> u64" where
  "subtract_u64 T left right = ucast (ucast left - ucast right :: 'a word)"

definition write_page_header :: "delta_encoder \<Rightarrow> delta_encoder" where
  "write_page_header e =
     e\<lparr>de_header := put_zigzag_vlq_int (de_first e) (put_vlq_int (of_nat (de_total e))
        (put_vlq_int (of_nat (de_num_mini e)) (put_vlq_int (of_nat (de_block_size e)) (de_header e))))\<rparr>"

definition cmp_min :: "u64 \<Rightarrow> u64 \<Rightarrow> u64" where
  "cmp_min a b = (if sint b < sint a then b else a)"

definition cmp_max :: "u64 \<Rightarrow> u64 \<Rightarrow> u64" where
  "cmp_max a b = (if sint b < sint a then a else b)"

definition i64_MAX :: u64 where
  "i64_MAX = 0x7FFFFFFFFFFFFFFF"

definition i64_MIN :: u64 where
  "i64_MIN = 0x8000000000000000"

fun flush_mini_blocks ::
    "'a::len itself \<Rightarrow> u64 list \<Rightarrow> nat \<Rightarrow> nat \<Rightarrow> u64 \<Rightarrow> nat \<Rightarrow> nat list \<Rightarrow> nat \<Rightarrow> bit_writer \<Rightarrow> (nat \<times> bit_writer) result"
where
  "flush_mini_blocks T deltas mini_size num_mini min_delta offset [] in_block w = Inr (in_block, w)"
| "flush_mini_blocks T deltas mini_size num_mini min_delta offset (i # is) in_block w =
     (let n = min mini_size in_block
      in if n = 0
         then bind_result (fold_results (\<lambda>j. write_at (offset + j) 0) [i..<num_mini] w) (\<lambda>w. Inr (in_block, w))
         else
           bind_result (fold_results (\<lambda>j max_delta.
               bind_result (vec_get deltas (i * mini_size + j)) (\<lambda>d. Inr (cmp_max max_delta d)))
             [0..<n] i64_MIN) (\<lambda>max_delta.
           let bit_width = num_required_bits (subtract_u64 T max_delta min_delta)
           in bind_result (write_at (offset + i) (of_nat bit_width) w) (\<lambda>w.
              bind_result (fold_results (\<lambda>j w.
                  bind_result (vec_get deltas (i * mini_size + j)) (\<lambda>d.
                    put_value (subtract_u64 T d min_delta) bit_width w))
                [0..<n] w) (\<lambda>w.
              bind_result (fold_results (\<lambda>_. put_value 0 bit_width) [n..<mini_size] w) (\<lambda>w.
              flush_mini_blocks T deltas mini_size num_mini min_delta offset is (in_block - n) w)))))"

definition flush_block_values :: "'a::len itself \<Rightarrow> delta_encoder \<Rightarrow> delta_encoder result" where
  "flush_block_values T e =
     (if de_in_block e = 0 then Inr e
      else
        bind_result (fold_results (\<lambda>i min_delta.
            bind_result (vec_get (de_deltas e) i) (\<lambda>d. Inr (cmp_min min_delta d)))
          [0..<de_in_block e] i64_MAX) (\<lambda>min_delta.
        let (offset, w) = bw_skip (de_num_mini e) (put_zigzag_vlq_int min_delta (de_writer e))
        in bind_result (flush_mini_blocks T (de_deltas e) (de_mini_size e) (de_num_mini e) min_delta offset
               [0..<de_num_mini e] (de_in_block e) w) (\<lambda>(in_block, w).
           if in_block = 0 then Inr (e\<lparr>de_writer := w, de_in_block := in_block\<rparr>)
           else Inl (Panic ''Expected 0 values in block''))))"

definition delta_put_value :: "'a::len word \<Rightarrow> delta_encoder \<Rightarrow> delta_encoder result" where
  "delta_put_value v e =
     bind_result (vec_set (de_deltas e) (de_in_block e) (delta_subtract TYPE('a) (scast v) (de_current e)))
       (\<lambda>deltas.
     let e = e\<lparr>de_deltas := deltas, de_current := scast v, de_in_block := de_in_block e + 1\<rparr>
     in if de_in_block e = de_block_size e then flush_block_values TYPE('a) e else Inr e)"

definition delta_put :: "'a::len word list \<Rightarrow> delta_encoder \<Rightarrow> delta_encoder result" where
  "delta_put vs e =
     (case vs of [] \<Rightarrow> Inr e
      | v # vs' \<Rightarrow>
          let (e, rest) = if de_total e = 0
                          then (e\<lparr>de_first := scast v, de_current := scast v\<rparr>, vs') else (e, vs)
          in fold_results delta_put_value rest (e\<lparr>de_total := de_total e + length vs\<rparr>))"

definition delta_flush_buffer :: "'a::len itself \<Rightarrow> delta_encoder \<Rightarrow> (byte list \<times> delta_encoder) result" where
  "delta_flush_buffer T e =
     bind_result (flush_block_values T e) (\<lambda>e.
     let e = write_page_header e;
         (header, hw) = bw_flush_buffer (de_header e);
         (body, w) = bw_flush_buffer (de_writer e)
     in Inr (header @ body,
             e\<lparr>de_header := bw_clear hw, de_writer := bw_clear w, de_total := 0, de_first := 0,
               de_current := 0, de_in_block := 0\<rparr>))"

definition estimated_data_encoded_size :: "delta_encoder \<Rightarrow> nat" where
  "estimated_data_encoded_size e = bytes_written (de_writer e)"

section \<open>What is written\<close>

definition written :: "bit_writer \<Rightarrow> byte list \<Rightarrow> bool list \<Rightarrow> bool" where
  "written w B D \<longleftrightarrow> writer_ok w \<and> length B \<le> length (bw_buffer w) \<and> writer_bits w = stream B @ D"

lemma put_value_buffer: "put_value v k w = Inr w' \<Longrightarrow> length (bw_buffer w) \<le> length (bw_buffer w')"
  by (auto simp: put_value_def Let_def split: if_splits)

lemma written_put:
  assumes "written w B D" "k \<le> 64" "take_bit k v = v"
  obtains w' where "put_value v k w = Inr w'" "written w' B (D @ bits k v)"
proof -
  obtain w' where "put_value v k w = Inr w'" "writer_ok w'" "writer_bits w' = writer_bits w @ bits k v"
    using put_value_bits [of w k v] assms unfolding written_def by blast
  then show thesis
    using that assms(1) put_value_buffer [of v k w w'] unfolding written_def by fastforce
qed

lemma written_puts:
  "written w B D \<Longrightarrow> k \<le> 64 \<Longrightarrow> \<forall>x \<in> set xs. take_bit k (f x) = f x \<Longrightarrow>
    \<exists>w'. fold_results (\<lambda>x. put_value (f x) k) xs w = Inr w' \<and> written w' B (D @ pack k (map f xs))"
proof (induction xs arbitrary: w D)
  case (Cons x xs)
  obtain w1 where "put_value (f x) k w = Inr w1" "written w1 B (D @ bits k (f x))"
    using written_put [of w B D k "f x"] Cons.prems by auto
  then show ?case using Cons.IH [of w1 "D @ bits k (f x)"] Cons.prems by (auto simp: pack_def)
qed (simp add: pack_def)

lemma written_write_at:
  assumes w: "written w B D" and p: "p < length B"
  obtains w' where "write_at p b w = Inr w'" "written w' (B[p := b]) D"
proof -
  have "take (8 * length B) (writer_bits w) = stream B" using w by (simp add: written_def)
  then have "stream (take (length B) (bw_buffer w)) = stream B"
    using w by (simp add: written_def writer_bits_def take_stream)
  then obtain R where R: "bw_buffer w = B @ R" by (metis stream_inject append_take_drop_id)
  let ?w' = "w\<lparr>bw_buffer := B[p := b] @ R\<rparr>"
  have "write_at p b w = Inr ?w'" using p by (simp add: write_at_def R list_update_append)
  moreover have "written ?w' (B[p := b]) D"
    using w by (auto simp: written_def writer_bits_def writer_ok_def R)
  ultimately show thesis using that by blast
qed

lemma written_flush:
  assumes w: "written w B D" "8 dvd length D"
  shows "bw_buffer (bw_flush w) = B @ bytes_of_bits D"
proof -
  have ok: "writer_ok w" "writer_bits w = stream B @ D" using w by (simp_all add: written_def)
  have "8 * length (bw_buffer w) + bw_offset w = 8 * length B + length D"
    using arg_cong [OF ok(2), of length] by (simp add: writer_bits_def)
  then have "8 dvd bw_offset w" using w(2) by presburger
  then have "writer_bits (bw_flush w) = writer_bits w"
    using writer_bits_flush [OF ok(1)] by auto
  then have "stream (bw_buffer (bw_flush w)) = stream (B @ bytes_of_bits D)"
    using ok(2) w(2) by (simp add: writer_bits_def stream_bytes_of_bits)
  then show ?thesis by (simp only: stream_inject)
qed

lemma written_append:
  assumes "written w B D" "8 dvd length D"
  shows "written (append_bytes bs w) (B @ bytes_of_bits D @ bs) []"
  using written_flush [OF assms] by (simp add: written_def writer_bits_def)

section \<open>The block of a list of deltas\<close>

lemma fold_cmp_min:
  "fold (\<lambda>x a. cmp_min a x) xs a \<in> set (a # xs)
    \<and> (\<forall>x \<in> set (a # xs). sint (fold (\<lambda>x a. cmp_min a x) xs a) \<le> sint x)"
proof (induction xs arbitrary: a)
  case (Cons x xs)
  show ?case using Cons.IH [of "cmp_min a x"] by (auto simp: cmp_min_def split: if_splits)
qed simp

lemma fold_cmp_max:
  "fold (\<lambda>x a. cmp_max a x) xs a \<in> set (a # xs)
    \<and> (\<forall>x \<in> set (a # xs). sint x \<le> sint (fold (\<lambda>x a. cmp_max a x) xs a))"
proof (induction xs arbitrary: a)
  case (Cons x xs)
  show ?case using Cons.IH [of "cmp_max a x"] by (auto simp: cmp_max_def split: if_splits)
qed simp

lemma i64_bounds: "sint i64_MIN \<le> sint (x :: u64)" "sint x \<le> sint i64_MAX"
  using sint_greater_eq [of x] sint_less [of x] by (simp_all add: i64_MIN_def i64_MAX_def)

lemma extreme_in_list:
  assumes "xs \<noteq> []" "\<forall>x \<in> set xs. sint x = sint (b :: u64)"
  shows "b \<in> set xs"
  using assms by (metis hd_in_set signed_word_eqI)

lemma least_delta:
  assumes "xs \<noteq> []"
  shows "fold (\<lambda>x a. cmp_min a x) xs i64_MAX \<in> set xs"
    "\<forall>x \<in> set xs. sint (fold (\<lambda>x a. cmp_min a x) xs i64_MAX) \<le> sint x"
proof -
  let ?m = "fold (\<lambda>x a. cmp_min a x) xs i64_MAX"
  show "\<forall>x \<in> set xs. sint ?m \<le> sint x" using fold_cmp_min [of xs i64_MAX] by auto
  then show "?m \<in> set xs"
    using fold_cmp_min [of xs i64_MAX] extreme_in_list [OF assms, of i64_MAX] i64_bounds(2)
    by (cases "?m = i64_MAX") (auto intro: antisym)
qed

lemma greatest_delta:
  assumes "xs \<noteq> []"
  shows "fold (\<lambda>x a. cmp_max a x) xs i64_MIN \<in> set xs"
    "\<forall>x \<in> set xs. sint x \<le> sint (fold (\<lambda>x a. cmp_max a x) xs i64_MIN)"
proof -
  let ?m = "fold (\<lambda>x a. cmp_max a x) xs i64_MIN"
  show "\<forall>x \<in> set xs. sint x \<le> sint ?m" using fold_cmp_max [of xs i64_MIN] by auto
  then show "?m \<in> set xs"
    using fold_cmp_max [of xs i64_MIN] extreme_in_list [OF assms, of i64_MIN] i64_bounds(1)
    by (cases "?m = i64_MIN") (auto intro: antisym)
qed

lemma fold_results_slice:
  "b + n \<le> length xs \<Longrightarrow>
    fold_results (\<lambda>i s. bind_result (vec_get xs (b + i)) (\<lambda>x. f x s)) [0..<n] s = fold_results f (take n (drop b xs)) s"
proof (induction n arbitrary: s)
  case (Suc n)
  have "take (Suc n) (drop b xs) = take n (drop b xs) @ [xs ! (b + n)]"
    using Suc.prems by (simp add: take_Suc_conv_app_nth)
  then show ?case using Suc by (simp add: fold_results_append)
qed simp

lemma uint_diff_sint:
  assumes "sint m \<le> sint (d :: 'a::len word)"
  shows "uint (d - m) = sint d - sint m"
proof -
  have "d - m = word_of_int (sint d - sint m)" by simp
  then have "uint (d - m) = take_bit LENGTH('a) (sint d - sint m)" by (metis uint_word_of_int_eq)
  moreover have "sint d - sint m < 2 ^ LENGTH('a)"
  proof -
    have "(2 :: int) ^ LENGTH('a) = 2 * 2 ^ (LENGTH('a) - Suc 0)"
      by (metis Suc_pred len_gt_0 power_Suc)
    then show ?thesis using sint_greater_eq [of m] sint_less [of d] by linarith
  qed
  ultimately show ?thesis using assms by (simp add: take_bit_int_eq_self)
qed

lemma from_u64_ucast: "int_type TYPE('a::len) \<Longrightarrow> from_u64 v = (ucast v :: 'a word)"
proof -
  assume ty: "int_type TYPE('a)"
  have "from_u64 (of_bits (bits 64 v)) = (of_bits (bits 64 v) :: 'a word)"
    using ty by (intro from_u64_of_bits) simp_all
  moreover have "of_bits (bits 64 v) = (ucast v :: 'a word)"
    using bit_imp_le_length [of v] by (intro bit_word_eqI) (auto simp: stream_simps bit_simps)
  ultimately show ?thesis by (simp add: of_bits_bits take_bit_word_eq_self)
qed

definition mini_of :: "nat \<Rightarrow> 'a::len word \<Rightarrow> 'a word list \<Rightarrow> mini_block" where
  "mini_of k m ds =
     (if ds = [] then 0
      else num_required_bits (subtract_u64 TYPE('a) (fold (\<lambda>x a. cmp_max a x) (map scast ds) i64_MIN) (scast m)),
      map (\<lambda>d. ucast (d - m)) ds @ replicate (k - length ds) 0)"

fun minis_of :: "nat \<Rightarrow> nat \<Rightarrow> 'a::len word \<Rightarrow> 'a word list \<Rightarrow> mini_block list" where
  "minis_of 0 k m ds = []"
| "minis_of (Suc r) k m ds = mini_of k m (take k ds) # minis_of r k m (drop k ds)"

lemma pack_0 [simp]: "pack 0 us = []"
  by (simp add: pack_def)

lemma minis_of_Nil: "minis_of r k m [] = replicate r (0, replicate k 0)"
  by (induction r) (simp_all add: mini_of_def)

lemma mini_bits_empty [simp]: "mini_bits (replicate r (0, us)) = []"
  by (induction r) simp_all

lemma subtract_u64_scast:
  "LENGTH('a::len) \<le> 64 \<Longrightarrow> subtract_u64 TYPE('a) (scast (d :: 'a word)) (scast (m :: 'a word)) = ucast (d - m)"
  by (simp add: subtract_u64_def sint_scast_i64)

lemma delta_subtract_scast:
  "LENGTH('a::len) \<le> 64 \<Longrightarrow> delta_subtract TYPE('a) (scast (d :: 'a word)) (scast (m :: 'a word)) = scast (d - m)"
  by (simp add: delta_subtract_def sint_scast_i64)

lemma uint_ucast_u64:
  assumes "LENGTH('a::len) \<le> 64"
  shows "uint (ucast (x :: 'a word) :: u64) = uint x"
proof -
  have "uint x < 2 ^ LENGTH('a)" by simp
  also have "\<dots> \<le> 2 ^ 64" using assms by (intro power_increasing) auto
  finally show ?thesis by (simp add: unsigned_ucast_eq take_bit_int_eq_self)
qed

lemma mini_of_fits:
  fixes m :: "'a::len word"
  assumes L: "LENGTH('a) \<le> 64" and m: "\<forall>d \<in> set ds. sint m \<le> sint d"
  shows "mini_fits (mini_of k m ds)"
proof (cases "ds = []")
  case False
  let ?M = "fold (\<lambda>x a. cmp_max a x) (map scast ds) i64_MIN"
  have M: "?M \<in> set (map scast ds)" "\<forall>x \<in> set (map scast ds :: u64 list). sint x \<le> sint ?M"
    using greatest_delta [of "map scast ds"] False by simp_all
  then obtain M where M': "?M = scast M" "M \<in> set ds" by auto
  have "take_bit (num_required_bits (ucast (M - m))) (ucast (d - m)) = (ucast (d - m) :: u64)"
    if d: "d \<in> set ds" for d
  proof (rule take_bit_num_required_bits_le)
    have "sint d \<le> sint M" using d M(2) M'(1) by (auto simp: sint_scast_i64 [OF L])
    then have "uint (d - m) \<le> uint (M - m)" using d m M'(2) by (simp add: uint_diff_sint)
    then show "ucast (d - m) \<le> (ucast (M - m) :: u64)"
      by (simp add: word_le_def uint_ucast_u64 [OF L])
  qed
  then show ?thesis using False by (auto simp: mini_of_def M'(1) subtract_u64_scast [OF L])
qed (auto simp: mini_of_def)

lemma length_snd_mini_of [simp]: "length ds \<le> k \<Longrightarrow> length (snd (mini_of k m ds)) = k"
  by (simp add: mini_of_def)

lemma minis_of_ok:
  fixes m :: "'a::len word"
  assumes L: "LENGTH('a) \<le> 64"
  shows "\<forall>d \<in> set ds. sint m \<le> sint d \<Longrightarrow> block_ok r k (m, minis_of r k m ds)"
proof (induction r arbitrary: ds)
  case (Suc r)
  have "block_ok r k (m, minis_of r k m (drop k ds))" using Suc by (auto dest: in_set_dropD)
  moreover have "mini_fits (mini_of k m (take k ds))"
    using mini_of_fits [OF L, of "take k ds" m k] Suc.prems by (auto dest: in_set_takeD)
  ultimately show ?case by simp
qed simp

lemma minis_of_deltas:
  assumes ty: "int_type TYPE('a::len)"
  shows "length ds \<le> r * k \<Longrightarrow>
    mini_deltas (m :: 'a word) (minis_of r k m ds) = ds @ replicate (r * k - length ds) m"
proof (induction r arbitrary: ds)
  case (Suc r)
  have *: "from_u64 (ucast (d - m) :: u64) + m = d" for d
  proof -
    have "ucast (ucast (d - m) :: u64) = d - m"
      using int_type_D(2) [OF ty] by (intro bit_word_eqI) (auto simp: bit_simps)
    then show ?thesis by (simp add: from_u64_ucast [OF ty])
  qed
  have "from_u64 0 = (0 :: 'a word)" by (simp add: from_u64_ucast [OF ty])
  then have "mini_deltas m (minis_of (Suc r) k m ds) =
      take k ds @ replicate (k - length ds) m @ mini_deltas m (minis_of r k m (drop k ds))"
    by (cases "mini_of k m (take k ds)") (auto simp: mini_of_def comp_def * min_def)
  also have "\<dots> = ds @ replicate (Suc r * k - length ds) m"
    using Suc by (cases "length ds \<le> k") (auto simp: replicate_add [symmetric] algebra_simps)
  finally show ?case .
qed simp

section \<open>Flushing a block\<close>

lemma write_zeros:
  "written w (A @ ws @ replicate r 0) D \<Longrightarrow> length ws = i \<Longrightarrow>
    \<exists>w'. fold_results (\<lambda>j. write_at (length A + j) 0) [i..<i + r] w = Inr w' \<and> written w' (A @ ws @ replicate r 0) D"
proof (induction r arbitrary: i ws w)
  case (Suc r)
  obtain w1 where "write_at (length A + i) 0 w = Inr w1" "written w1 (A @ (ws @ [0]) @ replicate r 0) D"
    using written_write_at [OF Suc.prems(1), of "length A + i" 0] Suc.prems(2) by (auto simp: list_update_append)
  then show ?case
    using Suc.IH [of w1 "ws @ [0]" "Suc i"] Suc.prems(2) by (auto simp: upt_conv_Cons simp del: upt_Suc)
qed auto

lemma flush_one_mini:
  fixes m :: "'a::len word"
  assumes L: "LENGTH('a) \<le> 64" and m: "\<forall>d \<in> set ds. sint m \<le> sint d" and w: "written w (A @ ws @ 0 # zs) D"
    and ds: "ds \<noteq> []" "length ds \<le> k" "take (length ds) (drop b deltas) = map scast ds" "b + length ds \<le> length deltas"
    and bw: "bw = fst (mini_of k m ds)"
  obtains w' where
    "fold_results (\<lambda>j a. bind_result (vec_get deltas (b + j)) (\<lambda>d. Inr (cmp_max a d))) [0..<length ds] i64_MIN =
       Inr (fold (\<lambda>x a. cmp_max a x) (map scast ds) i64_MIN)"
    "bind_result (write_at (length A + length ws) (of_nat bw) w) (\<lambda>w.
       bind_result (fold_results (\<lambda>j w. bind_result (vec_get deltas (b + j))
         (\<lambda>d. put_value (subtract_u64 TYPE('a) d (scast m)) bw w)) [0..<length ds] w)
       (fold_results (\<lambda>_. put_value 0 bw) [length ds..<k])) = Inr w'"
    "written w' (A @ (ws @ [of_nat bw]) @ zs) (D @ mini_bits [mini_of k m ds])"
proof -
  let ?f = "\<lambda>d. ucast (d - m) :: u64"
  have fits: "bw \<le> 64" "\<forall>d \<in> set ds. take_bit bw (?f d) = ?f d"
    using mini_of_fits [OF L m, of k] bw by (auto simp: mini_of_def split: if_splits)
  obtain w1 where w1: "write_at (length A + length ws) (of_nat bw) w = Inr w1"
      "written w1 (A @ (ws @ [of_nat bw]) @ zs) D"
    using written_write_at [OF w, of "length A + length ws" "of_nat bw"] by (auto simp: list_update_append)
  obtain w2 where w2: "fold_results (\<lambda>d. put_value (?f d) bw) ds w1 = Inr w2"
      "written w2 (A @ (ws @ [of_nat bw]) @ zs) (D @ pack bw (map ?f ds))"
    using written_puts [OF w1(2) fits] by blast
  obtain w3 where w3: "fold_results (\<lambda>_. put_value 0 bw) [length ds..<k] w2 = Inr w3"
      "written w3 (A @ (ws @ [of_nat bw]) @ zs) ((D @ pack bw (map ?f ds)) @ pack bw (map (\<lambda>_. 0) [length ds..<k]))"
    using written_puts [OF w2(2) fits(1), of "[length ds..<k]" "\<lambda>_. 0"] by auto
  have "mini_of k m ds = (bw, map ?f ds @ replicate (k - length ds) 0)" by (simp add: bw mini_of_def)
  then have "mini_bits [mini_of k m ds] = pack bw (map ?f ds) @ pack bw (map (\<lambda>_. 0) [length ds..<k])"
    by (simp add: map_replicate_const pack_append)
  moreover have "fold_results (\<lambda>j w. bind_result (vec_get deltas (b + j))
      (\<lambda>d. put_value (subtract_u64 TYPE('a) d (scast m)) bw w)) [0..<length ds] w1 = Inr w2"
    using w2(1) fold_results_slice [OF ds(4), of "\<lambda>d w. put_value (subtract_u64 TYPE('a) d (scast m)) bw w"] ds(3)
    by (simp add: fold_results_map subtract_u64_scast [OF L])
  ultimately show thesis
    using that [of w3] w1 w3 fold_results_slice [OF ds(4), of "\<lambda>x a. Inr (cmp_max a x)"] ds(3) by simp
qed

lemma flush_mini_blocks_written:
  fixes m :: "'a::len word"
  assumes L: "LENGTH('a) \<le> 64" and k: "0 < k"
  shows "\<forall>d \<in> set ds. sint m \<le> sint d \<Longrightarrow> written w (A @ ws @ replicate r 0) D \<Longrightarrow> length ws = i \<Longrightarrow>
    length ds \<le> r * k \<Longrightarrow> take (length ds) (drop (i * k) deltas) = map scast ds \<Longrightarrow>
    (i + r) * k \<le> length deltas \<Longrightarrow>
    \<exists>w'. flush_mini_blocks TYPE('a) deltas k (i + r) (scast m) (length A) [i..<i + r] (length ds) w = Inr (0, w')
      \<and> written w' (A @ ws @ map (of_nat \<circ> fst) (minis_of r k m ds)) (D @ mini_bits (minis_of r k m ds))"
proof (induction r arbitrary: ds w ws i D)
  case (Suc r)
  have upt: "[i..<i + Suc r] = i # [Suc i..<Suc i + r]" by (simp add: upt_conv_Cons del: upt_Suc)
  show ?case
  proof (cases "ds = []")
    case True
    obtain w' where "fold_results (\<lambda>j. write_at (length A + j) 0) [i..<i + Suc r] w = Inr w'"
        "written w' (A @ ws @ replicate (Suc r) 0) D" using write_zeros [OF Suc.prems(2,3)] by blast
    then show ?thesis
      using True unfolding upt minis_of_Nil by (simp add: mini_of_def comp_def minis_of_Nil upt_conv_Cons del: upt_Suc)
  next
    case False
    let ?xs = "take k ds" and ?ys = "drop k ds"
    let ?bw = "fst (mini_of k m ?xs)"
    have n: "length ?xs = min k (length ds)" "min k (length ds) \<noteq> 0" "length ds - min k (length ds) = length ?ys" using False k by (auto simp: min_def)
    have xs: "\<forall>d \<in> set ?xs. sint m \<le> sint d" "written w (A @ ws @ 0 # replicate r 0) D" "?xs \<noteq> []" "length ?xs \<le> k"
        "take (length ?xs) (drop (i * k) deltas) = map scast ?xs" "i * k + length ?xs \<le> length deltas"
      using Suc.prems(1,2,4,6) False k arg_cong [OF Suc.prems(5), of "take (length ?xs)"]
      by (auto dest: in_set_takeD simp: take_map min_def algebra_simps)
    obtain w' where w':
      "fold_results (\<lambda>j a. bind_result (vec_get deltas (i * k + j)) (\<lambda>d. Inr (cmp_max a d))) [0..<length ?xs] i64_MIN =
         Inr (fold (\<lambda>x a. cmp_max a x) (map scast ?xs) i64_MIN)"
      "bind_result (write_at (length A + length ws) (of_nat ?bw) w) (\<lambda>w.
         bind_result (fold_results (\<lambda>j w. bind_result (vec_get deltas (i * k + j))
           (\<lambda>d. put_value (subtract_u64 TYPE('a) d (scast m)) ?bw w)) [0..<length ?xs] w)
         (fold_results (\<lambda>_. put_value 0 ?bw) [length ?xs..<k])) = Inr w'"
      "written w' (A @ (ws @ [of_nat ?bw]) @ replicate r 0) (D @ mini_bits [mini_of k m ?xs])"
      using flush_one_mini [OF L xs refl] .
    have bw: "num_required_bits (subtract_u64 TYPE('a) (fold (\<lambda>x a. cmp_max a x) (map scast ?xs) i64_MIN) (scast m)) = ?bw"
      using xs(3) by (simp add: mini_of_def)
    have step: "flush_mini_blocks TYPE('a) deltas k (i + Suc r) (scast m) (length A) [i..<i + Suc r] (length ds) w =
        flush_mini_blocks TYPE('a) deltas k (Suc i + r) (scast m) (length A) [Suc i..<Suc i + r] (length ?ys) w'"
      using w'(1,2) n Suc.prems(3) bw unfolding upt flush_mini_blocks.simps Let_def
      by (auto simp: bind_result_eq_Inr simp del: upt_Suc)
    have ys: "\<forall>d \<in> set ?ys. sint m \<le> sint d" "length ?ys \<le> r * k" "(Suc i + r) * k \<le> length deltas"
        "length (ws @ [of_nat ?bw]) = Suc i"
      using Suc.prems(1,3,4,6) by (auto dest: in_set_dropD)
    have rest: "take (length ?ys) (drop (Suc i * k) deltas) = map scast ?ys"
      using arg_cong [OF Suc.prems(5), of "drop k"] by (simp add: drop_map drop_take add.commute)
    have "mini_bits (minis_of (Suc r) k m ds) = mini_bits [mini_of k m ?xs] @ mini_bits (minis_of r k m ?ys)"
      by (cases "mini_of k m ?xs") simp
    then show ?thesis
      unfolding step using Suc.IH [OF ys(1) w'(3) ys(4,2) rest ys(3)] by simp
  qed
qed auto

lemma flush_block_written:
  fixes ds :: "'a::len word list"
  assumes L: "LENGTH('a) \<le> 64" and k: "0 < k" "8 dvd k" and sizes: "de_mini_size e = k" "de_num_mini e = r"
    and ds: "ds \<noteq> []" "de_in_block e = length ds" "length ds \<le> r * k"
      "take (length ds) (de_deltas e) = map scast ds" "length (de_deltas e) = r * k"
    and w: "written (de_writer e) B D" "8 dvd length D"
  obtains m :: "'a word" and w' B' D' where
    "flush_block_values TYPE('a) e = Inr (e\<lparr>de_writer := w', de_in_block := 0\<rparr>)" "written w' B' D'" "8 dvd length D'"
    "B' @ bytes_of_bits D' = (B @ bytes_of_bits D) @ block_bytes (m, minis_of r k m ds)"
    "\<forall>d \<in> set ds. sint m \<le> sint d"
proof -
  let ?x = "fold (\<lambda>x a. cmp_min a x) (map scast ds) i64_MAX"
  have x: "?x \<in> set (map scast ds)" "\<forall>x \<in> set (map scast ds :: u64 list). sint ?x \<le> sint x"
    using least_delta [of "map scast ds"] ds(1) by simp_all
  then obtain m :: "'a word" where m: "?x = scast m" by auto
  then have le: "\<forall>d \<in> set ds. sint m \<le> sint d" using x(2) by (auto simp: sint_scast_i64 [OF L])
  let ?v = "vlq_bytes (zigzag_encode (scast m))" and ?ms = "minis_of r k m ds"
  let ?A = "B @ bytes_of_bits D @ ?v"
  have fold: "fold_results (\<lambda>i a. bind_result (vec_get (de_deltas e) i) (\<lambda>d. Inr (cmp_min a d))) [0..<length ds] i64_MAX
      = Inr (scast m)"
    using fold_results_slice [of 0 "length ds" "de_deltas e" "\<lambda>x a. Inr (cmp_min a x)" i64_MAX] ds m by simp
  have A: "written (append_bytes ?v (de_writer e)) ?A []" by (rule written_append [OF w])
  have skip: "bw_skip r (put_zigzag_vlq_int (scast m) (de_writer e)) =
      (length ?A, append_bytes (replicate r 0) (append_bytes ?v (de_writer e)))"
    using written_flush [OF A] by (simp add: bw_skip_append put_zigzag_vlq_int_encode put_vlq_int_append bytes_of_bits_def)
  have "written (append_bytes (replicate r 0) (append_bytes ?v (de_writer e))) (?A @ [] @ replicate r 0) []"
    using written_append [OF A] by (simp add: bytes_of_bits_def)
  from flush_mini_blocks_written [OF L k(1) le this, of 0 "de_deltas e"] ds obtain w' where w':
      "flush_mini_blocks TYPE('a) (de_deltas e) k r (scast m) (length ?A) [0..<r] (length ds)
        (append_bytes (replicate r 0) (append_bytes ?v (de_writer e))) = Inr (0, w')"
      "written w' (?A @ map (of_nat \<circ> fst) ?ms) (mini_bits ?ms)" by auto
  have "flush_block_values TYPE('a) e = Inr (e\<lparr>de_writer := w', de_in_block := 0\<rparr>)"
    using ds(1,2) fold skip w'(1) sizes by (simp add: flush_block_values_def)
  moreover have "8 dvd length (mini_bits ?ms)"
    using minis_of_ok [OF L le, of r k] k(2) by (intro mini_bits_aligned) auto
  ultimately show thesis using that w'(2) le by fastforce
qed

section \<open>Putting values\<close>

definition delta_inv :: "delta_encoder \<Rightarrow> 'a::len word list \<Rightarrow> bool" where
  "delta_inv e vs \<longleftrightarrow> (\<exists>bs B D ds :: 'a word list.
     de_mini_size e = LENGTH('a) \<and> de_num_mini e = 4 \<and> de_block_size e = 4 * LENGTH('a)
     \<and> length (de_deltas e) = 4 * LENGTH('a) \<and> de_header e = bit_writer_new 0
     \<and> written (de_writer e) B D \<and> 8 dvd length D \<and> B @ bytes_of_bits D = concat (map block_bytes bs)
     \<and> (\<forall>b \<in> set bs. block_ok 4 LENGTH('a) (b :: 'a delta_block))
     \<and> de_in_block e = length ds \<and> length ds < 4 * LENGTH('a) \<and> take (length ds) (de_deltas e) = map scast ds
     \<and> (case vs of [] \<Rightarrow> bs = [] \<and> ds = []
        | v # vs' \<Rightarrow> de_first e = scast v \<and> de_current e = scast (last vs)
            \<and> running v (concat (map block_deltas bs) @ ds) = vs'))"

lemma delta_inv_new:
  "LENGTH('a::len) = 32 \<or> LENGTH('a) = 64 \<Longrightarrow>
    \<exists>e. delta_encoder_new TYPE('a) = Inr e \<and> delta_inv e ([] :: 'a word list)"
  by (auto simp: delta_encoder_new_def DEFAULT_NUM_MINI_BLOCKS_def Let_def delta_inv_def written_def
      bit_writer_new_def writer_ok_def writer_bits_def bytes_of_bits_def)

lemma last_running: "last (p # running p xs) = last (v # vs) \<Longrightarrow> running p (xs @ [d]) = running p xs @ [d + last (v # vs)]"
  by (simp only: running_append running.simps)

lemma delta_put_value_inv:
  fixes v :: "'a::len word"
  assumes L: "LENGTH('a) = 32 \<or> LENGTH('a) = 64" and e: "delta_inv e vs" "vs \<noteq> []"
  shows "\<exists>e'. delta_put_value v e = Inr e' \<and> delta_inv e' (vs @ [v]) \<and> de_total e' = de_total e"
proof -
  obtain u us where vs: "vs = u # us" using e(2) by (cases vs) auto
  obtain bs B D and ds :: "'a word list" where
      i: "de_mini_size e = LENGTH('a)" "de_num_mini e = 4" "de_block_size e = 4 * LENGTH('a)"
        "length (de_deltas e) = 4 * LENGTH('a)" "de_header e = bit_writer_new 0"
    and w: "written (de_writer e) B D" "8 dvd length D" "B @ bytes_of_bits D = concat (map block_bytes bs)"
        "\<forall>b \<in> set bs. block_ok 4 LENGTH('a) (b :: 'a delta_block)"
    and ds: "de_in_block e = length ds" "length ds < 4 * LENGTH('a)" "take (length ds) (de_deltas e) = map scast ds"
        "de_first e = scast u" "de_current e = scast (last vs)"
        "running u (concat (map block_deltas bs) @ ds) = us"
    using e(1) unfolding delta_inv_def vs by auto
  have L64: "LENGTH('a) \<le> 64" using L by auto
  let ?d = "v - last vs" and ?deltas = "(de_deltas e)[length ds := scast (v - last vs)]"
  let ?e = "e\<lparr>de_deltas := ?deltas, de_current := scast v, de_in_block := length ds + 1\<rparr>"
  have put: "delta_put_value v e =
      (if length ds + 1 = 4 * LENGTH('a) then flush_block_values TYPE('a) ?e else Inr ?e)"
    using ds(1,2) i(3,4) by (simp add: delta_put_value_def ds(5) delta_subtract_scast [OF L64])
  have run: "running u (concat (map block_deltas bs) @ ds @ [?d]) = us @ [v]"
    using last_running [of u "concat (map block_deltas bs) @ ds" u us ?d] ds(6) vs by simp
  have deltas: "take (length (ds @ [?d])) ?deltas = map scast (ds @ [?d])"
    using ds(2,3) i(4) by (simp add: take_Suc_conv_app_nth)
  show ?thesis
  proof (cases "length ds + 1 = 4 * LENGTH('a)")
    case False
    have "delta_inv ?e (vs @ [v])"
      unfolding delta_inv_def vs using i w ds(1,2,4) run deltas False
      by (intro exI [of _ bs] exI [of _ B] exI [of _ D] exI [of _ "ds @ [?d]"]) (simp add: vs)
    then show ?thesis using put False by auto
  next
    case True
    have L8: "0 < LENGTH('a)" "8 dvd LENGTH('a)" "int_type TYPE('a)" using L by (auto simp: int_type_def)
    have pre: "de_mini_size ?e = LENGTH('a)" "de_num_mini ?e = 4" "ds @ [?d] \<noteq> []" "de_in_block ?e = length (ds @ [?d])"
        "length (ds @ [?d]) \<le> 4 * LENGTH('a)"
      and e': "take (length (ds @ [?d])) (de_deltas ?e) = map scast (ds @ [?d])" "length (de_deltas ?e) = 4 * LENGTH('a)"
        "written (de_writer ?e) B D"
      using i w(1) True deltas by simp_all
    obtain m :: "'a word" and w' B' D' where fl:
        "flush_block_values TYPE('a) ?e = Inr (?e\<lparr>de_writer := w', de_in_block := 0\<rparr>)"
        "written w' B' D'" "8 dvd length D'"
        "B' @ bytes_of_bits D' = (B @ bytes_of_bits D) @ block_bytes (m, minis_of 4 LENGTH('a) m (ds @ [?d]))"
        "\<forall>d \<in> set (ds @ [?d]). sint m \<le> sint d"
      using flush_block_written [OF L64 L8(1,2) pre e' w(2)] .
    let ?b = "(m, minis_of 4 LENGTH('a) m (ds @ [?d]))"
    have "block_ok 4 LENGTH('a) ?b" using minis_of_ok [OF L64 fl(5)] .
    moreover have "block_deltas ?b = ds @ [?d]"
      using minis_of_deltas [OF L8(3), of "ds @ [?d]" 4 "LENGTH('a)"] True by simp
    ultimately have "delta_inv (?e\<lparr>de_writer := w', de_in_block := 0\<rparr>) (vs @ [v])"
      unfolding delta_inv_def vs using i w(3,4) ds(4) run fl(2-4) L8(1)
      by (intro exI [of _ "bs @ [?b]"] exI [of _ B'] exI [of _ D'] exI [of _ "[]"]) (auto simp: vs)
    then show ?thesis using put True fl(1) by auto
  qed
qed

lemma delta_put_values_inv:
  fixes us :: "'a::len word list"
  assumes L: "LENGTH('a) = 32 \<or> LENGTH('a) = 64"
  shows "delta_inv e vs \<Longrightarrow> vs \<noteq> [] \<Longrightarrow>
    \<exists>e'. fold_results delta_put_value us e = Inr e' \<and> delta_inv e' (vs @ us) \<and> de_total e' = de_total e"
proof (induction us arbitrary: e vs)
  case (Cons u us)
  obtain e1 where e1: "delta_put_value u e = Inr e1" "delta_inv e1 (vs @ [u])" "de_total e1 = de_total e"
    using delta_put_value_inv [OF L Cons.prems] by blast
  from Cons.IH [OF this(2)] show ?case using e1(1,3) by simp
qed simp

lemma delta_inv_total: "delta_inv (e\<lparr>de_total := t\<rparr>) vs \<longleftrightarrow> delta_inv e vs"
  by (cases vs) (simp_all add: delta_inv_def)

lemma delta_put_inv:
  fixes us :: "'a::len word list"
  assumes L: "LENGTH('a) = 32 \<or> LENGTH('a) = 64" and e: "delta_inv e vs" "de_total e = length vs"
  shows "\<exists>e'. delta_put us e = Inr e' \<and> delta_inv e' (vs @ us) \<and> de_total e' = length (vs @ us)"
proof (cases us)
  case (Cons u us')
  show ?thesis
  proof (cases "vs = []")
    case True
    let ?e = "e\<lparr>de_first := scast u, de_current := scast u, de_total := length us\<rparr>"
    obtain B D where "written (de_writer e) B D" "8 dvd length D" "B @ bytes_of_bits D = []" "de_in_block e = 0"
      using e(1) unfolding True delta_inv_def by auto
    then have "delta_inv ?e [u]"
      using e(1) unfolding True delta_inv_def
      by (intro exI [of _ "[]"] exI [of _ B] exI [of _ D]) auto
    then show ?thesis
      using delta_put_values_inv [OF L, of ?e "[u]" us'] e(2) True Cons by (auto simp: delta_put_def)
  next
    case False
    then show ?thesis
      using delta_put_values_inv [OF L, of "e\<lparr>de_total := de_total e + length us\<rparr>" vs us] e Cons
      by (auto simp: delta_put_def delta_inv_total)
  qed
qed (use e in \<open>auto simp: delta_put_def\<close>)

lemma delta_puts_inv:
  fixes vss :: "'a::len word list list"
  assumes L: "LENGTH('a) = 32 \<or> LENGTH('a) = 64"
  shows "delta_inv e vs \<Longrightarrow> de_total e = length vs \<Longrightarrow>
    \<exists>e'. fold_results delta_put vss e = Inr e' \<and> delta_inv e' (vs @ concat vss) \<and> de_total e' = length (vs @ concat vss)"
proof (induction vss arbitrary: e vs)
  case (Cons us vss)
  obtain e1 where e1: "delta_put us e = Inr e1" "delta_inv e1 (vs @ us)" "de_total e1 = length (vs @ us)"
    using delta_put_inv [OF L Cons.prems] by blast
  from Cons.IH [OF this(2,3)] show ?case using e1(1) by simp
qed simp

section \<open>Finishing a page\<close>

lemma length_block_deltas: "block_ok n per b \<Longrightarrow> length (block_deltas b) = n * per"
proof (cases b)
  case (Pair m ms)
  have "list_all (\<lambda>x. length (snd x) = per) ms \<Longrightarrow> length (mini_deltas m ms) = length ms * per" for ms
    by (induction ms) auto
  then show "block_ok n per b \<Longrightarrow> ?thesis" using Pair by auto
qed

lemma length_blocks_deltas:
  "\<forall>b \<in> set bs. block_ok n per b \<Longrightarrow> length (concat (map block_deltas bs)) = length bs * (n * per)"
  by (induction bs) (auto simp: length_block_deltas)

lemma page_header_written:
  "bw_buffer (bw_flush (de_header (write_page_header (e\<lparr>de_header := bit_writer_new 0, de_first := scast v\<rparr>)))) =
     page_header (de_block_size e) (de_num_mini e) (de_total e) v"
  by (simp add: write_page_header_def put_zigzag_vlq_int_encode put_vlq_int_append append_bytes_append
      page_header_def bit_writer_new_def bw_flush_def ceil_8)

lemma trailing_full:
  "list_all (\<lambda>x. length (snd x) = per) ms \<Longrightarrow> 0 < per \<Longrightarrow>
    trailing 0 (length ms * per + n) ms bs \<longleftrightarrow> trailing 0 n [] bs"
proof (induction ms)
  case (Cons x ms)
  have "length (x # ms) * per + n - length (snd x) = length ms * per + n" using Cons.prems(1) by simp
  then show ?case using Cons by simp
qed simp

lemma trailing_blocks:
  "\<forall>b \<in> set bs. block_ok c per b \<Longrightarrow> 0 < c \<Longrightarrow> 0 < per \<Longrightarrow>
    trailing 0 (length bs * (c * per) + n) [] (map snd bs @ cs) \<longleftrightarrow> trailing 0 n [] cs"
proof (induction bs)
  case (Cons b bs)
  have "length (b # bs) * (c * per) + n = length (snd b) * per + (length bs * (c * per) + n)"
    using Cons.prems(1) by (cases b) auto
  then show ?case
    using Cons trailing_full [of per "snd b" "length bs * (c * per) + n" "map snd bs @ cs"]
    by (cases b) (auto simp: add.assoc)
qed simp

lemma trailing_minis: "0 < k \<Longrightarrow> length ds \<le> r * k \<Longrightarrow> trailing 0 (length ds) (minis_of r k m ds) []"
proof (induction r arbitrary: ds)
  case (Suc r)
  have "trailing 0 (length ds - k) (minis_of r k m (drop k ds)) []"
    using Suc.IH [of "drop k ds"] Suc.prems by simp
  moreover have "length (snd (mini_of k m (take k ds))) = k" by simp
  ultimately show ?case by (simp add: mini_of_def)
qed simp

lemma flush_pending:
  fixes vs :: "'a::len word list"
  assumes L: "LENGTH('a) = 32 \<or> LENGTH('a) = 64" and e: "delta_inv e (v # vs)"
  obtains bs w' ds pad where
    "flush_block_values TYPE('a) e = Inr (e\<lparr>de_writer := w', de_in_block := 0\<rparr>)"
    "bw_buffer (bw_flush w') = concat (map block_bytes bs)" "\<forall>b \<in> set bs. block_ok 4 LENGTH('a) (b :: 'a delta_block)"
    "concat (map block_deltas bs) = ds @ pad" "running v ds = vs" "4 * LENGTH('a) dvd length vs \<longrightarrow> pad = []"
    "trailing 0 (length ds) [] (map snd bs)"
proof -
  obtain bs B D and ds :: "'a word list" where
      i: "de_mini_size e = LENGTH('a)" "de_num_mini e = 4" "length (de_deltas e) = 4 * LENGTH('a)"
    and w: "written (de_writer e) B D" "8 dvd length D" "B @ bytes_of_bits D = concat (map block_bytes bs)"
        "\<forall>b \<in> set bs. block_ok 4 LENGTH('a) (b :: 'a delta_block)"
    and ds: "de_in_block e = length ds" "length ds < 4 * LENGTH('a)" "take (length ds) (de_deltas e) = map scast ds"
        "running v (concat (map block_deltas bs) @ ds) = vs"
    using e unfolding delta_inv_def by auto
  show thesis
  proof (cases "ds = []")
    case True
    have "flush_block_values TYPE('a) e = Inr (e\<lparr>de_writer := de_writer e, de_in_block := 0\<rparr>)"
      using True ds(1) by (simp add: flush_block_values_def)
    then show thesis
      using that [of "de_writer e" bs "concat (map block_deltas bs)" "[]"] written_flush [OF w(1,2)] w(3,4) ds(4) True
        trailing_blocks [OF w(4), of 0 "[]"] length_blocks_deltas [OF w(4)] by simp
  next
    case False
    have L': "LENGTH('a) \<le> 64" "0 < LENGTH('a)" "8 dvd LENGTH('a)" "int_type TYPE('a)"
      using L by (auto simp: int_type_def)
    obtain m :: "'a word" and w' B' D' where fl:
        "flush_block_values TYPE('a) e = Inr (e\<lparr>de_writer := w', de_in_block := 0\<rparr>)" "written w' B' D'" "8 dvd length D'"
        "B' @ bytes_of_bits D' = (B @ bytes_of_bits D) @ block_bytes (m, minis_of 4 LENGTH('a) m ds)"
        "\<forall>d \<in> set ds. sint m \<le> sint d"
      using flush_block_written [OF L'(1-3) i(1,2) False ds(1) less_imp_le [OF ds(2)] ds(3) i(3) w(1,2)] .
    let ?b = "(m, minis_of 4 LENGTH('a) m ds)" and ?D = "concat (map block_deltas bs) @ ds"
    have "block_deltas ?b = ds @ replicate (4 * LENGTH('a) - length ds) m"
      using minis_of_deltas [OF L'(4), of ds 4 "LENGTH('a)" m] ds(2) by simp
    then have "concat (map block_deltas (bs @ [?b])) = ?D @ replicate (4 * LENGTH('a) - length ds) m" by simp
    moreover have "length vs = length bs * (4 * LENGTH('a)) + length ds"
      using length_blocks_deltas [OF w(4)] ds(4) by (metis length_append length_running)
    then have "\<not> 4 * LENGTH('a) dvd length vs" "length ?D = length bs * (4 * LENGTH('a)) + length ds"
      using False ds(2) length_blocks_deltas [OF w(4)] by (simp_all add: dvd_add_right_iff nat_dvd_not_less)
    moreover have "trailing 0 (length ds) [] [minis_of 4 LENGTH('a) m ds]"
      using False trailing_minis [of "LENGTH('a)" ds 4 m] ds(2) by simp
    moreover have "\<forall>b \<in> set (bs @ [?b]). block_ok 4 LENGTH('a) b" using w(4) minis_of_ok [OF L'(1) fl(5)] by auto
    ultimately show thesis
      using that [of w' "bs @ [?b]" ?D] fl(1) written_flush [OF fl(2,3)] fl(4) w(3) ds(4)
        trailing_blocks [OF w(4), of "length ds"] by simp
  qed
qed

lemma delta_flush_page:
  fixes vs :: "'a::len word list"
  assumes L: "LENGTH('a) = 32 \<or> LENGTH('a) = 64" and e: "delta_inv e (v # vs)" "de_total e = length (v # vs)"
  obtains bs ds pad e' where
    "delta_flush_buffer TYPE('a) e =
       Inr (page_header (4 * LENGTH('a)) 4 (length (v # vs)) v @ concat (map block_bytes bs), e')"
    "\<forall>b \<in> set bs. block_ok 4 LENGTH('a) (b :: 'a delta_block)"
    "concat (map block_deltas bs) = ds @ pad" "running v ds = vs" "4 * LENGTH('a) dvd length vs \<longrightarrow> pad = []"
    "trailing 0 (length ds) [] (map snd bs)"
    "delta_inv e' ([] :: 'a word list)" "de_total e' = 0"
proof -
  obtain bs w' ds pad where fl:
      "flush_block_values TYPE('a) e = Inr (e\<lparr>de_writer := w', de_in_block := 0\<rparr>)"
      "bw_buffer (bw_flush w') = concat (map block_bytes bs)" "\<forall>b \<in> set bs. block_ok 4 LENGTH('a) (b :: 'a delta_block)"
      "concat (map block_deltas bs) = ds @ pad" "running v ds = vs" "4 * LENGTH('a) dvd length vs \<longrightarrow> pad = []"
    "trailing 0 (length ds) [] (map snd bs)"
    using flush_pending [OF L e(1)] .
  have sizes: "de_mini_size e = LENGTH('a)" "de_num_mini e = 4" "de_block_size e = 4 * LENGTH('a)"
      "length (de_deltas e) = 4 * LENGTH('a)" "de_header e = bit_writer_new 0" "de_first e = scast v"
    using e(1) unfolding delta_inv_def by auto
  then have "bw_buffer (bw_flush (de_header (write_page_header (e\<lparr>de_writer := w', de_in_block := 0\<rparr>)))) =
      page_header (4 * LENGTH('a)) 4 (length (v # vs)) v"
    using page_header_written [of v e] e(2) by (simp add: write_page_header_def)
  moreover have "de_writer (write_page_header (e\<lparr>de_writer := w', de_in_block := 0\<rparr>)) = w'"
    by (simp add: write_page_header_def)
  moreover have "delta_inv (e\<lparr>de_header := bw_clear h, de_writer := bw_clear b, de_total := 0, de_first := 0,
      de_current := 0, de_in_block := 0\<rparr>) ([] :: 'a word list)" for h b
    using sizes by (auto simp: delta_inv_def bw_clear_def bit_writer_new_def written_def writer_ok_def
        writer_bits_def bytes_of_bits_def)
  ultimately show thesis
    using that [of bs _ ds pad] fl by (simp add: delta_flush_buffer_def bw_flush_buffer_def Let_def write_page_header_def)
qed

section \<open>Reading pages back\<close>

lemma delta_page:
  fixes vss :: "'a::len word list list"
  assumes L: "LENGTH('a) = 32 \<or> LENGTH('a) = 64" and vs: "concat vss = v # vs"
  obtains e0 e e' bs ds pad where "delta_encoder_new TYPE('a) = Inr e0" "fold_results delta_put vss e0 = Inr e"
    "delta_flush_buffer TYPE('a) e =
       Inr (page_header (4 * LENGTH('a)) 4 (length (v # vs)) v @ concat (map block_bytes bs), e')"
    "\<forall>b \<in> set bs. block_ok 4 LENGTH('a) (b :: 'a delta_block)"
    "concat (map block_deltas bs) = ds @ pad" "running v ds = vs" "4 * LENGTH('a) dvd length vs \<longrightarrow> pad = []"
    "trailing 0 (length ds) [] (map snd bs)"
    "delta_inv e' ([] :: 'a word list)" "de_total e' = 0"
proof -
  obtain e0 where e0: "delta_encoder_new TYPE('a) = Inr e0" "delta_inv e0 ([] :: 'a word list)"
    using delta_inv_new [OF L] by blast
  then have "de_total e0 = length ([] :: 'a word list)"
    by (auto simp: delta_encoder_new_def Let_def split: if_splits)
  from delta_puts_inv [OF L e0(2) this, of vss] obtain e where e: "fold_results delta_put vss e0 = Inr e"
      "delta_inv e (v # vs)" "de_total e = length (v # vs)" using vs by auto
  obtain bs ds pad e' where
    "delta_flush_buffer TYPE('a) e =
       Inr (page_header (4 * LENGTH('a)) 4 (length (v # vs)) v @ concat (map block_bytes bs), e')"
    "\<forall>b \<in> set bs. block_ok 4 LENGTH('a) (b :: 'a delta_block)"
    "concat (map block_deltas bs) = ds @ pad" "running v ds = vs" "4 * LENGTH('a) dvd length vs \<longrightarrow> pad = []"
    "trailing 0 (length ds) [] (map snd bs)"
    "delta_inv e' ([] :: 'a word list)" "de_total e' = 0"
    using delta_flush_page [OF L e(2,3)] .
  then show thesis using that e0(1) e(1) by blast
qed

lemma take_running: "running p (take n xs) = take n (running p xs)"
  by (induction xs arbitrary: p n) (auto split: nat.split simp: take_Cons)

lemma drop_running:
  "n \<le> length xs \<Longrightarrow>
    (p # running p xs) ! n # running ((p # running p xs) ! n) (drop n xs) = drop n (p # running p xs)"
proof (induction xs arbitrary: p n)
  case (Cons x xs)
  then show ?case by (cases n) auto
qed simp

lemma delta_page_reader:
  fixes v :: "'a::len word"
  assumes L: "LENGTH('a) = 32 \<or> LENGTH('a) = 64" and vs: "vs \<noteq> []" "length (v # vs) < 2 ^ 64"
    and bs: "\<forall>b \<in> set bs. block_ok 4 LENGTH('a) (b :: 'a delta_block)"
    and ds: "concat (map block_deltas bs) = ds @ pad" "running v ds = vs"
    and tr: "trailing 0 (length ds) [] (map snd bs)"
  obtains d where "delta_try_new ((page_header (4 * LENGTH('a)) 4 (length (v # vs)) v @ concat (map block_bytes bs)) @ rest) = Inr d"
    "dd_total d = length (v # vs)" "delta_denotes d (length ds) rest (ds @ pad)" "dd_prev d = v" "dd_remaining d = length vs"
proof -
  have "bs \<noteq> []" using ds vs(1) by auto
  moreover have "int_type TYPE('a)" "0 < LENGTH('a)" "8 dvd LENGTH('a)" "4 * LENGTH('a) < 2 ^ 64"
    using L by (auto simp: int_type_def)
  ultimately show thesis
    using try_new_denotes [of 4 "LENGTH('a)" "length (v # vs)" bs "length ds" v rest] bs vs(2) ds(1) tr that by fastforce
qed

lemma delta_read_denotes:
  fixes d :: "'a::len word delta_decoder"
  assumes L: "LENGTH('a) = 32 \<or> LENGTH('a) = 64" and d: "delta_denotes d (length ds) rest (ds @ pad)" "dd_remaining d = length ds"
    and n: "n \<le> length ds"
  obtains d' where "delta_read (Suc n) d = Inr (dd_prev d # take n (running (dd_prev d) ds), d')"
    "delta_denotes d' (length (drop n ds)) rest (drop n ds @ pad)" "dd_remaining d' = length (drop n ds)"
    "dd_prev d' = (dd_prev d # running (dd_prev d) ds) ! n"
proof -
  have ty: "int_type TYPE('a)" using L by (auto simp: int_type_def)
  have "n \<le> dd_remaining d" "n \<le> length (ds @ pad)" using n d(2) by auto
  from delta_loop_denotes [OF ty d(1) this] n obtain d' where d':
      "delta_loop n d = Inr (take n (running (dd_prev d) ds), d')" "delta_denotes d' (length (drop n ds)) rest (drop n ds @ pad)"
      "dd_prev d' = last (dd_prev d # take n (running (dd_prev d) ds))" "dd_remaining d' = dd_remaining d - n"
    by (auto simp: take_running)
  have "last (dd_prev d # take n (running (dd_prev d) ds)) = last (take (Suc n) (dd_prev d # running (dd_prev d) ds))"
    by simp
  also have "\<dots> = (dd_prev d # running (dd_prev d) ds) ! n"
    using n by (subst last_conv_nth) (auto simp: min_def nth_Cons split: nat.splits)
  finally show thesis
    using that [of d'] d' d(2) by (simp add: delta_read_def)
qed

lemma single_value_page:
  fixes v :: "'a::len word"
  assumes L: "LENGTH('a) = 32 \<or> LENGTH('a) = 64"
  shows "(delta_try_new (page_header (4 * LENGTH('a)) 4 (length [v]) v) :: 'a word delta_decoder result) =
    Inl (Panic ''remaining: 0, need: 1'')"
proof -
  have "read_unsigned_vlq (vlq_bytes x) = Inr (x, [])" for x
    using read_unsigned_vlq_bytes [of x "[]"] by simp
  moreover have "read_unsigned_vlq [] = Inl (Panic ''remaining: 0, need: 1'')"
    by (simp add: read_unsigned_vlq_def read_unsigned_vlq_loop.simps [of 0 0 "[]"])
  ultimately show ?thesis
    using L by (auto simp: delta_try_new_def page_header_def zigzag_decode_encode from_i64_scast load_next_block_def)
qed

lemma delta_denotes_end:
  assumes "delta_denotes d n rest []"
  shows "delta_try_into_cursor d = Inl (Panic ''index out of bounds'')"
proof -
  obtain ms where ms: "map fst ms = drop (dd_mini_idx d) (dd_widths d)" "mini_deltas (dd_min d) ms = []"
      "current_ok (dd_per_mini d) (dd_value_idx d) (dd_unpack d) ms" "dd_value_idx d < dd_per_mini d"
    using assms unfolding delta_denotes_def by auto
  have "ms = []" using ms(2-4) by (cases ms) (auto simp: mini_deltas_def)
  then show ?thesis using ms(1) by (simp add: delta_try_into_cursor_def vec_get_def)
qed

lemma trailing_done: "trailing i 0 ms bs \<Longrightarrow> i = 0 \<Longrightarrow> bs = [] \<and> mini_bits ms = []"
  by (induction i "0 :: nat" ms bs rule: trailing.induct) (auto simp: mini_bits_def)

lemma skip_packed:
  assumes "drop p (stream c) = D @ stream rest" "p < 8"
  shows "skip_bytes_unchecked (ceil (length D) 8) c = Inr rest"
proof -
  have len: "8 * length c - p = length D + 8 * length rest" using arg_cong [OF assms(1), of length] by simp
  show ?thesis
  proof (cases "length c = length rest")
    case True
    then have "length D = 0" "p = 0 \<or> length c = 0" using len by arith+
    then show ?thesis using assms(1) True by (auto simp: skip_bytes_unchecked_def ceil_def stream_inject)
  next
    case False
    then have k: "length D + p = 8 * (length c - length rest)" "length rest < length c" using len assms(2) by linarith+
    then have "ceil (length D) 8 = length c - length rest" using assms(2) by (simp add: ceil_def)
    moreover have "stream (drop (length c - length rest) c) = drop (length D) (drop p (stream c))"
      using k(1) by (simp flip: drop_stream)
    then have "drop (length c - length rest) c = rest" unfolding assms(1) by (simp add: stream_inject)
    ultimately show ?thesis using k(2) by (simp add: skip_bytes_unchecked_def)
  qed
qed

lemma delta_denotes_cursor:
  fixes d :: "'a::len word delta_decoder"
  assumes d: "delta_denotes d 0 rest pad" and "pad \<noteq> []"
  shows "delta_try_into_cursor d = Inr rest"
proof -
  obtain ms bs where "trailing (dd_value_idx d) 0 ms (map snd bs)" "dd_mini_idx d + length ms = dd_mini_count d"
      "pad = mini_deltas (dd_min d) ms @ concat (map block_deltas bs)"
    using d unfolding delta_denotes_def by blast
  then have idx: "dd_mini_idx d < dd_mini_count d" using assms(2) by (cases ms; cases bs) auto
  obtain w us ms bs u where cur: "start_mini_block d = Inr (d\<lparr>dd_unpack := u\<rparr>)" "bus_width u = w" "bus_pos u < 8" "w \<le> 64"
    "drop (bus_pos u) (stream (dd_cursor d)) = pack w us @ mini_bits ms @ stream (concat (map block_bytes bs) @ rest)"
    "length us = dd_per_mini d - dd_value_idx d" "\<forall>v \<in> set us. take_bit w v = v"
    "list_all (\<lambda>x. length (snd x) = dd_per_mini d) ms" "list_all mini_fits ms"
    "dd_mini_idx d + Suc (length ms) = dd_mini_count d" "w # map fst ms = drop (dd_mini_idx d) (dd_widths d)"
    "\<forall>b \<in> set bs. block_ok (dd_mini_count d) (dd_per_mini d) (b :: 'a delta_block)"
    "pad = map (\<lambda>u. from_u64 u + dd_min d) us @ mini_deltas (dd_min d) ms @ concat (map block_deltas bs)"
    "dd_value_idx d = 0 \<and> (0 :: nat) = 0 \<longrightarrow> w = 0" "trailing 0 (0 - length us) ms (map snd bs)"
    using denotes_current [OF d idx] .
  have "bs = []" "mini_bits ms = []" using trailing_done [of 0 ms "map snd bs"] cur(15) by auto
  then have D: "drop (bus_pos u) (stream (dd_cursor d)) = pack w us @ stream rest" using cur(5) by simp
  have "vec_get (dd_widths d) (dd_mini_idx d) = Inr w"
    using cur(11) by (metis drop_eq_Nil2 hd_drop_conv_nth linorder_not_le list.sel(1) list.simps(3) vec_get_def)
  moreover have "dd_value_idx d < dd_per_mini d" using d unfolding delta_denotes_def by auto
  ultimately show ?thesis
    using skip_packed [OF D cur(3)] cur(6) by (cases "w = 0") (auto simp: delta_try_into_cursor_def skip_bytes_unchecked_def ceil_def mult.commute)
qed

lemma delta_open:
  fixes vss :: "'a::len word list list"
  assumes L: "LENGTH('a) = 32 \<or> LENGTH('a) = 64" and len: "2 \<le> length (concat vss)" "length (concat vss) < 2 ^ 64"
  obtains e0 e bytes e' d ds pad where "delta_encoder_new TYPE('a) = Inr e0" "fold_results delta_put vss e0 = Inr e"
    "delta_flush_buffer TYPE('a) e = Inr (bytes, e')" "delta_try_new (bytes @ rest) = Inr d"
    "dd_total d = length (concat vss)" "concat vss = dd_prev d # running (dd_prev d) ds"
    "delta_denotes d (length ds) rest (ds @ pad)" "dd_remaining d = length ds" "4 * LENGTH('a) dvd length ds \<longleftrightarrow> pad = []"
proof -
  obtain v vs where vs: "concat vss = v # vs" using len(1) by (cases "concat vss") auto
  have ne: "vs \<noteq> []" "length (v # vs) < 2 ^ 64" using len vs by auto
  obtain e0 e e' bs ds pad where page: "delta_encoder_new TYPE('a) = Inr e0" "fold_results delta_put vss e0 = Inr e"
    "delta_flush_buffer TYPE('a) e =
       Inr (page_header (4 * LENGTH('a)) 4 (length (v # vs)) v @ concat (map block_bytes bs), e')"
    "\<forall>b \<in> set bs. block_ok 4 LENGTH('a) (b :: 'a delta_block)"
    "concat (map block_deltas bs) = ds @ pad" "running v ds = vs" "4 * LENGTH('a) dvd length vs \<longrightarrow> pad = []"
    "trailing 0 (length ds) [] (map snd bs)"
    "delta_inv e' ([] :: 'a word list)" "de_total e' = 0"
    using delta_page [OF L vs] .
  obtain d where d: "delta_try_new ((page_header (4 * LENGTH('a)) 4 (length (v # vs)) v @ concat (map block_bytes bs)) @ rest) = Inr d"
      "dd_total d = length (v # vs)" "delta_denotes d (length ds) rest (ds @ pad)" "dd_prev d = v" "dd_remaining d = length vs"
    using delta_page_reader [OF L ne page(4-6,8)] .
  have "length vs = length ds" using page(6) by auto
  moreover have "length ds + length pad = length bs * (4 * LENGTH('a))"
    using length_blocks_deltas [OF page(4)] page(5) by simp
  then have "pad = [] \<longrightarrow> 4 * LENGTH('a) dvd length ds" by (auto simp: dvd_def)
  ultimately show thesis using that [OF page(1-3) d(1) _ _ d(3)] d(2,4,5) page(6,7) vs by auto
qed

lemma delta_lengths:
  fixes vss :: "'a::len word list list"
  assumes L: "LENGTH('a) = 32 \<or> LENGTH('a) = 64" and len: "2 \<le> length (concat vss)" "length (concat vss) < 2 ^ 64"
    and "\<not> 4 * LENGTH('a) dvd length (concat vss) - 1"
  obtains e0 e bytes e' d d' where "delta_encoder_new TYPE('a) = Inr e0" "fold_results delta_put vss e0 = Inr e"
    "delta_flush_buffer TYPE('a) e = Inr (bytes, e')" "delta_try_new (bytes @ rest) = Inr d"
    "dd_total d = length (concat vss)" "delta_read (length (concat vss)) d = Inr (concat vss, d')"
    "delta_try_into_cursor d' = Inr rest"
proof -
  obtain e0 e bytes e' d ds pad where enc: "delta_encoder_new TYPE('a) = Inr e0" "fold_results delta_put vss e0 = Inr e"
      "delta_flush_buffer TYPE('a) e = Inr (bytes, e')" "delta_try_new (bytes @ rest) = Inr d"
      "dd_total d = length (concat vss)" "concat vss = dd_prev d # running (dd_prev d) ds"
      "delta_denotes d (length ds) rest (ds @ pad)" "dd_remaining d = length ds" "4 * LENGTH('a) dvd length ds \<longleftrightarrow> pad = []"
    using delta_open [OF L len] .
  obtain d' where "delta_read (Suc (length ds)) d = Inr (dd_prev d # take (length ds) (running (dd_prev d) ds), d')"
      "delta_denotes d' (length (drop (length ds) ds)) rest (drop (length ds) ds @ pad)"
    using delta_read_denotes [OF L enc(7,8) order.refl] .
  then show thesis
    using that [OF enc(1-5), of d'] delta_denotes_cursor [of d' rest pad] enc(6,9) assms(4) by simp
qed

section \<open>Properties\<close>

text \<open>C31. Round trip of delta binary packed pages: for 32- and 64-bit integers, encoding any
  sequence of slices with two or more values in total (\<open>put\<close> each slice, then \<open>flush_buffer\<close>)
  succeeds, and the value decoder over the page, followed by anything, knows the number of
  values and reads any prefix of them back, whatever overflow the differences had.\<close>

theorem delta_round_trip:
  fixes vss :: "'a::len word list list"
  assumes L: "LENGTH('a) = 32 \<or> LENGTH('a) = 64"
    and len: "2 \<le> length (concat vss)" "length (concat vss) < 2 ^ 64" and n: "n \<le> length (concat vss)"
  shows "\<exists>e0 e bytes e' d d'. delta_encoder_new TYPE('a) = Inr e0 \<and> fold_results delta_put vss e0 = Inr e
    \<and> delta_flush_buffer TYPE('a) e = Inr (bytes, e') \<and> delta_try_new (bytes @ rest) = Inr d
    \<and> dd_total d = length (concat vss) \<and> delta_read n d = Inr (take n (concat vss), d')"
proof -
  obtain e0 e bytes e' d ds pad where enc: "delta_encoder_new TYPE('a) = Inr e0" "fold_results delta_put vss e0 = Inr e"
      "delta_flush_buffer TYPE('a) e = Inr (bytes, e')" "delta_try_new (bytes @ rest) = Inr d"
      "dd_total d = length (concat vss)" "concat vss = dd_prev d # running (dd_prev d) ds"
      "delta_denotes d (length ds) rest (ds @ pad)" "dd_remaining d = length ds" "4 * LENGTH('a) dvd length ds \<longleftrightarrow> pad = []"
    using delta_open [OF L len] .
  have "\<exists>d'. delta_read n d = Inr (take n (concat vss), d')"
  proof (cases n)
    case (Suc m)
    have m: "m \<le> length ds" using Suc n enc(6) by simp
    show ?thesis using delta_read_denotes [OF L enc(7,8) m] Suc enc(6) by (metis take_Suc_Cons)
  qed (simp add: delta_read_def)
  then show ?thesis using enc(1-5) by blast
qed

theorem delta_round_trip_witness:
  "\<exists>e0 e bytes e' d d'. delta_encoder_new TYPE(32) = Inr e0
    \<and> fold_results delta_put [[0x7FFFFFFF, 0x80000000], [5 :: 32 word]] e0 = Inr e
    \<and> delta_flush_buffer TYPE(32) e = Inr (bytes, e') \<and> delta_try_new (bytes @ [9]) = Inr d
    \<and> dd_total d = 3 \<and> delta_read 2 d = Inr ([0x7FFFFFFF, 0x80000000 :: 32 word], d')"
proof -
  let ?vss = "[[0x7FFFFFFF, 0x80000000], [5 :: 32 word]]"
  have "length (concat ?vss) = 3" "take 2 (concat ?vss) = [0x7FFFFFFF, 0x80000000]" by simp_all
  then show ?thesis using delta_round_trip [of ?vss 2 "[9]"] by (simp del: fold_results.simps concat.simps)
qed

text \<open>C32. Consecutive reads overlap: every call of \<open>read\<close> starts with the last value of the
  previous call, so that after a read of \<open>n + 1\<close> values a read of \<open>k + 1\<close> values returns the
  value at position \<open>n\<close> once more instead of continuing at position \<open>n + 1\<close>.\<close>

theorem delta_reads_overlap:
  fixes vss :: "'a::len word list list"
  assumes L: "LENGTH('a) = 32 \<or> LENGTH('a) = 64"
    and len: "2 \<le> length (concat vss)" "length (concat vss) < 2 ^ 64" and n: "n + k < length (concat vss)"
  shows "\<exists>e0 e bytes e' d d' d''. delta_encoder_new TYPE('a) = Inr e0 \<and> fold_results delta_put vss e0 = Inr e
    \<and> delta_flush_buffer TYPE('a) e = Inr (bytes, e') \<and> delta_try_new (bytes @ rest) = Inr d
    \<and> delta_read (n + 1) d = Inr (take (n + 1) (concat vss), d')
    \<and> delta_read (k + 1) d' = Inr (take (k + 1) (drop n (concat vss)), d'')"
proof -
  obtain e0 e bytes e' d ds pad where enc: "delta_encoder_new TYPE('a) = Inr e0" "fold_results delta_put vss e0 = Inr e"
      "delta_flush_buffer TYPE('a) e = Inr (bytes, e')" "delta_try_new (bytes @ rest) = Inr d"
      "dd_total d = length (concat vss)" "concat vss = dd_prev d # running (dd_prev d) ds"
      "delta_denotes d (length ds) rest (ds @ pad)" "dd_remaining d = length ds" "4 * LENGTH('a) dvd length ds \<longleftrightarrow> pad = []"
    using delta_open [OF L len] .
  have nk: "n \<le> length ds" "k \<le> length (drop n ds)" using n enc(6) by auto
  obtain d' where d': "delta_read (Suc n) d = Inr (dd_prev d # take n (running (dd_prev d) ds), d')"
      "delta_denotes d' (length (drop n ds)) rest (drop n ds @ pad)" "dd_remaining d' = length (drop n ds)" "dd_prev d' = concat vss ! n"
    using delta_read_denotes [OF L enc(7,8) nk(1)] enc(6) by auto
  obtain d'' where d'': "delta_read (Suc k) d' = Inr (concat vss ! n # take k (running (concat vss ! n) (drop n ds)), d'')"
    using delta_read_denotes [OF L d'(2,3) nk(2)] d'(4) by auto
  have "concat vss ! n # running (concat vss ! n) (drop n ds) = drop n (concat vss)"
    using drop_running [OF nk(1), of "dd_prev d"] by (simp only: enc(6))
  from this [symmetric] have "take (k + 1) (drop n (concat vss)) = concat vss ! n # take k (running (concat vss ! n) (drop n ds))"
    by simp
  moreover have "take (n + 1) (concat vss) = dd_prev d # take n (running (dd_prev d) ds)" using enc(6) by simp
  ultimately have "delta_read (n + 1) d = Inr (take (n + 1) (concat vss), d')"
      "delta_read (k + 1) d' = Inr (take (k + 1) (drop n (concat vss)), d'')"
    using d'(1) d'' by simp_all
  then show ?thesis using enc(1-4) by blast
qed

theorem delta_reads_overlap_witness:
  "\<exists>e0 e bytes e' d d' d''. delta_encoder_new TYPE(64) = Inr e0
    \<and> fold_results delta_put [[10, 20, 30, 40 :: 64 word]] e0 = Inr e
    \<and> delta_flush_buffer TYPE(64) e = Inr (bytes, e') \<and> delta_try_new (bytes @ []) = Inr d
    \<and> delta_read 2 d = Inr ([10, 20], d') \<and> delta_read 2 d' = Inr ([20, 30 :: 64 word], d'')"
proof -
  let ?vss = "[[10, 20, 30, 40 :: 64 word]]"
  have "length (concat ?vss) = 4" "take (1 + 1) (concat ?vss) = [10, 20]" "take (1 + 1) (drop 1 (concat ?vss)) = [20, 30]"
      "(1 :: nat) + 1 = 2" by simp_all
  then show ?thesis
    using delta_reads_overlap [of ?vss 1 1 "[]"] by (simp del: fold_results.simps concat.simps One_nat_def)
qed

text \<open>C33. Pages that end at a block boundary cannot be read to the end: when the values after
  the first one fill whole blocks, and there are none of them, creating the decoder panics
  past the end of the page, since the encoder writes no block for a single value; and when
  there are some, all values are read but taking the cursor out of the decoder, as the readers
  of byte arrays do to find the data after the lengths, panics.\<close>

theorem delta_block_boundary:
  fixes vs :: "'a::len word list"
  assumes L: "LENGTH('a) = 32 \<or> LENGTH('a) = 64" and len: "length (v # vs) < 2 ^ 64" "4 * LENGTH('a) dvd length vs"
  shows "\<exists>e0 e bytes e'. delta_encoder_new TYPE('a) = Inr e0 \<and> delta_put (v # vs) e0 = Inr e
    \<and> delta_flush_buffer TYPE('a) e = Inr (bytes, e')
    \<and> (if vs = [] then (delta_try_new bytes :: 'a word delta_decoder result) = Inl (Panic ''remaining: 0, need: 1'')
       else \<exists>d d'. delta_try_new (bytes @ rest) = Inr d \<and> delta_read (length (v # vs)) d = Inr (v # vs, d')
         \<and> delta_try_into_cursor d' = Inl (Panic ''index out of bounds''))"
proof (cases "vs = []")
  case True
  have c: "concat [[v]] = v # []" by simp
  obtain e0 e e' bs ds pad where page: "delta_encoder_new TYPE('a) = Inr e0" "fold_results delta_put [[v]] e0 = Inr e"
      "delta_flush_buffer TYPE('a) e =
        Inr (page_header (4 * LENGTH('a)) 4 (length [v]) v @ concat (map block_bytes bs), e')"
      "\<forall>b \<in> set bs. block_ok 4 LENGTH('a) (b :: 'a delta_block)"
      "concat (map block_deltas bs) = ds @ pad" "running v ds = []" "4 * LENGTH('a) dvd length ([] :: 'a word list) \<longrightarrow> pad = []"
      "delta_inv e' ([] :: 'a word list)" "de_total e' = 0"
    using delta_page [OF L c] .
  have "length (concat (map block_deltas bs)) = 0" using page(5-7) by (cases ds) auto
  then have "bs = []" using length_blocks_deltas [OF page(4)] by simp
  moreover have "(delta_try_new (page_header (4 * LENGTH('a)) 4 (length [v]) v) :: 'a word delta_decoder result) =
      Inl (Panic ''remaining: 0, need: 1'')"
    using single_value_page [OF L] .
  ultimately show ?thesis using page(1-3) True by auto
next
  case False
  then have two: "2 \<le> length (concat [v # vs])" "length (concat [v # vs]) < 2 ^ 64" using len(1) by (cases vs; simp)+
  obtain e0 e bytes e' d ds pad where enc: "delta_encoder_new TYPE('a) = Inr e0" "fold_results delta_put [v # vs] e0 = Inr e"
      "delta_flush_buffer TYPE('a) e = Inr (bytes, e')" "delta_try_new (bytes @ rest) = Inr d"
      "dd_total d = length (concat [v # vs])" "concat [v # vs] = dd_prev d # running (dd_prev d) ds"
      "delta_denotes d (length ds) rest (ds @ pad)" "dd_remaining d = length ds" "4 * LENGTH('a) dvd length ds \<longleftrightarrow> pad = []"
    using delta_open [OF L two] .
  have ds: "length vs = length ds" using arg_cong [OF enc(6), of length] by simp
  obtain d' where "delta_read (Suc (length ds)) d = Inr (dd_prev d # take (length ds) (running (dd_prev d) ds), d')"
      "delta_denotes d' (length (drop (length ds) ds)) rest (drop (length ds) ds @ pad)"
    using delta_read_denotes [OF L enc(7,8) order.refl] .
  then have "delta_read (length (v # vs)) d = Inr (v # vs, d')" "delta_try_into_cursor d' = Inl (Panic ''index out of bounds'')"
    using enc(6,9) ds len(2) by (auto intro: delta_denotes_end)
  then show ?thesis using enc(1-4) False by auto
qed

theorem delta_block_boundary_witness:
  "\<exists>e0 e bytes e'. delta_encoder_new TYPE(32) = Inr e0 \<and> delta_put [7 :: 32 word] e0 = Inr e
    \<and> delta_flush_buffer TYPE(32) e = Inr (bytes, e')
    \<and> (delta_try_new bytes :: 32 word delta_decoder result) = Inl (Panic ''remaining: 0, need: 1'')"
  using delta_block_boundary [of "7 :: 32 word" "[]"] by simp

end
