(* ===== verification/Column_Decoders.thy ===== *)
theory Column_Decoders
  imports Delta_Encoder Bitmap
begin

text \<open>
  The decoders of page values (\<open>glaredb_ext_parquet/src/column/encoding\<close> and
  \<open>column/value_reader\<close>): value readers, the plain decoder, the dictionary, run length booleans,
  byte stream split, and the integer delta decoder over the plain one.

  A value reader (trait \<open>ValueReader\<close>) is a function on its own state and the cursor; it
  yields a value to put into the output array, or an error for the error state, or panics
  (\<open>Inl\<close>). The output array is the list of its stored values with a validity mask; what a
  reader of the array sees are its \<open>rows\<close>, \<open>None\<close> for NULL. Debug assertions are checked.

  The locale \<open>value_source\<close> is the contract of value readers with the plain decoder: the reader
  over a cursor denotes a list of values and delivers them one by one. It is interpreted for
  every value reader. The locale \<open>page_source\<close> is the contract of page decoders with the column
  reader, interpreted for the decoders that keep it.
\<close>

section \<open>Cursors\<close>

definition read_next :: "read_cursor \<Rightarrow> ('a::len word \<times> read_cursor) option" where
  "read_next cursor =
     (if length cursor < LENGTH('a) div 8 then None
      else Some (from_le_bytes (take (LENGTH('a) div 8) cursor), drop (LENGTH('a) div 8) cursor))"

definition read_bytes_unchecked :: "nat \<Rightarrow> read_cursor \<Rightarrow> (byte list \<times> read_cursor) result" where
  "read_bytes_unchecked len cursor =
     (if len \<le> length cursor then Inr (take len cursor, drop len cursor)
      else Inl (Panic ''assertion failed: self.remaining >= len''))"

definition read_bytes :: "nat \<Rightarrow> read_cursor \<Rightarrow> (byte list \<times> read_cursor) option" where
  "read_bytes len cursor = (if length cursor < len then None else Some (take len cursor, drop len cursor))"

section \<open>Value readers\<close>

type_synonym ('r, 'v) value_reader = "'r \<Rightarrow> read_cursor \<Rightarrow> ((string + 'v) \<times> 'r \<times> read_cursor) result"

definition primitive_read :: "(unit, 'a::len word) value_reader" where
  "primitive_read _ cursor =
     bind_result (read_next_word cursor) (\<lambda>(v, cursor). Inr (Inr v, (), cursor))"

definition casting_read :: "'a::len itself \<Rightarrow> (unit, 'b::len word) value_reader" where
  "casting_read T _ cursor =
     bind_result (read_next_word cursor) (\<lambda>(v :: 'a word, cursor). Inr (Inr (scast v), (), cursor))"

definition bool_read :: "(nat, bool) value_reader" where
  "bool_read pos cursor =
     bind_result (peek_next_unchecked cursor) (\<lambda>v.
     let b = drop_bit pos v AND 1 \<noteq> 0
     in if pos + 1 = 8
        then bind_result (skip_bytes_unchecked 1 cursor) (\<lambda>cursor. Inr (Inr b, 0, cursor))
        else Inr (Inr b, pos + 1, cursor))"

definition real_sized_bool_read :: "(unit, bool) value_reader" where
  "real_sized_bool_read _ cursor =
     bind_result (read_next_unchecked cursor) (\<lambda>(v, cursor).
       if v = 0 then Inr (Inr False, (), cursor)
       else if v = 1 then Inr (Inr True, (), cursor)
       else Inl (Panic ''undefined behavior: not a bool''))"

definition binary_read :: "(unit, byte list) value_reader" where
  "binary_read _ cursor =
     (case read_next cursor of
        None \<Rightarrow> Inr (Inl ''Not enough bytes to read'', (), cursor)
      | Some (len :: 32 word, cursor) \<Rightarrow>
          (case read_bytes (unat len) cursor of
             None \<Rightarrow> Inr (Inl ''Not enough bytes to read'', (), cursor)
           | Some (bs, cursor) \<Rightarrow> Inr (Inr bs, (), cursor)))"

definition continuation :: "byte \<Rightarrow> bool" where
  "continuation b \<longleftrightarrow> 0x80 \<le> b \<and> b \<le> 0xBF"

fun from_utf8_ok :: "byte list \<Rightarrow> bool" where
  "from_utf8_ok [] = True"
| "from_utf8_ok (a # bs) =
     (if a < 0x80 then from_utf8_ok bs
      else case bs of [] \<Rightarrow> False
      | b # cs \<Rightarrow>
          if 0xC2 \<le> a \<and> a \<le> 0xDF then continuation b \<and> from_utf8_ok cs
          else case cs of [] \<Rightarrow> False
          | c # ds \<Rightarrow>
              if 0xE0 \<le> a \<and> a \<le> 0xEF
              then (if a = 0xE0 then 0xA0 \<le> b \<and> b \<le> 0xBF
                    else if a = 0xED then 0x80 \<le> b \<and> b \<le> 0x9F else continuation b)
                   \<and> continuation c \<and> from_utf8_ok ds
              else case ds of [] \<Rightarrow> False
              | d # es \<Rightarrow>
                  0xF0 \<le> a \<and> a \<le> 0xF4
                  \<and> (if a = 0xF0 then 0x90 \<le> b \<and> b \<le> 0xBF
                     else if a = 0xF4 then 0x80 \<le> b \<and> b \<le> 0x8F else continuation b)
                  \<and> continuation c \<and> continuation d \<and> from_utf8_ok es)"

definition utf8_read :: "(unit, byte list) value_reader" where
  "utf8_read _ cursor =
     bind_result (binary_read () cursor) (\<lambda>(v, _, cursor).
       case v of Inl e \<Rightarrow> Inr (Inl e, (), cursor)
       | Inr bs \<Rightarrow> Inr (if from_utf8_ok bs then Inr bs else Inl ''Failed to read valid utf8 bytes'', (), cursor))"

definition UNIX_EPOCH_JULIAN :: nat where
  "UNIX_EPOCH_JULIAN = 2440588"

definition NANOS_PER_DAY :: int where
  "NANOS_PER_DAY = 86400000 * 1000 * 1000"

definition int96_read :: "(unit, 64 word) value_reader" where
  "int96_read _ cursor =
     bind_result (read_next_word cursor) (\<lambda>(nanos :: 64 word, cursor).
     bind_result (read_next_word cursor) (\<lambda>(julian :: 32 word, cursor).
     bind_result (usize_sub (unat julian) UNIX_EPOCH_JULIAN) (\<lambda>days_since.
     let day_nanos = int days_since * NANOS_PER_DAY; full_nanos = day_nanos + sint nanos
     in if 2 ^ 63 \<le> day_nanos then Inl (Panic ''attempt to multiply with overflow'')
        else if 2 ^ 63 \<le> full_nanos then Inl (Panic ''attempt to add with overflow'')
        else Inr (Inr (word_of_int full_nanos), (), cursor))))"

subsection \<open>Skipping\<close>

definition primitive_skip :: "'a::len itself \<Rightarrow> read_cursor \<Rightarrow> read_cursor result" where
  "primitive_skip T cursor = skip_bytes_unchecked (LENGTH('a) div 8) cursor"

definition casting_skip :: "'a::len itself \<Rightarrow> read_cursor \<Rightarrow> read_cursor result" where
  "casting_skip T cursor = skip_bytes_unchecked 0 cursor"

definition bool_skip :: "nat \<Rightarrow> read_cursor \<Rightarrow> (nat \<times> read_cursor) result" where
  "bool_skip pos cursor =
     (if pos + 1 = 8 then bind_result (skip_bytes_unchecked 1 cursor) (\<lambda>cursor. Inr (0, cursor))
      else Inr (pos + 1, cursor))"

definition binary_skip :: "read_cursor \<Rightarrow> string option \<times> read_cursor" where
  "binary_skip cursor =
     (case read_next cursor of
        None \<Rightarrow> (Some ''Not enough bytes to skip'', cursor)
      | Some (len :: 32 word, cursor) \<Rightarrow>
          (let (did_skip, cursor) = skip_bytes (unat len) cursor
           in (if did_skip then None else Some ''Not enough bytes to skip'', cursor)))"

section \<open>The output array\<close>

record 'v array_out =
  ao_data :: "'v list"
  ao_validity :: validity

definition array_put :: "nat \<Rightarrow> 'v \<Rightarrow> 'v array_out \<Rightarrow> 'v array_out result" where
  "array_put idx v out =
     bind_result (vec_set (ao_data out) idx v) (\<lambda>data. Inr (out\<lparr>ao_data := data\<rparr>))"

definition array_set_invalid :: "nat \<Rightarrow> 'v array_out \<Rightarrow> 'v array_out result" where
  "array_set_invalid idx out =
     bind_result (set_invalid (ao_validity out) idx) (\<lambda>v. Inr (out\<lparr>ao_validity := v\<rparr>))"

section \<open>The plain decoder\<close>

datatype definitions = HasDefinitions "i16 list" i16 | NoDefinitions

definition set_error_fn :: "string \<Rightarrow> string option \<Rightarrow> string option" where
  "set_error_fn e error_state = (case error_state of None \<Rightarrow> Some e | Some _ \<Rightarrow> error_state)"

definition plain_value ::
    "('r, 'v) value_reader \<Rightarrow> nat \<Rightarrow> 'r \<times> read_cursor \<times> 'v array_out \<times> string option
      \<Rightarrow> ('r \<times> read_cursor \<times> 'v array_out \<times> string option) result" where
  "plain_value vr write_idx = (\<lambda>(reader, buffer, out, error_state).
     bind_result (vr reader buffer) (\<lambda>(v, reader, buffer).
       case v of
         Inl e \<Rightarrow> Inr (reader, buffer, out, set_error_fn e error_state)
       | Inr v \<Rightarrow> bind_result (array_put write_idx v out) (\<lambda>out. Inr (reader, buffer, out, error_state))))"

definition plain_level ::
    "('r, 'v) value_reader \<Rightarrow> nat \<Rightarrow> i16 \<Rightarrow> nat \<times> i16 \<Rightarrow> 'r \<times> read_cursor \<times> 'v array_out \<times> string option
      \<Rightarrow> ('r \<times> read_cursor \<times> 'v array_out \<times> string option) result" where
  "plain_level vr offset max_level = (\<lambda>(idx, level) (reader, buffer, out, error_state).
     if sint level < sint max_level
     then bind_result (array_set_invalid (offset + idx) out) (\<lambda>out. Inr (reader, buffer, out, error_state))
     else plain_value vr (offset + idx) (reader, buffer, out, error_state))"

definition read_plain ::
    "('r, 'v) value_reader \<Rightarrow> definitions \<Rightarrow> 'v array_out \<Rightarrow> nat \<Rightarrow> nat \<Rightarrow> 'r \<times> read_cursor
      \<Rightarrow> ('v array_out \<times> 'r \<times> read_cursor) result" where
  "read_plain vr definitions out offset n = (\<lambda>(reader, buffer).
     bind_result
       (case definitions of
          HasDefinitions levels max_level \<Rightarrow>
            if length levels \<noteq> n then Inl (Panic ''assertion failed: levels.len() == count'')
            else fold_results (plain_level vr offset max_level) (List.enumerate 0 levels)
                   (reader, buffer, out, None)
        | NoDefinitions \<Rightarrow>
            fold_results (\<lambda>idx. plain_value vr (idx + offset)) [0..<n] (reader, buffer, out, None))
       (\<lambda>(reader, buffer, out, error_state).
         case error_state of Some e \<Rightarrow> Inl (DbError e) | None \<Rightarrow> Inr (out, reader, buffer)))"

section \<open>Rows\<close>

definition rows :: "'v array_out \<Rightarrow> 'v option list" where
  "rows a = map2 (\<lambda>v b. if b then Some v else None) (ao_data a) (validity_bits (ao_validity a))"

definition array_wf :: "'v array_out \<Rightarrow> bool" where
  "array_wf a \<longleftrightarrow> validity_wf (ao_validity a) \<and> length (ao_data a) = validity_len (ao_validity a)"

definition writable :: "nat \<Rightarrow> nat \<Rightarrow> 'v array_out \<Rightarrow> bool" where
  "writable i n a \<longleftrightarrow> i + n \<le> length (ao_data a) \<and> (\<forall>j < n. validity_bits (ao_validity a) ! (i + j))"

fun expand :: "bool list \<Rightarrow> 'v list \<Rightarrow> 'v option list" where
  "expand [] vs = []"
| "expand (True # ps) vs = Some (hd vs) # expand ps (tl vs)"
| "expand (False # ps) vs = None # expand ps vs"

definition present :: "definitions \<Rightarrow> nat \<Rightarrow> bool list" where
  "present definitions n =
     (case definitions of HasDefinitions levels max_level \<Rightarrow> map (\<lambda>l. \<not> sint l < sint max_level) levels
      | NoDefinitions \<Rightarrow> replicate n True)"

definition overwrite :: "nat \<Rightarrow> 'x list \<Rightarrow> 'x list \<Rightarrow> 'x list" where
  "overwrite i ys xs = take i xs @ ys @ drop (i + length ys) xs"

lemma length_rows [simp]: "array_wf a \<Longrightarrow> length (rows a) = length (ao_data a)"
  by (simp add: rows_def array_wf_def)

lemma length_expand [simp]: "length (expand ps vs) = length ps"
  by (induction ps vs rule: expand.induct) simp_all

lemma overwrite_Cons: "i < length xs \<Longrightarrow> overwrite i (y # ys) xs = overwrite (Suc i) ys (xs[i := y])"
  by (simp add: overwrite_def take_Suc_conv_app_nth)

lemma writable_Suc:
  "writable i (Suc n) a \<Longrightarrow> length (ao_data a') = length (ao_data a) \<Longrightarrow>
    validity_bits (ao_validity a') = validity_bits (ao_validity a)
      \<or> validity_bits (ao_validity a') = (validity_bits (ao_validity a))[i := False] \<Longrightarrow>
    writable (Suc i) n a'"
  by (auto simp: writable_def)

lemma array_put_rows:
  assumes "array_wf a" "i < length (ao_data a)" "validity_bits (ao_validity a) ! i"
  shows "\<exists>a'. array_put i v a = Inr a' \<and> array_wf a' \<and> rows a' = (rows a)[i := Some v]
    \<and> ao_validity a' = ao_validity a \<and> length (ao_data a') = length (ao_data a)"
proof -
  have len: "length (ao_data a) = length (validity_bits (ao_validity a))" using assms(1) by (simp add: array_wf_def)
  have "rows (a\<lparr>ao_data := (ao_data a)[i := v]\<rparr>) = (rows a)[i := Some v]"
    using assms(2,3) len by (intro nth_equalityI) (auto simp: rows_def nth_list_update)
  then show ?thesis using assms(1,2) by (simp add: array_put_def array_wf_def)
qed

lemma array_set_invalid_rows:
  assumes "array_wf a" "i < length (ao_data a)"
  shows "\<exists>a'. array_set_invalid i a = Inr a' \<and> array_wf a' \<and> rows a' = (rows a)[i := None]
    \<and> validity_bits (ao_validity a') = (validity_bits (ao_validity a))[i := False]
    \<and> length (ao_data a') = length (ao_data a)"
proof -
  obtain v where v: "set_invalid (ao_validity a) i = Inr v" "validity_wf v"
      "validity_bits v = (validity_bits (ao_validity a))[i := False]"
    using set_invalid_bits [of "ao_validity a" i] assms by (auto simp: array_wf_def)
  have len: "length (ao_data a) = length (validity_bits v)"
    using assms(1) v(3) by (simp add: array_wf_def)
  have "rows (a\<lparr>ao_validity := v\<rparr>) = (rows a)[i := None]"
    using assms(2) len v(3) by (intro nth_equalityI) (auto simp: rows_def nth_list_update)
  moreover have "length (ao_data a) = validity_len v" using len by simp
  ultimately show ?thesis using v by (simp add: array_set_invalid_def array_wf_def)
qed

section \<open>The contract of value readers\<close>

definition plain_row ::
    "('r, 'v) value_reader \<Rightarrow> nat \<times> bool \<Rightarrow> 'r \<times> read_cursor \<times> 'v array_out \<times> string option
      \<Rightarrow> ('r \<times> read_cursor \<times> 'v array_out \<times> string option) result" where
  "plain_row vr = (\<lambda>(i, p) (r, c, out, e).
     if p then plain_value vr i (r, c, out, e)
     else bind_result (array_set_invalid i out) (\<lambda>out. Inr (r, c, out, e)))"

lemma fold_plain_level:
  "fold_results (plain_level vr offset m) (List.enumerate k levels) s =
   fold_results (plain_row vr) (List.enumerate (offset + k) (map (\<lambda>l. \<not> sint l < sint m) levels)) s"
proof (induction levels arbitrary: k s)
  case (Cons l levels)
  have "plain_level vr offset m (k, l) s = plain_row vr (offset + k, \<not> sint l < sint m) s"
    by (cases s) (auto simp: plain_level_def plain_row_def)
  moreover have "fold_results (plain_level vr offset m) (List.enumerate (Suc k) levels) =
      fold_results (plain_row vr) (List.enumerate (offset + Suc k) (map (\<lambda>l. \<not> sint l < sint m) levels))"
    by (rule ext) (rule Cons.IH)
  ultimately show ?case by simp
qed simp

lemma fold_plain_value:
  "fold_results (\<lambda>idx. plain_value vr (idx + offset)) [k..<k + n] s =
   fold_results (plain_row vr) (List.enumerate (offset + k) (replicate n True)) s"
proof (induction n arbitrary: k s)
  case (Suc n)
  have "[k..<k + Suc n] = k # [Suc k..<Suc k + n]" by (simp add: upt_conv_Cons del: upt_Suc)
  moreover have "plain_value vr (k + offset) s = plain_row vr (offset + k, True) s"
    by (cases s) (auto simp: plain_row_def add.commute)
  moreover have "fold_results (\<lambda>idx. plain_value vr (idx + offset)) [Suc k..<Suc k + n] =
      fold_results (plain_row vr) (List.enumerate (offset + Suc k) (replicate n True))"
    by (rule ext) (rule Suc.IH)
  ultimately show ?case by (simp del: upt_Suc)
qed simp

locale value_source =
  fixes vr :: "('r, 'v) value_reader"
    and holds :: "'r \<Rightarrow> read_cursor \<Rightarrow> 'v list \<Rightarrow> bool"
  assumes next_value: "holds r c (v # vs) \<Longrightarrow> \<exists>r' c'. vr r c = Inr (Inr v, r', c') \<and> holds r' c' vs"
begin

lemma plain_rows:
  "array_wf a \<Longrightarrow> writable i (length ps) a \<Longrightarrow> holds r c vs \<Longrightarrow> count_list ps True \<le> length vs \<Longrightarrow>
    \<exists>r' c' a'. fold_results (plain_row vr) (List.enumerate i ps) (r, c, a, None) = Inr (r', c', a', None)
      \<and> array_wf a' \<and> holds r' c' (drop (count_list ps True) vs) \<and> rows a' = overwrite i (expand ps vs) (rows a)"
proof (induction ps arbitrary: i r c a vs)
  case Nil
  then show ?case by (simp add: overwrite_def)
next
  case (Cons p ps)
  have i: "i < length (ao_data a)" "validity_bits (ao_validity a) ! i" "i < length (rows a)"
    using Cons.prems(1,2) by (auto simp: writable_def)
  show ?case
  proof (cases p)
    case True
    obtain v vs' where vs: "vs = v # vs'" using Cons.prems(4) True by (cases vs) auto
    obtain r1 c1 where read: "vr r c = Inr (Inr v, r1, c1)" "holds r1 c1 vs'"
      using next_value [of r c v vs'] Cons.prems(3) vs by blast
    obtain a1 where a1: "array_put i v a = Inr a1" "array_wf a1" "rows a1 = (rows a)[i := Some v]"
        "ao_validity a1 = ao_validity a" "length (ao_data a1) = length (ao_data a)"
      using array_put_rows [OF Cons.prems(1) i(1,2), of v] by blast
    have w: "writable (Suc i) (length ps) a1" using Cons.prems(2) a1(4,5) by (simp add: writable_Suc)
    have n: "count_list ps True \<le> length vs'" using Cons.prems(4) True vs by simp
    have "plain_row vr (i, p) (r, c, a, None) = Inr (r1, c1, a1, None)"
      using read(1) a1(1) True by (simp add: plain_row_def plain_value_def)
    then show ?thesis
      using Cons.IH [OF a1(2) w read(2) n] True vs i(3) unfolding a1(3) by (simp add: overwrite_Cons)
  next
    case False
    obtain a1 where a1: "array_set_invalid i a = Inr a1" "array_wf a1" "rows a1 = (rows a)[i := None]"
        "validity_bits (ao_validity a1) = (validity_bits (ao_validity a))[i := False]"
        "length (ao_data a1) = length (ao_data a)"
      using array_set_invalid_rows [OF Cons.prems(1) i(1)] by blast
    have w: "writable (Suc i) (length ps) a1" using Cons.prems(2) a1(4,5) by (simp add: writable_Suc)
    have n: "count_list ps True \<le> length vs" using Cons.prems(4) False by simp
    have "plain_row vr (i, p) (r, c, a, None) = Inr (r, c, a1, None)"
      using a1(1) False by (simp add: plain_row_def)
    then show ?thesis
      using Cons.IH [OF a1(2) w Cons.prems(3) n] False i(3) unfolding a1(3) by (simp add: overwrite_Cons)
  qed
qed

lemma read_plain_rows:
  assumes a: "array_wf a" "writable offset n a" and len: "length (present defs n) = n"
    and vs: "holds r c vs" "count_list (present defs n) True \<le> length vs"
  shows "\<exists>r' c' a'. read_plain vr defs a offset n (r, c) = Inr (a', r', c') \<and> array_wf a'
    \<and> holds r' c' (drop (count_list (present defs n) True) vs)
    \<and> rows a' = overwrite offset (expand (present defs n) vs) (rows a)"
proof -
  have "writable offset (length (present defs n)) a" using a(2) len by simp
  from plain_rows [OF a(1) this vs] show ?thesis
    using len fold_plain_level [of vr offset _ 0] fold_plain_value [of vr offset 0 n]
    by (cases defs) (auto simp: read_plain_def present_def)
qed

end

section \<open>The contract of page decoders\<close>

fun defs_ok :: "definitions \<Rightarrow> nat \<Rightarrow> bool" where
  "defs_ok (HasDefinitions levels max_level) n \<longleftrightarrow>
     length levels = n \<and> (\<forall>l \<in> set levels. sint l \<le> sint max_level)"
| "defs_ok NoDefinitions n \<longleftrightarrow> True"

lemma length_present: "defs_ok defs n \<Longrightarrow> length (present defs n) = n"
  by (cases defs) (auto simp: present_def)

lemma rows_valid:
  "array_wf a \<Longrightarrow> k < length (ao_data a) \<Longrightarrow> (rows a ! k \<noteq> None) = validity_bits (ao_validity a) ! k"
  by (simp add: rows_def array_wf_def)

lemma writable_rows:
  assumes "array_wf a"
  shows "writable i n a \<longleftrightarrow> i + n \<le> length (rows a) \<and> (\<forall>j < n. rows a ! (i + j) \<noteq> None)"
proof -
  have "(\<forall>j < n. validity_bits (ao_validity a) ! (i + j)) \<longleftrightarrow> (\<forall>j < n. rows a ! (i + j) \<noteq> None)"
    if "i + n \<le> length (ao_data a)" using that rows_valid [OF assms] by simp
  then show ?thesis using assms by (auto simp only: writable_def length_rows)
qed

locale page_source =
  fixes page_read :: "'d \<Rightarrow> definitions \<Rightarrow> 'v array_out \<Rightarrow> nat \<Rightarrow> nat \<Rightarrow> ('v array_out \<times> 'd) result"
    and page_holds :: "'d \<Rightarrow> 'v list \<Rightarrow> bool"
  assumes page_rows: "page_holds d vs \<Longrightarrow> defs_ok defs n \<Longrightarrow> array_wf a \<Longrightarrow> writable offset n a \<Longrightarrow>
    count_list (present defs n) True \<le> length vs \<Longrightarrow>
    \<exists>a' d'. page_read d defs a offset n = Inr (a', d') \<and> array_wf a'
      \<and> page_holds d' (drop (count_list (present defs n) True) vs)
      \<and> rows a' = overwrite offset (expand (present defs n) vs) (rows a)"

definition plain_read ::
    "('r, 'v) value_reader \<Rightarrow> 'r \<times> read_cursor \<Rightarrow> definitions \<Rightarrow> 'v array_out \<Rightarrow> nat \<Rightarrow> nat
      \<Rightarrow> ('v array_out \<times> 'r \<times> read_cursor) result" where
  "plain_read vr d definitions out offset n = read_plain vr definitions out offset n d"

sublocale value_source \<subseteq> plain: page_source "plain_read vr" "\<lambda>(r, c). holds r c"
proof unfold_locales
  fix d vs defs n and a :: "'v array_out" and offset
  assume *: "(case d of (r, c) \<Rightarrow> holds r c) vs" "defs_ok defs n" "array_wf a" "writable offset n a"
    "count_list (present defs n) True \<le> length vs"
  then show "\<exists>a' d'. plain_read vr d defs a offset n = Inr (a', d') \<and> array_wf a'
      \<and> (case d' of (r, c) \<Rightarrow> holds r c) (drop (count_list (present defs n) True) vs)
      \<and> rows a' = overwrite offset (expand (present defs n) vs) (rows a)"
    using read_plain_rows [of a offset n defs "fst d" "snd d" vs] length_present [of defs n]
    by (auto simp: plain_read_def split: prod.splits)
qed

section \<open>The value readers keep the contract\<close>

definition holds_words :: "unit \<Rightarrow> read_cursor \<Rightarrow> 'a::len word list \<Rightarrow> bool" where
  "holds_words r c vs \<longleftrightarrow> (vs = [] \<or> 8 dvd LENGTH('a)) \<and> (\<exists>rest. c = concat (map to_le_bytes vs) @ rest)"

definition holds_cast :: "'a::len itself \<Rightarrow> unit \<Rightarrow> read_cursor \<Rightarrow> 'b::len word list \<Rightarrow> bool" where
  "holds_cast T r c vs \<longleftrightarrow> (\<exists>us :: 'a word list. holds_words r c us \<and> vs = map scast us)"

definition holds_bools :: "nat \<Rightarrow> read_cursor \<Rightarrow> bool list \<Rightarrow> bool" where
  "holds_bools pos c bs \<longleftrightarrow> pos < 8 \<and> (\<exists>rest. drop pos (stream c) = bs @ rest)"

definition holds_bool_bytes :: "unit \<Rightarrow> read_cursor \<Rightarrow> bool list \<Rightarrow> bool" where
  "holds_bool_bytes r c bs \<longleftrightarrow> (\<exists>rest. c = map (\<lambda>b. if b then 1 else 0) bs @ rest)"

definition length_prefixed :: "byte list \<Rightarrow> byte list" where
  "length_prefixed bs = to_le_bytes (of_nat (length bs) :: 32 word) @ bs"

definition holds_byte_arrays :: "unit \<Rightarrow> read_cursor \<Rightarrow> byte list list \<Rightarrow> bool" where
  "holds_byte_arrays r c vs \<longleftrightarrow>
     (\<forall>bs \<in> set vs. length bs < 2 ^ 32) \<and> (\<exists>rest. c = concat (map length_prefixed vs) @ rest)"

definition holds_strings :: "unit \<Rightarrow> read_cursor \<Rightarrow> byte list list \<Rightarrow> bool" where
  "holds_strings r c vs \<longleftrightarrow> holds_byte_arrays r c vs \<and> (\<forall>bs \<in> set vs. from_utf8_ok bs)"

lemma read_next_word_bytes:
  "8 dvd LENGTH('a::len) \<Longrightarrow> read_next_word (to_le_bytes (v :: 'a word) @ rest) = Inr (v, rest)"
  using from_to_le_bytes [of v] by (auto simp: read_next_word_def)

lemma binary_read_bytes:
  assumes "length bs < 2 ^ 32"
  shows "binary_read () (length_prefixed bs @ rest) = Inr (Inr bs, (), rest)"
proof -
  have "unat (of_nat (length bs) :: 32 word) = length bs"
    using assms by (simp add: unsigned_of_nat take_bit_nat_eq_self)
  then show ?thesis
    using from_to_le_bytes [of "of_nat (length bs) :: 32 word"]
    by (simp add: binary_read_def read_next_def read_bytes_def length_prefixed_def)
qed

interpretation words: value_source primitive_read "holds_words :: unit \<Rightarrow> read_cursor \<Rightarrow> 'a::len word list \<Rightarrow> bool"
  by unfold_locales (auto simp: holds_words_def primitive_read_def read_next_word_bytes)

interpretation casts: value_source "casting_read TYPE('a::len)"
    "holds_cast TYPE('a) :: unit \<Rightarrow> read_cursor \<Rightarrow> 'b::len word list \<Rightarrow> bool"
proof unfold_locales
  fix r :: unit and c and v :: "'b word" and vs
  assume "holds_cast TYPE('a) r c (v # vs)"
  then obtain u :: "'a word" and us rest where "v # vs = map scast (u # us)" "8 dvd LENGTH('a)"
      "c = to_le_bytes u @ concat (map to_le_bytes us) @ rest"
    unfolding holds_cast_def holds_words_def by (auto simp: Cons_eq_map_conv)
  then show "\<exists>r' c'. casting_read TYPE('a) r c = Inr (Inr v, r', c') \<and> holds_cast TYPE('a) r' c' vs"
    by (auto simp: casting_read_def read_next_word_bytes holds_cast_def holds_words_def)
qed

interpretation bools: value_source bool_read holds_bools
proof unfold_locales
  fix pos c b bs
  assume "holds_bools pos c (b # bs)"
  then obtain rest where *: "pos < 8" "drop pos (stream c) = b # bs @ rest" by (auto simp: holds_bools_def)
  then obtain x xs where c: "c = x # xs" by (cases c) auto
  have split: "drop pos (stream c) = drop pos (bits 8 x) @ stream xs" using *(1) c by simp
  have "drop pos (bits 8 x) = bit x pos # drop (Suc pos) (bits 8 x)"
    using *(1) by (simp add: Cons_nth_drop_Suc [symmetric])
  then have b: "b = bit x pos" "drop (Suc pos) (bits 8 x) @ stream xs = bs @ rest" using *(2) split by auto
  have "(drop_bit pos x AND 1 \<noteq> 0) = bit x pos" by (simp add: and_one_eq bit_iff_odd_drop_bit odd_iff_mod_2_eq_one)
  then show "\<exists>r' c'. bool_read pos c = Inr (Inr b, r', c') \<and> holds_bools r' c' bs"
    using b *(1) c by (cases "pos + 1 = 8") (auto simp: bool_read_def holds_bools_def skip_bytes_unchecked_def Let_def)
qed

interpretation bool_bytes: value_source real_sized_bool_read holds_bool_bytes
  by unfold_locales (auto simp: holds_bool_bytes_def real_sized_bool_read_def)

interpretation byte_arrays: value_source binary_read holds_byte_arrays
  by unfold_locales (auto simp: holds_byte_arrays_def binary_read_bytes)

interpretation strings: value_source utf8_read holds_strings
  by unfold_locales (auto simp: holds_strings_def holds_byte_arrays_def utf8_read_def binary_read_bytes)

section \<open>Dictionaries\<close>

definition array_new :: "'v \<Rightarrow> nat \<Rightarrow> 'v array_out" where
  "array_new initial n = \<lparr>ao_data = replicate n initial, ao_validity = new_all_valid n\<rparr>"

definition prepare_with_values ::
    "('r, 'v) value_reader \<Rightarrow> 'r \<Rightarrow> 'v \<Rightarrow> nat \<Rightarrow> read_cursor \<Rightarrow> 'v array_out result" where
  "prepare_with_values vr reader initial dict_size buffer =
     bind_result (read_plain vr NoDefinitions (array_new initial (dict_size + 1)) 0 dict_size (reader, buffer))
       (\<lambda>(dictionary, _, _). array_set_invalid dict_size dictionary)"

definition copy_row :: "'v array_out \<Rightarrow> nat \<times> nat \<Rightarrow> 'v array_out \<Rightarrow> 'v array_out result" where
  "copy_row src = (\<lambda>(src_idx, dest_idx) dest.
     if src_idx < length (ao_data src) then array_put dest_idx (ao_data src ! src_idx) dest
     else Inl (Panic ''called Option::unwrap() on a None value''))"

definition copy_rows_array :: "'v array_out \<Rightarrow> (nat \<times> nat) list \<Rightarrow> 'v array_out \<Rightarrow> 'v array_out result" where
  "copy_rows_array src mapping dest =
     bind_result (all_valid (ao_validity src)) (\<lambda>all.
       if all then fold_results (copy_row src) mapping dest
       else fold_results (\<lambda>(src_idx, dest_idx) dest.
              bind_result (is_valid (ao_validity src) src_idx) (\<lambda>ok.
                if ok then copy_row src (src_idx, dest_idx) dest
                else array_set_invalid dest_idx dest)) mapping dest)"

fun dict_mapping :: "nat \<Rightarrow> i16 \<Rightarrow> nat \<Rightarrow> i16 list \<Rightarrow> 32 word list \<Rightarrow> (nat \<times> nat) list result" where
  "dict_mapping null_idx max_level write_offset [] sel = Inr []"
| "dict_mapping null_idx max_level write_offset (l # ls) sel =
     (if l = max_level
      then (case sel of [] \<Rightarrow> Inl (Panic ''index out of bounds'')
            | i # sel' \<Rightarrow> bind_result (dict_mapping null_idx max_level (write_offset + 1) ls sel')
                            (\<lambda>m. Inr ((unat i, write_offset) # m)))
      else bind_result (dict_mapping null_idx max_level (write_offset + 1) ls sel)
             (\<lambda>m. Inr ((null_idx, write_offset) # m)))"

definition dictionary_read ::
    "'v array_out \<Rightarrow> rle_decoder \<Rightarrow> definitions \<Rightarrow> 'v array_out \<Rightarrow> nat \<Rightarrow> nat \<Rightarrow> ('v array_out \<times> rle_decoder) result"
where
  "dictionary_read dictionary d definitions out offset n =
     (case definitions of
        HasDefinitions levels max_level \<Rightarrow>
          if length levels \<noteq> n then Inl (Panic ''assertion failed: levels.len() == count'')
          else bind_result (rle_read (count_list levels max_level) d) (\<lambda>(sel_buf :: 32 word list, d).
               bind_result (usize_sub (length (ao_data dictionary)) 1) (\<lambda>null_idx.
               bind_result (dict_mapping null_idx max_level offset levels sel_buf) (\<lambda>mapping.
               bind_result (copy_rows_array dictionary mapping out) (\<lambda>out. Inr (out, d)))))
      | NoDefinitions \<Rightarrow>
          bind_result (rle_read n d) (\<lambda>(sel_buf :: 32 word list, d).
          bind_result (copy_rows_array dictionary
              (map (\<lambda>(dest_idx, src). (unat src, dest_idx + offset)) (List.enumerate 0 sel_buf)) out)
            (\<lambda>out. Inr (out, d))))"

section \<open>Decoders over the plain decoder\<close>

definition read_count :: "definitions \<Rightarrow> nat \<Rightarrow> nat result" where
  "read_count definitions n =
     (case definitions of
        HasDefinitions levels max_level \<Rightarrow>
          if length levels \<noteq> n then Inl (Panic ''assertion failed: levels.len() == count'')
          else Inr (count_list levels max_level)
      | NoDefinitions \<Rightarrow> Inr n)"

definition rle_bool_read ::
    "rle_decoder \<Rightarrow> definitions \<Rightarrow> bool array_out \<Rightarrow> nat \<Rightarrow> nat \<Rightarrow> (bool array_out \<times> rle_decoder) result" where
  "rle_bool_read d definitions out offset n =
     bind_result (read_count definitions n) (\<lambda>k.
     bind_result (rle_read k d) (\<lambda>(buf :: byte list, d).
     bind_result (read_plain real_sized_bool_read definitions out offset n ((), buf)) (\<lambda>(out, _, _).
     Inr (out, d))))"

definition delta_binary_packed_read ::
    "('r, 'v) value_reader \<Rightarrow> 'r \<Rightarrow> 'a::len word delta_decoder \<Rightarrow> definitions \<Rightarrow> 'v array_out \<Rightarrow> nat \<Rightarrow> nat
      \<Rightarrow> ('v array_out \<times> 'a word delta_decoder) result" where
  "delta_binary_packed_read vr reader d definitions out offset n =
     bind_result (read_count definitions n) (\<lambda>k.
     bind_result (delta_read k d) (\<lambda>(delta_buffer, d).
     let delta_buffer = delta_buffer @ replicate (k - length delta_buffer) 0
     in bind_result (read_plain vr definitions out offset n (reader, concat (map to_le_bytes delta_buffer)))
          (\<lambda>(out, _, _). Inr (out, d))))"

definition byte_stream_split_new :: "nat \<Rightarrow> read_cursor \<Rightarrow> read_cursor list result" where
  "byte_stream_split_new k cursor =
     (if length cursor mod k \<noteq> 0 then Inl (DbError ''Cursor size not a multiple of K'')
      else
        let total_values = length cursor div k
        in bind_result (fold_results (\<lambda>_ (streams, cursor).
               bind_result (cursor_take total_values cursor) (\<lambda>(s, cursor). Inr (streams @ [s], cursor)))
             [0..<k] ([], cursor)) (\<lambda>(streams, _). Inr streams))"

fun split_read :: "nat \<Rightarrow> read_cursor list \<Rightarrow> (byte list list \<times> read_cursor list) result" where
  "split_read n [] = Inr ([], [])"
| "split_read n (s # streams) =
     bind_result (read_values (\<lambda>_. read_next_unchecked) (replicate n (1 :: nat)) s) (\<lambda>(bs, s).
     bind_result (split_read n streams) (\<lambda>(bss, streams). Inr (bs # bss, s # streams)))"

definition byte_stream_split_read ::
    "('r, 'v) value_reader \<Rightarrow> 'r \<Rightarrow> read_cursor list \<Rightarrow> definitions \<Rightarrow> 'v array_out \<Rightarrow> nat \<Rightarrow> nat
      \<Rightarrow> ('v array_out \<times> read_cursor list) result" where
  "byte_stream_split_read vr reader streams definitions out offset n =
     bind_result (read_count definitions n) (\<lambda>k.
     bind_result (split_read k streams) (\<lambda>(bss, streams).
     bind_result (read_plain vr definitions out offset n
         (reader, concat (map (\<lambda>i. map (\<lambda>bs. bs ! i) bss) [0..<k]))) (\<lambda>(out, _, _).
     Inr (out, streams))))"

section \<open>The page decoders keep the contract\<close>

lemma copy_rows:
  "array_wf a \<Longrightarrow> writable i (length srcs) a \<Longrightarrow> array_wf src \<Longrightarrow> \<forall>s \<in> set srcs. s < length (ao_data src) \<Longrightarrow>
    \<exists>a'. fold_results (\<lambda>(src_idx, dest_idx) dest. bind_result (is_valid (ao_validity src) src_idx) (\<lambda>ok.
        if ok then copy_row src (src_idx, dest_idx) dest else array_set_invalid dest_idx dest))
      (zip srcs [i..<i + length srcs]) a = Inr a'
    \<and> array_wf a' \<and> rows a' = overwrite i (map ((!) (rows src)) srcs) (rows a)"
proof (induction srcs arbitrary: i a)
  case (Cons s srcs)
  let ?f = "\<lambda>(src_idx, dest_idx) dest. bind_result (is_valid (ao_validity src) src_idx) (\<lambda>ok.
      if ok then copy_row src (src_idx, dest_idx) dest else array_set_invalid dest_idx dest)"
  have i: "i < length (ao_data a)" "validity_bits (ao_validity a) ! i" "i < length (rows a)" "s < length (ao_data src)"
    using Cons.prems by (auto simp: writable_def)
  have ok: "is_valid (ao_validity src) s = Inr (validity_bits (ao_validity src) ! s)"
    using is_valid_bits i(4) Cons.prems(3) by (auto simp: array_wf_def)
  have row: "rows src ! s = (if validity_bits (ao_validity src) ! s then Some (ao_data src ! s) else None)"
    using i(4) Cons.prems(3) by (simp add: rows_def array_wf_def)
  obtain a1 where a1: "?f (s, i) a = Inr a1" "array_wf a1" "rows a1 = (rows a)[i := rows src ! s]"
      "writable (Suc i) (length srcs) a1"
    using array_put_rows [OF Cons.prems(1) i(1,2), of "ao_data src ! s"] array_set_invalid_rows [OF Cons.prems(1) i(1)]
      Cons.prems(2) ok row i(4) writable_Suc [of i "length srcs" a]
    by (cases "validity_bits (ao_validity src) ! s") (auto simp: copy_row_def)
  have "\<forall>s \<in> set srcs. s < length (ao_data src)" using Cons.prems(4) by simp
  from Cons.IH [OF a1(2,4) Cons.prems(3) this] show ?case
    using a1(1) i(3) unfolding a1(3)
    by (auto simp: upt_conv_Cons overwrite_Cons simp del: upt_Suc)
qed (simp add: overwrite_def)

lemma copy_rows_array_rows:
  assumes a: "array_wf a" "writable i (length srcs) a" and src: "array_wf src" "None \<in> set (rows src)"
    and bound: "\<forall>s \<in> set srcs. s < length (ao_data src)"
  shows "\<exists>a'. copy_rows_array src (zip srcs [i..<i + length srcs]) a = Inr a' \<and> array_wf a'
    \<and> rows a' = overwrite i (map ((!) (rows src)) srcs) (rows a)"
proof -
  have "False \<in> set (validity_bits (ao_validity src))"
    using src(2) by (auto simp: rows_def in_set_zip in_set_conv_nth split: if_splits)
  moreover have "validity_len (ao_validity src) \<noteq> 0"
    using calculation by (metis length_validity_bits length_0_conv list.set(1) empty_iff)
  ultimately have "all_valid (ao_validity src) = Inr False"
    using all_valid_bits [of "ao_validity src"] src(1) by (auto simp: array_wf_def)
  then show ?thesis
    unfolding copy_rows_array_def using copy_rows [OF a src(1) bound] by simp
qed

fun sources :: "nat \<Rightarrow> bool list \<Rightarrow> nat list \<Rightarrow> nat list" where
  "sources null_idx [] is = []"
| "sources null_idx (True # ps) is = hd is # sources null_idx ps (tl is)"
| "sources null_idx (False # ps) is = null_idx # sources null_idx ps is"

lemma length_sources [simp]: "length (sources n ps is) = length ps"
  by (induction n ps "is" rule: sources.induct) simp_all

lemma sources_bound:
  "count_list ps True \<le> length is \<Longrightarrow> \<forall>i \<in> set is. i < n \<Longrightarrow> \<forall>s \<in> set (sources n ps is). s < Suc n"
proof (induction n ps "is" rule: sources.induct)
  case (2 n ps "is")
  then show ?case by (cases "is") auto
qed auto

lemma sources_rows:
  "count_list ps True \<le> length is \<Longrightarrow> \<forall>i \<in> set is. i < length ws \<Longrightarrow>
    map ((!) (map Some ws @ [None])) (sources (length ws) ps is) = expand ps (map ((!) ws) is)"
proof (induction "length ws" ps "is" rule: sources.induct)
  case (2 ps "is")
  then show ?case by (cases "is") (auto simp: nth_append)
qed (auto simp: nth_append)

lemma dict_mapping_sources:
  assumes "\<forall>l \<in> set levels. sint l \<le> sint m"
  shows "count_list levels m \<le> length sel \<Longrightarrow>
    dict_mapping n m i levels sel =
      Inr (zip (sources n (map (\<lambda>l. \<not> sint l < sint m) levels) (map unat sel)) [i..<i + length levels])"
  using assms
proof (induction levels arbitrary: i sel)
  case (Cons l levels)
  have "(\<not> sint l < sint m) = (l = m)" using Cons.prems(2) by (auto simp: less_le signed_word_eqI)
  then show ?case
    using Cons.IH [of "tl sel" "i + 1"] Cons.IH [of sel "i + 1"] Cons.prems
    by (cases sel) (auto simp: upt_conv_Cons simp del: upt_Suc)
qed simp

lemma count_present:
  "\<forall>l \<in> set levels. sint l \<le> sint m \<Longrightarrow> count_list (map (\<lambda>l. \<not> sint l < sint m) levels) True = count_list levels m"
proof (induction levels)
  case (Cons l levels)
  have "(\<not> sint l < sint m) = (l = m)" using Cons.prems by (auto simp: less_le signed_word_eqI)
  then show ?case using Cons by auto
qed simp

lemma count_replicate: "count_list (replicate n x) x = n"
  by (induction n) simp_all

lemma read_count_present: "defs_ok defs n \<Longrightarrow> read_count defs n = Inr (count_list (present defs n) True)"
  by (cases defs) (auto simp: read_count_def present_def count_present count_replicate)

lemma expand_take: "count_list ps True \<le> k \<Longrightarrow> k \<le> length vs \<Longrightarrow> expand ps (take k vs) = expand ps vs"
proof (induction ps vs arbitrary: k rule: expand.induct)
  case (2 ps vs)
  then show ?case by (cases k; cases vs) auto
qed auto

lemma from_u64_u32: "unat i < 2 ^ 32 \<Longrightarrow> unat (from_u64 i :: 32 word) = unat i"
  by (simp add: from_u64_ucast unsigned_ucast_eq take_bit_nat_eq_self)

definition dict_holds :: "'v array_out \<Rightarrow> rle_decoder \<Rightarrow> 'v list \<Rightarrow> bool" where
  "dict_holds dictionary d vs \<longleftrightarrow> (\<exists>ws is pad. array_wf dictionary \<and> rows dictionary = map Some ws @ [None]
     \<and> denotes d (is @ pad) \<and> (\<forall>i \<in> set is. unat i < length ws \<and> unat i < 2 ^ 32) \<and> vs = map (\<lambda>i. ws ! unat i) is)"

lemma dictionary_mapping:
  fixes sel :: "32 word list"
  assumes ok: "defs_ok defs n" and sel: "length sel = count_list (present defs n) True"
    and dict: "length (ao_data dictionary) = Suc k" and read: "rle_read (length sel) d = Inr (sel, d')"
  shows "dictionary_read dictionary d defs out offset n =
    bind_result (copy_rows_array dictionary
      (zip (sources k (present defs n) (map unat sel)) [offset..<offset + length (present defs n)]) out)
    (\<lambda>out. Inr (out, d'))"
proof (cases defs)
  case (HasDefinitions levels m)
  then have "length sel = count_list levels m" using ok sel by (auto simp: present_def count_present)
  then show ?thesis
    using HasDefinitions ok read dict dict_mapping_sources [of levels m sel k offset]
    by (auto simp: dictionary_read_def present_def)
next
  case NoDefinitions
  have "sources k (replicate n True) us = us" if "length us = n" for us
    using that by (induction n arbitrary: us) (auto simp: length_Suc_conv)
  moreover have "map (\<lambda>(dest_idx, src). (unat src, dest_idx + offset)) (List.enumerate 0 sel) =
      zip (map unat sel) [offset..<offset + length sel]"
    by (rule nth_equalityI) (simp_all add: nth_enumerate_eq add.commute)
  ultimately show ?thesis
    using NoDefinitions sel read by (simp add: dictionary_read_def present_def count_replicate)
qed

interpretation dictionary_page: page_source "dictionary_read dictionary" "dict_holds (dictionary :: 'a array_out)"
proof unfold_locales
  fix d vs defs n and a :: "'a array_out" and offset
  assume holds: "dict_holds dictionary d vs" and ok: "defs_ok defs n" and a: "array_wf a" "writable offset n a"
    and count: "count_list (present defs n) True \<le> length vs"
  let ?ps = "present defs n" and ?k = "count_list (present defs n) True"
  obtain ws "is" pad where dict: "array_wf dictionary" "rows dictionary = map Some ws @ [None]" "denotes d (is @ pad)"
      "\<forall>i \<in> set is. unat i < length ws \<and> unat i < 2 ^ 32" "vs = map (\<lambda>i. ws ! unat i) is"
    using holds unfolding dict_holds_def by blast
  obtain d' where d': "rle_read ?k d = Inr (map from_u64 (take ?k is) :: 32 word list, d')" "denotes d' (drop ?k is @ pad)"
    using rle_read_denotes [OF dict(3), of ?k, where ?'a = 32] count dict(5) by auto
  let ?sel = "map from_u64 (take ?k is) :: 32 word list"
  have unat: "map unat ?sel = map unat (take ?k is)"
    using dict(4) by (auto simp: from_u64_u32 dest: in_set_takeD)
  have len: "length ?sel = ?k" "length (ao_data dictionary) = Suc (length ws)" "length ?ps = n"
    using count dict(1,2,5) length_rows [OF dict(1)] length_present [OF ok] by auto
  let ?srcs = "sources (length ws) ?ps (map unat (take ?k is))"
  have small: "\<forall>i \<in> set (map unat (take ?k is)). i < length ws" using dict(4) by (auto dest: in_set_takeD)
  then have "\<forall>s \<in> set ?srcs. s < length (ao_data dictionary)"
    using sources_bound [of ?ps "map unat (take ?k is)" "length ws"] count dict(5) len by simp
  moreover have "writable offset (length ?srcs) a" using a(2) len by simp
  ultimately obtain a' where a': "copy_rows_array dictionary (zip ?srcs [offset..<offset + length ?srcs]) a = Inr a'"
      "array_wf a'" "rows a' = overwrite offset (map ((!) (rows dictionary)) ?srcs) (rows a)"
    using copy_rows_array_rows [OF a(1) _ dict(1)] dict(2) by fastforce
  have "map ((!) (rows dictionary)) ?srcs = expand ?ps (map ((!) ws) (map unat (take ?k is)))"
    unfolding dict(2) using sources_rows [of ?ps "map unat (take ?k is)" ws] small count dict(5) by simp
  also have "\<dots> = expand ?ps vs" using expand_take [of ?ps ?k vs] count by (simp add: dict(5) take_map comp_def)
  finally have "rows a' = overwrite offset (expand ?ps vs) (rows a)" using a'(3) by simp
  moreover have "rle_read (length ?sel) d = Inr (?sel, d')" using d'(1) by (simp only: len(1))
  from dictionary_mapping [OF ok len(1,2) this] have "dictionary_read dictionary d defs a offset n = Inr (a', d')"
    using a'(1) unfolding unat length_sources by simp
  moreover have "dict_holds dictionary d' (drop ?k vs)"
    using dict d'(2) unfolding dict_holds_def
    by (intro exI [of _ ws] exI [of _ "drop ?k is"] exI [of _ pad]) (auto simp: drop_map dest: in_set_dropD)
  ultimately show "\<exists>a' d'. dictionary_read dictionary d defs a offset n = Inr (a', d') \<and> array_wf a'
      \<and> dict_holds dictionary d' (drop ?k vs) \<and> rows a' = overwrite offset (expand ?ps vs) (rows a)"
    using a'(2) by blast
qed

definition rle_bool_holds :: "rle_decoder \<Rightarrow> bool list \<Rightarrow> bool" where
  "rle_bool_holds d bs \<longleftrightarrow> (\<exists>pad. denotes d (map (\<lambda>b. if b then 1 else 0) bs @ pad))"

lemma from_u64_bools:
  "map from_u64 (map (\<lambda>b. if b then 1 else 0) bs) = (map (\<lambda>b. if b then 1 else 0) bs :: byte list)"
  by (auto simp: from_u64_ucast)

interpretation rle_bool_page: page_source rle_bool_read rle_bool_holds
proof unfold_locales
  fix d vs defs n and a :: "bool array_out" and offset
  assume holds: "rle_bool_holds d vs" and ok: "defs_ok defs n" and a: "array_wf a" "writable offset n a"
    and count: "count_list (present defs n) True \<le> length vs"
  let ?k = "count_list (present defs n) True"
  let ?buf = "map (\<lambda>b. if b then 1 else 0) (take ?k vs) :: byte list"
  obtain pad where pad: "denotes d (map (\<lambda>b. if b then 1 else 0) vs @ pad)" using holds unfolding rle_bool_holds_def ..
  obtain d' where d': "rle_read ?k d = Inr (?buf, d')" "denotes d' (drop ?k (map (\<lambda>b. if b then 1 else 0) vs) @ pad)"
    using rle_read_denotes [OF pad, of ?k, where ?'a = 8] count
    by (auto simp: take_map from_u64_bools simp del: map_map)
  have "holds_bool_bytes () ?buf (take ?k vs)" by (auto simp: holds_bool_bytes_def)
  then obtain a' r' c' where "read_plain real_sized_bool_read defs a offset n ((), ?buf) = Inr (a', r', c')"
      "array_wf a'" "rows a' = overwrite offset (expand (present defs n) (take ?k vs)) (rows a)"
    using bool_bytes.read_plain_rows [OF a length_present [OF ok], of "()" ?buf "take ?k vs"] count by auto
  then show "\<exists>a' d'. rle_bool_read d defs a offset n = Inr (a', d') \<and> array_wf a'
      \<and> rle_bool_holds d' (drop ?k vs) \<and> rows a' = overwrite offset (expand (present defs n) vs) (rows a)"
    using d' count ok
    by (auto simp: rle_bool_read_def read_count_present rle_bool_holds_def drop_map expand_take)
qed

definition split_holds :: "read_cursor list \<Rightarrow> 'a::len word list \<Rightarrow> bool" where
  "split_holds streams vs \<longleftrightarrow> 8 dvd LENGTH('a) \<and>
     (\<exists>rests. length rests = LENGTH('a) div 8
       \<and> streams = map (\<lambda>i. map (\<lambda>v. to_le_bytes v ! i) vs @ rests ! i) [0..<LENGTH('a) div 8])"

lemma read_values_bytes: "read_values (\<lambda>_. read_next_unchecked) (replicate (length bs) k) (bs @ rest) = Inr (bs, rest)"
  by (induction bs) simp_all

lemma split_read_streams:
  "split_read (length vs) (map (\<lambda>i. map (\<lambda>v. f v i) vs @ g i) is) = Inr (map (\<lambda>i. map (\<lambda>v. f v i) vs) is, map g is)"
proof (induction "is")
  case (Cons i "is")
  then show ?case using read_values_bytes [of "map (\<lambda>v. f v i) vs" 1 "g i"] by simp
qed simp

lemma transpose_bytes:
  "concat (map (\<lambda>i. map (\<lambda>bs. bs ! i) (map (\<lambda>k. map (\<lambda>v. to_le_bytes v ! k) vs) [0..<LENGTH('a) div 8]))
     [0..<length vs]) = concat (map to_le_bytes (vs :: 'a::len word list))"
proof -
  have "map (\<lambda>bs. bs ! i) (map (\<lambda>k. map (\<lambda>v. to_le_bytes v ! k) vs) [0..<LENGTH('a) div 8]) = to_le_bytes (vs ! i)"
    if "i < length vs" for i using that by (intro nth_equalityI) simp_all
  then have "map (\<lambda>i. map (\<lambda>bs. bs ! i) (map (\<lambda>k. map (\<lambda>v. to_le_bytes v ! k) vs) [0..<LENGTH('a) div 8])) [0..<length vs] =
      map to_le_bytes vs" by (intro nth_equalityI) simp_all
  then show ?thesis by (simp only:)
qed

interpretation split_page: page_source "byte_stream_split_read primitive_read ()"
    "split_holds :: read_cursor list \<Rightarrow> 'a::len word list \<Rightarrow> bool"
proof unfold_locales
  fix streams defs n offset and vs :: "'a word list" and a :: "'a word array_out"
  assume holds: "split_holds streams vs" and ok: "defs_ok defs n" and a: "array_wf a" "writable offset n a"
    and count: "count_list (present defs n) True \<le> length vs"
  let ?k = "count_list (present defs n) True" and ?L = "LENGTH('a) div 8"
  let ?f = "\<lambda>(v :: 'a word) i. to_le_bytes v ! i"
  obtain rests where *: "8 dvd LENGTH('a)" "length rests = ?L" "streams = map (\<lambda>i. map (\<lambda>v. ?f v i) vs @ rests ! i) [0..<?L]"
    using holds unfolding split_holds_def by blast
  let ?g = "\<lambda>i. map (\<lambda>v. ?f v i) (drop ?k vs) @ rests ! i"
  have "streams = map (\<lambda>i. map (\<lambda>v. ?f v i) (take ?k vs) @ ?g i) [0..<?L]"
    using *(3) by (simp flip: append_assoc map_append)
  then have read: "split_read ?k streams = Inr (map (\<lambda>i. map (\<lambda>v. ?f v i) (take ?k vs)) [0..<?L], map ?g [0..<?L])"
    using split_read_streams [of "take ?k vs" ?f ?g "[0..<?L]"] count by simp
  have bytes: "concat (map (\<lambda>i. map (\<lambda>bs. bs ! i) (map (\<lambda>i. map (\<lambda>v. ?f v i) (take ?k vs)) [0..<?L])) [0..<?k]) =
      concat (map to_le_bytes (take ?k vs))"
    using transpose_bytes [of "take ?k vs"] count by simp
  have "holds_words () (concat (map to_le_bytes (take ?k vs))) (take ?k vs)" using *(1) by (auto simp: holds_words_def)
  then obtain a' r' c' where "read_plain primitive_read defs a offset n ((), concat (map to_le_bytes (take ?k vs))) = Inr (a', r', c')"
      "array_wf a'" "rows a' = overwrite offset (expand (present defs n) (take ?k vs)) (rows a)"
    using words.read_plain_rows [OF a length_present [OF ok], of "()" _ "take ?k vs"] count by force
  moreover have "split_holds (map ?g [0..<?L]) (drop ?k vs)" using *(1,2) by (auto simp: split_holds_def)
  ultimately show "\<exists>a' d'. byte_stream_split_read primitive_read () streams defs a offset n = Inr (a', d') \<and> array_wf a'
      \<and> split_holds d' (drop ?k vs) \<and> rows a' = overwrite offset (expand (present defs n) vs) (rows a)"
    using read count ok unfolding byte_stream_split_read_def
    by (simp add: read_count_present bytes expand_take del: map_map)
qed

end
