(* ===== verification/Thrift.thy ===== *)
theory Thrift
  imports Column_Decoders
begin

text \<open>
  The Thrift compact protocol as far as the Parquet metadata uses it
  (\<open>glaredb_ext_parquet/src/thrift.rs\<close>, \<open>TCompactSliceInputProtocol\<close>), and the loop that every
  reader of a struct in \<open>glaredb_ext_parquet/src/format.rs\<close> runs.

  What the generated code takes from the \<open>thrift\<close> crate is a parameter: \<open>skip\<close> of the input
  protocol, \<open>field_id\<close> and \<open>verify_required_field_exists\<close>, collected in the record
  \<open>thrift_lib\<close>; \<open>thrift_lib_ok\<close> states what is relied on. A writer of a struct is modelled by
  the tree of values it hands to the output protocol, and \<open>compact\<close> is the compact format of
  such a tree. The loop over the fields of a struct reads at least one byte per round, so the
  number of bytes left, plus one, bounds its rounds.
\<close>

unbundle bit_operations_syntax

section \<open>The input protocol\<close>

datatype ttype = TStop | TBool | TI08 | TI16 | TI32 | TI64 | TDouble | TString | TList | TSet | TMap | TStruct

record thrift_in =
  ti_buf :: "byte list"
  ti_last :: "16 word"
  ti_stack :: "16 word list"
  ti_pending :: "bool option"

definition thrift_in_new :: "byte list \<Rightarrow> thrift_in" where
  "thrift_in_new buf = \<lparr>ti_buf = buf, ti_last = 0, ti_stack = [], ti_pending = None\<rparr>"

definition eof_error :: db_error where
  "eof_error = DbError ''Unexpected EOF''"

definition ti_read_byte :: "thrift_in \<Rightarrow> (byte \<times> thrift_in) result" where
  "ti_read_byte i = (case ti_buf i of [] \<Rightarrow> Inl eof_error | b # buf \<Rightarrow> Inr (b, i\<lparr>ti_buf := buf\<rparr>))"

fun read_vlq_loop :: "u64 \<Rightarrow> nat \<Rightarrow> byte list \<Rightarrow> (u64 \<times> byte list) result" where
  "read_vlq_loop in_progress shift [] = Inl eof_error"
| "read_vlq_loop in_progress shift (b # buf) =
     (if 64 \<le> shift then Inl (Panic ''attempt to shift left with overflow'')
      else let in_progress = in_progress OR push_bit shift (ucast (b AND 0x7F))
           in if b AND 0x80 = 0 then Inr (in_progress, buf)
              else read_vlq_loop in_progress (shift + 7) buf)"

definition read_vlq :: "thrift_in \<Rightarrow> (u64 \<times> thrift_in) result" where
  "read_vlq i = bind_result (read_vlq_loop 0 0 (ti_buf i)) (\<lambda>(v, buf). Inr (v, i\<lparr>ti_buf := buf\<rparr>))"

definition read_zig_zag :: "thrift_in \<Rightarrow> (u64 \<times> thrift_in) result" where
  "read_zig_zag i = bind_result (read_vlq i) (\<lambda>(v, i). Inr (drop_bit 1 v XOR (- (v AND 1)), i))"

definition u8_to_type :: "byte \<Rightarrow> ttype result" where
  "u8_to_type b =
     (if b = 0x00 then Inr TStop else if b = 0x03 then Inr TI08 else if b = 0x04 then Inr TI16
      else if b = 0x05 then Inr TI32 else if b = 0x06 then Inr TI64 else if b = 0x07 then Inr TDouble
      else if b = 0x08 then Inr TString else if b = 0x09 then Inr TList else if b = 0x0A then Inr TSet
      else if b = 0x0B then Inr TMap else if b = 0x0C then Inr TStruct
      else Inl (DbError ''cannot convert into TType''))"

definition collection_u8_to_type :: "byte \<Rightarrow> ttype result" where
  "collection_u8_to_type b = (if b = 0x01 then Inr TBool else u8_to_type b)"

definition ti_read_i8 :: "thrift_in \<Rightarrow> (8 word \<times> thrift_in) result" where
  "ti_read_i8 i = ti_read_byte i"

definition ti_read_i16 :: "thrift_in \<Rightarrow> (16 word \<times> thrift_in) result" where
  "ti_read_i16 i = bind_result (read_zig_zag i) (\<lambda>(v, i). Inr (ucast v, i))"

definition ti_read_i32 :: "thrift_in \<Rightarrow> (32 word \<times> thrift_in) result" where
  "ti_read_i32 i = bind_result (read_zig_zag i) (\<lambda>(v, i). Inr (ucast v, i))"

definition ti_read_i64 :: "thrift_in \<Rightarrow> (64 word \<times> thrift_in) result" where
  "ti_read_i64 i = read_zig_zag i"

definition read_struct_begin :: "thrift_in \<Rightarrow> thrift_in" where
  "read_struct_begin i = i\<lparr>ti_stack := ti_last i # ti_stack i, ti_last := 0\<rparr>"

definition read_struct_end :: "thrift_in \<Rightarrow> thrift_in result" where
  "read_struct_end i =
     (case ti_stack i of [] \<Rightarrow> Inl (Panic ''should have previous field ids'')
      | prev # stack \<Rightarrow> Inr (i\<lparr>ti_last := prev, ti_stack := stack\<rparr>))"

definition read_field_type :: "byte \<Rightarrow> thrift_in \<Rightarrow> (ttype \<times> thrift_in) result" where
  "read_field_type code i =
     (if code = 0x01 then Inr (TBool, i\<lparr>ti_pending := Some True\<rparr>)
      else if code = 0x02 then Inr (TBool, i\<lparr>ti_pending := Some False\<rparr>)
      else bind_result (u8_to_type code) (\<lambda>ty. Inr (ty, i)))"

definition read_field_begin :: "thrift_in \<Rightarrow> ((ttype \<times> 16 word option) \<times> thrift_in) result" where
  "read_field_begin i =
     bind_result (ti_read_byte i) (\<lambda>(field_type, i).
     let field_delta = drop_bit 4 (field_type AND 0xF0); code = field_type AND 0x0F
     in bind_result (read_field_type code i) (\<lambda>(ty, i).
     if ty = TStop then Inr ((TStop, None), i)
     else if field_delta \<noteq> 0
     then (if sint (ti_last i) + uint field_delta < 2 ^ 15
           then let fid = ti_last i + ucast field_delta in Inr ((ty, Some fid), i\<lparr>ti_last := fid\<rparr>)
           else Inl (Panic ''attempt to add with overflow''))
     else bind_result (ti_read_i16 i) (\<lambda>(fid, i). Inr ((ty, Some fid), i\<lparr>ti_last := fid\<rparr>))))"

definition ti_read_bool :: "thrift_in \<Rightarrow> (bool \<times> thrift_in) result" where
  "ti_read_bool i =
     (case ti_pending i of
        Some b \<Rightarrow> Inr (b, i\<lparr>ti_pending := None\<rparr>)
      | None \<Rightarrow>
          bind_result (ti_read_byte i) (\<lambda>(b, i).
            if b = 0x01 then Inr (True, i) else if b = 0x02 then Inr (False, i)
            else Inl (DbError ''cannot convert into bool'')))"

definition ti_read_bytes :: "thrift_in \<Rightarrow> (byte list \<times> thrift_in) result" where
  "ti_read_bytes i =
     bind_result (read_vlq i) (\<lambda>(len, i).
       if length (ti_buf i) < unat len then Inl eof_error
       else Inr (take (unat len) (ti_buf i), i\<lparr>ti_buf := drop (unat len) (ti_buf i)\<rparr>))"

definition ti_read_double :: "thrift_in \<Rightarrow> (64 word \<times> thrift_in) result" where
  "ti_read_double i =
     (if length (ti_buf i) < 8 then Inl (Panic ''range end index 8 out of range'')
      else Inr (from_le_bytes (take 8 (ti_buf i)), i\<lparr>ti_buf := drop 8 (ti_buf i)\<rparr>))"

definition ti_read_string :: "thrift_in \<Rightarrow> (byte list \<times> thrift_in) result" where
  "ti_read_string i =
     bind_result (ti_read_bytes i) (\<lambda>(bs, i).
       if from_utf8_ok bs then Inr (bs, i) else Inl (DbError ''invalid utf-8 sequence''))"

definition read_list_begin :: "thrift_in \<Rightarrow> ((ttype \<times> 32 word) \<times> thrift_in) result" where
  "read_list_begin i =
     bind_result (ti_read_byte i) (\<lambda>(header, i).
     bind_result (collection_u8_to_type (header AND 0x0F)) (\<lambda>element_type.
     let possible_element_count = drop_bit 4 (header AND 0xF0)
     in if possible_element_count \<noteq> 15 then Inr ((element_type, ucast possible_element_count), i)
        else bind_result (read_vlq i) (\<lambda>(n, i). Inr ((element_type, ucast n), i))))"

section \<open>Readers of structs\<close>

record thrift_lib =
  tl_skip :: "ttype \<Rightarrow> thrift_in \<Rightarrow> thrift_in result"
  tl_field_id :: "16 word option \<Rightarrow> 16 word result"
  tl_verify :: "bool \<Rightarrow> unit result"

definition thrift_lib_ok :: "thrift_lib \<Rightarrow> bool" where
  "thrift_lib_ok lib \<longleftrightarrow> (\<forall>fid. tl_field_id lib (Some fid) = Inr fid) \<and> tl_verify lib True = Inr ()"

type_synonym 's field_handler = "ttype \<Rightarrow> 16 word option \<Rightarrow> 's \<Rightarrow> thrift_in \<Rightarrow> ('s \<times> thrift_in) result"

fun read_fields :: "'s field_handler \<Rightarrow> nat \<Rightarrow> 's \<Rightarrow> thrift_in \<Rightarrow> ('s \<times> thrift_in) result" where
  "read_fields h 0 s i = Inl (Panic ''out of fuel'')"
| "read_fields h (Suc n) s i =
     bind_result (read_field_begin i) (\<lambda>((ty, fid), i).
       if ty = TStop then Inr (s, i) else bind_result (h ty fid s i) (\<lambda>(s, i). read_fields h n s i))"

definition read_struct :: "'s field_handler \<Rightarrow> 's \<Rightarrow> thrift_in \<Rightarrow> ('s \<times> thrift_in) result" where
  "read_struct h s i =
     (let i = read_struct_begin i
      in bind_result (read_fields h (length (ti_buf i) + 1) s i) (\<lambda>(s, i).
         bind_result (read_struct_end i) (\<lambda>i. Inr (s, i))))"

definition set_field :: "(thrift_in \<Rightarrow> ('v \<times> thrift_in) result) \<Rightarrow> ('v \<Rightarrow> 's \<Rightarrow> 's) \<Rightarrow> 's \<Rightarrow> thrift_in \<Rightarrow> ('s \<times> thrift_in) result"
where
  "set_field rd put s i = bind_result (rd i) (\<lambda>(v, i). Inr (put v s, i))"

definition match_field ::
    "thrift_lib \<Rightarrow> (nat \<times> ('s \<Rightarrow> thrift_in \<Rightarrow> ('s \<times> thrift_in) result)) list \<Rightarrow> 's field_handler" where
  "match_field lib cases ty fid s i =
     bind_result (tl_field_id lib fid) (\<lambda>fid.
       case map_of cases (unat fid) of
         Some rd \<Rightarrow> rd s i
       | None \<Rightarrow> bind_result (tl_skip lib ty i) (\<lambda>i. Inr (s, i)))"

definition required :: "thrift_lib \<Rightarrow> 'v option \<Rightarrow> 'v result" where
  "required lib f =
     bind_result (tl_verify lib (f \<noteq> None)) (\<lambda>_.
       case f of Some v \<Rightarrow> Inr v
       | None \<Rightarrow> Inl (Panic ''auto-generated code should have checked for presence of required fields''))"

section \<open>The compact format\<close>

datatype tvalue =
    VBool bool | VI16 "16 word" | VI32 "32 word" | VI64 "64 word" | VBytes "byte list"
  | VList ttype "tvalue list" | VStruct "(nat \<times> ttype \<times> tvalue) list"

fun type_code :: "ttype \<Rightarrow> byte" where
  "type_code TStop = 0" | "type_code TBool = 1" | "type_code TI08 = 3" | "type_code TI16 = 4"
| "type_code TI32 = 5" | "type_code TI64 = 6" | "type_code TDouble = 7" | "type_code TString = 8"
| "type_code TList = 9" | "type_code TSet = 10" | "type_code TMap = 11" | "type_code TStruct = 12"

fun is_bool_value :: "tvalue \<Rightarrow> bool" where
  "is_bool_value (VBool b) = True"
| "is_bool_value _ = False"

definition field_code :: "ttype \<Rightarrow> tvalue \<Rightarrow> byte" where
  "field_code ty v = (case v of VBool b \<Rightarrow> if b then 1 else 2 | _ \<Rightarrow> type_code ty)"

definition nibbles :: "nat \<Rightarrow> byte \<Rightarrow> byte" where
  "nibbles high low = push_bit 4 (of_nat high) OR low"

definition field_header :: "nat \<Rightarrow> nat \<Rightarrow> byte \<Rightarrow> byte list" where
  "field_header prev fid code =
     (if prev < fid \<and> fid < prev + 16 then [nibbles (fid - prev) code]
      else code # vlq_bytes (zigzag_encode (of_nat fid)))"

definition list_header :: "nat \<Rightarrow> byte \<Rightarrow> byte list" where
  "list_header n code = (if n < 15 then [nibbles n code] else nibbles 15 code # vlq_bytes (of_nat n))"

fun compact :: "tvalue \<Rightarrow> byte list"
  and compact_fields :: "nat \<Rightarrow> (nat \<times> ttype \<times> tvalue) list \<Rightarrow> byte list" where
  "compact (VBool b) = [if b then 1 else 2]"
| "compact (VI16 v) = vlq_bytes (zigzag_encode (scast v))"
| "compact (VI32 v) = vlq_bytes (zigzag_encode (scast v))"
| "compact (VI64 v) = vlq_bytes (zigzag_encode v)"
| "compact (VBytes bs) = vlq_bytes (of_nat (length bs)) @ bs"
| "compact (VList ty vs) = list_header (length vs) (type_code ty) @ concat (map compact vs)"
| "compact (VStruct fs) = compact_fields 0 fs"
| "compact_fields prev [] = [0]"
| "compact_fields prev ((fid, ty, v) # fs) =
     field_header prev fid (field_code ty v) @ (if is_bool_value v then [] else compact v) @ compact_fields fid fs"

section \<open>Reading the compact format\<close>

lemma read_vlq_loop_bytes:
  "take_bit (64 - s) v = v \<Longrightarrow> s < 64 \<Longrightarrow>
    read_vlq_loop acc s (vlq_bytes v @ rest) = Inr (acc OR push_bit s v, rest)"
proof (induction v arbitrary: s acc rule: vlq_bytes.induct)
  case (1 v)
  show ?case
  proof (cases "drop_bit 7 v = 0")
    case True
    then show ?thesis
      using "1.prems"(2) by (simp add: vlq_bytes.simps [of v] and_high_bits Let_def low_byte take_bit_7_self)
  next
    case False
    have room: "s + 7 < 64" using septet_room [OF "1.prems"(1) False] .
    have "read_vlq_loop acc s (vlq_bytes v @ rest) =
        read_vlq_loop (acc OR push_bit s (take_bit 7 v)) (s + 7) (vlq_bytes (drop_bit 7 v) @ rest)"
      using False room by (simp add: vlq_bytes.simps [of v] and_high_bits high_byte Let_def)
    then show ?thesis
      using "1.IH" [OF _ take_bit_drop_7 [OF "1.prems"(1)] room] False by (simp add: and_high_bits septets)
  qed
qed

lemma read_vlq_bytes [simp]:
  "ti_buf i = vlq_bytes v @ rest \<Longrightarrow> read_vlq i = Inr (v, i\<lparr>ti_buf := rest\<rparr>)"
  using read_vlq_loop_bytes [of 0 v 0 rest] by (simp add: read_vlq_def take_bit_word_eq_self)

lemma read_zig_zag_bytes [simp]:
  "ti_buf i = vlq_bytes (zigzag_encode v) @ rest \<Longrightarrow> read_zig_zag i = Inr (v, i\<lparr>ti_buf := rest\<rparr>)"
  using zigzag_decode_encode [of v] by (simp add: read_zig_zag_def zigzag_decode_def)

lemma nibbles_read:
  assumes "d < 16" "c < 16"
  shows "drop_bit 4 (nibbles d (of_nat c) AND 0xF0) = of_nat d" "nibbles d (of_nat c) AND 0x0F = of_nat c"
proof -
  have "list_all (\<lambda>d. list_all (\<lambda>c. drop_bit 4 (nibbles d (of_nat c) AND 0xF0) = of_nat d
      \<and> nibbles d (of_nat c) AND 0x0F = of_nat c) [0..<16]) [0..<16]"
    by code_simp
  then show "drop_bit 4 (nibbles d (of_nat c) AND 0xF0) = of_nat d" "nibbles d (of_nat c) AND 0x0F = of_nat c"
    using assms by (auto simp: list_all_iff)
qed

lemma type_code_read:
  "ty \<noteq> TBool \<Longrightarrow> u8_to_type (type_code ty) = Inr ty"
  "ty \<noteq> TBool \<Longrightarrow> type_code ty \<noteq> 1 \<and> type_code ty \<noteq> 2" "\<exists>c < 16. type_code ty = of_nat c"
proof -
  show "ty \<noteq> TBool \<Longrightarrow> u8_to_type (type_code ty) = Inr ty"
      "ty \<noteq> TBool \<Longrightarrow> type_code ty \<noteq> 1 \<and> type_code ty \<noteq> 2"
    by (cases ty; simp add: u8_to_type_def)+
  show "\<exists>c < 16. type_code ty = of_nat c"
    by (rule exI [of _ "unat (type_code ty)"], cases ty) simp_all
qed

definition thrift_at :: "byte list \<Rightarrow> 16 word \<Rightarrow> 16 word list \<Rightarrow> thrift_in" where
  "thrift_at buf prev stack = \<lparr>ti_buf = buf, ti_last = prev, ti_stack = stack, ti_pending = None\<rparr>"

definition field_at :: "tvalue \<Rightarrow> byte list \<Rightarrow> 16 word \<Rightarrow> 16 word list \<Rightarrow> thrift_in" where
  "field_at v buf prev stack =
     \<lparr>ti_buf = (if is_bool_value v then [] else compact v) @ buf, ti_last = prev, ti_stack = stack,
      ti_pending = (case v of VBool b \<Rightarrow> Some b | _ \<Rightarrow> None)\<rparr>"

fun field_ok :: "nat \<times> ttype \<times> tvalue \<Rightarrow> bool" where
  "field_ok (fid, ty, v) \<longleftrightarrow> fid < 2 ^ 15 \<and> ty \<noteq> TStop \<and> (ty = TBool \<longleftrightarrow> is_bool_value v)"

lemma field_code_read:
  assumes "field_ok (fid, ty, v)"
  shows "read_field_type (field_code ty v) i =
    Inr (ty, i\<lparr>ti_pending := (case v of VBool b \<Rightarrow> Some b | _ \<Rightarrow> ti_pending i)\<rparr>)"
    "\<exists>c < 16. field_code ty v = of_nat c"
  using assms type_code_read [of ty]
  by (cases v; auto simp: field_code_def read_field_type_def intro: exI [of _ 1] exI [of _ 2])+

lemma sint_of_nat_16: "n < 2 ^ 15 \<Longrightarrow> sint (of_nat n :: 16 word) = int n"
  by (simp add: signed_of_nat signed_take_bit_int_eq_self)

lemma read_field_begin_bytes:
  assumes ok: "field_ok (fid, ty, v)" and prev: "prev < 2 ^ 15"
  shows "read_field_begin (thrift_at (field_header prev fid (field_code ty v)
      @ (if is_bool_value v then [] else compact v) @ rest) (of_nat prev) stack) =
    Inr ((ty, Some (of_nat fid)), field_at v rest (of_nat fid) stack)"
proof -
  obtain c where c: "c < 16" "field_code ty v = of_nat c" using field_code_read(2) [OF ok] by blast
  have id: "fid < 2 ^ 15" "ty \<noteq> TStop" using ok by auto
  show ?thesis
  proof (cases "prev < fid \<and> fid < prev + 16")
    case True
    define k where "k = fid - prev"
    have k: "k < 16" "0 < k" "fid = prev + k" using True by (auto simp: k_def)
    have u: "unat (of_nat k :: byte) = k" using k(1) by (simp add: unsigned_of_nat take_bit_nat_eq_self)
    then have d: "uint (of_nat k :: byte) = int k" "(of_nat k :: byte) \<noteq> 0" using k(2) by (metis uint_nat, force)
    have "(ucast (of_nat k :: byte) :: 16 word) = of_nat k" using u by (metis of_nat_unat)
    moreover have "field_header prev fid (field_code ty v) = [nibbles k (field_code ty v)]"
      using True by (simp add: field_header_def k_def)
    moreover have "sint (of_nat prev :: 16 word) + uint (of_nat k :: byte) < 2 ^ 15"
      using id(1) sint_of_nat_16 [OF prev] d(1) k(3) by simp
    ultimately show ?thesis
      using c nibbles_read [OF k(1) c(1)] field_code_read(1) [OF ok, unfolded c(2)] id(2) d(2) k(3)
      by (simp add: read_field_begin_def thrift_at_def field_at_def ti_read_byte_def Let_def split: tvalue.split)
  next
    case False
    have "of_nat c = nibbles 0 (of_nat c)" by (simp add: nibbles_def)
    then have "drop_bit 4 (of_nat c AND 0xF0) = (0 :: byte)" "of_nat c AND 0x0F = (of_nat c :: byte)"
      using nibbles_read [of 0 c] c(1) by simp_all
    moreover have "(ucast (of_nat fid :: u64) :: 16 word) = of_nat fid"
      by (simp add: word_unat_eq_iff unsigned_ucast_eq unsigned_of_nat take_bit_nat_eq_self)
    moreover have "field_header prev fid (field_code ty v) = field_code ty v # vlq_bytes (zigzag_encode (of_nat fid))"
      using False by (auto simp: field_header_def)
    ultimately show ?thesis
      using c field_code_read(1) [OF ok, unfolded c(2)] id
      by (simp add: read_field_begin_def thrift_at_def field_at_def ti_read_byte_def ti_read_i16_def Let_def split: tvalue.split)
  qed
qed

lemma read_field_stop:
  "read_field_begin (thrift_at (0 # rest) prev stack) = Inr ((TStop, None), thrift_at rest prev stack)"
  by (simp add: read_field_begin_def thrift_at_def ti_read_byte_def u8_to_type_def read_field_type_def)

subsection \<open>Fields in sequence\<close>

definition field_step :: "'s field_handler \<Rightarrow> 's \<Rightarrow> nat \<times> ttype \<times> tvalue \<Rightarrow> 's \<Rightarrow> bool" where
  "field_step h s = (\<lambda>(fid, ty, v) s'. field_ok (fid, ty, v) \<and>
     (\<forall>rest stack. h ty (Some (of_nat fid)) s (field_at v rest (of_nat fid) stack) =
        Inr (s', thrift_at rest (of_nat fid) stack)))"

fun field_steps :: "'s field_handler \<Rightarrow> 's \<Rightarrow> (nat \<times> ttype \<times> tvalue) list \<Rightarrow> 's \<Rightarrow> bool" where
  "field_steps h s [] s' \<longleftrightarrow> s' = s"
| "field_steps h s (f # fs) s' \<longleftrightarrow> (\<exists>s1. field_step h s f s1 \<and> field_steps h s1 fs s')"

lemma field_steps_append:
  "field_steps h s fs s1 \<Longrightarrow> field_steps h s1 gs s' \<Longrightarrow> field_steps h s (fs @ gs) s'"
  by (induction fs arbitrary: s) auto

definition opt_field :: "nat \<Rightarrow> ttype \<Rightarrow> ('v \<Rightarrow> tvalue) \<Rightarrow> 'v option \<Rightarrow> (nat \<times> ttype \<times> tvalue) list" where
  "opt_field fid ty wr f = (case f of None \<Rightarrow> [] | Some v \<Rightarrow> [(fid, ty, wr v)])"

lemma read_fields_steps:
  "field_steps h s fs s' \<Longrightarrow> prev < 2 ^ 15 \<Longrightarrow> length fs < n \<Longrightarrow>
    \<exists>prev'. read_fields h n s (thrift_at (compact_fields prev fs @ rest) (of_nat prev) stack) =
      Inr (s', thrift_at rest prev' stack)"
proof (induction fs arbitrary: s prev n)
  case Nil
  then show ?case by (cases n) (auto simp: read_field_stop)
next
  case (Cons f fs)
  obtain fid ty v m where f: "f = (fid, ty, v)" "n = Suc m" using Cons.prems(3) by (cases f; cases n) auto
  obtain s1 where s1: "field_ok (fid, ty, v)" "field_steps h s1 fs s'"
      "h ty (Some (of_nat fid)) s (field_at v (compact_fields fid fs @ rest) (of_nat fid) stack) =
        Inr (s1, thrift_at (compact_fields fid fs @ rest) (of_nat fid) stack)"
    using Cons.prems(1) f by (auto simp: field_step_def)
  obtain prev' where "read_fields h m s1 (thrift_at (compact_fields fid fs @ rest) (of_nat fid) stack) =
      Inr (s', thrift_at rest prev' stack)"
    using Cons.IH [OF s1(2), of fid m] s1(1) Cons.prems(3) f(2) by auto
  then show ?case
    using read_field_begin_bytes [OF s1(1) Cons.prems(2), of "compact_fields fid fs @ rest" stack] s1(1,3) f by auto
qed

lemma length_compact_fields: "length fs < length (compact_fields prev fs)"
proof (induction fs arbitrary: prev)
  case (Cons f fs)
  obtain fid ty v where f: "f = (fid, ty, v)" by (cases f)
  show ?case using Cons.IH [of fid] f by (auto simp: field_header_def)
qed simp

lemma read_struct_steps:
  assumes "field_steps h s fs s'"
  shows "read_struct h s (field_at (VStruct fs) rest prev stack) = Inr (s', thrift_at rest prev stack)"
proof -
  let ?i = "thrift_at (compact_fields 0 fs @ rest) 0 (prev # stack)"
  have i: "read_struct_begin (field_at (VStruct fs) rest prev stack) = ?i"
    by (simp add: read_struct_begin_def field_at_def thrift_at_def)
  have n: "length fs < length (ti_buf ?i) + 1" using length_compact_fields [of fs 0] by (simp add: thrift_at_def)
  obtain prev' where "read_fields h (length (ti_buf ?i) + 1) s ?i = Inr (s', thrift_at rest prev' (prev # stack))"
    using read_fields_steps [OF assms _ n, of 0] by auto
  then show ?thesis unfolding read_struct_def i Let_def by (simp add: read_struct_end_def thrift_at_def)
qed

subsection \<open>Values that are read back\<close>

definition reads_back :: "(thrift_in \<Rightarrow> ('v \<times> thrift_in) result) \<Rightarrow> ('v \<Rightarrow> tvalue) \<Rightarrow> ('v \<Rightarrow> bool) \<Rightarrow> bool" where
  "reads_back rd wr ok \<longleftrightarrow>
     (\<forall>v rest prev stack. ok v \<longrightarrow> rd (field_at (wr v) rest prev stack) = Inr (v, thrift_at rest prev stack))"

lemma reads_back_i32: "reads_back ti_read_i32 VI32 (\<lambda>_. True)"
  by (simp add: reads_back_def ti_read_i32_def field_at_def thrift_at_def sint_scast_i64)

lemma reads_back_i64: "reads_back ti_read_i64 VI64 (\<lambda>_. True)"
  by (simp add: reads_back_def ti_read_i64_def field_at_def thrift_at_def)

lemma reads_back_bool: "reads_back ti_read_bool VBool (\<lambda>_. True)"
  by (simp add: reads_back_def ti_read_bool_def field_at_def thrift_at_def)

lemma reads_back_bytes: "reads_back ti_read_bytes VBytes (\<lambda>bs. length bs < 2 ^ 64)"
proof -
  have "ti_read_bytes (field_at (VBytes bs) rest prev stack) = Inr (bs, thrift_at rest prev stack)"
    if "length bs < 2 ^ 64" for bs rest prev stack
    unfolding ti_read_bytes_def using unat_of_nat_64 [OF that] by (simp add: field_at_def thrift_at_def)
  then show ?thesis by (simp add: reads_back_def)
qed

lemma match_field_step:
  assumes "thrift_lib_ok lib" "field_ok (fid, ty, wr v)" "map_of cases fid = Some (set_field rd put)"
    and "reads_back rd wr ok" "ok v"
  shows "field_step (match_field lib cases) s (fid, ty, wr v) (put v s)"
proof -
  have "unat (of_nat fid :: 16 word) = fid" using assms(2) by (simp add: unsigned_of_nat take_bit_nat_eq_self)
  then show ?thesis
    using assms by (auto simp: field_step_def match_field_def thrift_lib_ok_def set_field_def reads_back_def)
qed

lemma match_opt_field:
  assumes "thrift_lib_ok lib" "map_of cases fid = Some (set_field rd put)" "reads_back rd wr ok" "pred_option ok f"
    and "\<And>v. field_ok (fid, ty, wr v)" "f = None \<Longrightarrow> s = s1" "\<And>v. f = Some v \<Longrightarrow> put v s = s1"
  shows "field_steps (match_field lib cases) s (opt_field fid ty wr f) s1"
proof (cases f)
  case None
  then show ?thesis using assms(6) by (simp add: opt_field_def)
next
  case (Some v)
  then show ?thesis
    using match_field_step [OF assms(1,5,2,3), of v s] assms(4,7) by (simp add: opt_field_def)
qed

lemma match_required_field:
  assumes "thrift_lib_ok lib" "map_of cases fid = Some (set_field rd put)" "reads_back rd wr ok" "ok v"
    and "field_ok (fid, ty, wr v)" "put v s = s1" "field_steps (match_field lib cases) s1 fs s'"
  shows "field_steps (match_field lib cases) s ((fid, ty, wr v) # fs) s'"
  using match_field_step [OF assms(1,5,2,3,4), of s] assms(6,7) by auto

lemma required_Some: "thrift_lib_ok lib \<Longrightarrow> required lib (Some v) = Inr v"
  by (simp add: required_def thrift_lib_ok_def)

end
