(* ===== verification/Page_Header.thy ===== *)
theory Page_Header
  imports Thrift
begin

text \<open>
  Page headers: the Thrift structs of a page header with their readers and writers
  (\<open>glaredb_ext_parquet/src/format.rs\<close>), column statistics
  (\<open>glaredb_ext_parquet/src/metadata/statistics.rs\<close>), and the checked headers the page reader
  works with (\<open>glaredb_ext_parquet/src/page.rs\<close>).

  A reader keeps the fields it has met in optional variables; here these are the components of a
  tuple, or the fields of the record itself when the struct has optional fields only. Floating
  point values are their bit patterns.
\<close>

section \<open>Structs\<close>

datatype format_encoding = FormatEncoding "32 word"

datatype format_page_type = FormatPageType "32 word"

definition format_encoding_from :: "32 word \<Rightarrow> format_encoding" where
  "format_encoding_from i = FormatEncoding i"

definition format_page_type_from :: "32 word \<Rightarrow> format_page_type" where
  "format_page_type_from i = FormatPageType i"

definition DATA_PAGE :: format_page_type where "DATA_PAGE = FormatPageType 0"
definition INDEX_PAGE :: format_page_type where "INDEX_PAGE = FormatPageType 1"
definition DICTIONARY_PAGE :: format_page_type where "DICTIONARY_PAGE = FormatPageType 2"
definition DATA_PAGE_V2 :: format_page_type where "DATA_PAGE_V2 = FormatPageType 3"

definition read_format_encoding :: "thrift_in \<Rightarrow> (format_encoding \<times> thrift_in) result" where
  "read_format_encoding i = bind_result (ti_read_i32 i) (\<lambda>(v, i). Inr (format_encoding_from v, i))"

fun write_format_encoding :: "format_encoding \<Rightarrow> tvalue" where
  "write_format_encoding (FormatEncoding v) = VI32 v"

definition read_format_page_type :: "thrift_in \<Rightarrow> (format_page_type \<times> thrift_in) result" where
  "read_format_page_type i = bind_result (ti_read_i32 i) (\<lambda>(v, i). Inr (format_page_type_from v, i))"

fun write_format_page_type :: "format_page_type \<Rightarrow> tvalue" where
  "write_format_page_type (FormatPageType v) = VI32 v"

record format_statistics =
  fs_max :: "byte list option"
  fs_min :: "byte list option"
  fs_null_count :: "64 word option"
  fs_distinct_count :: "64 word option"
  fs_max_value :: "byte list option"
  fs_min_value :: "byte list option"
  fs_is_max_value_exact :: "bool option"
  fs_is_min_value_exact :: "bool option"

definition format_statistics_empty :: format_statistics where
  "format_statistics_empty = \<lparr>fs_max = None, fs_min = None, fs_null_count = None, fs_distinct_count = None,
     fs_max_value = None, fs_min_value = None, fs_is_max_value_exact = None, fs_is_min_value_exact = None\<rparr>"

definition statistics_fields :: "thrift_lib \<Rightarrow> format_statistics field_handler" where
  "statistics_fields lib = match_field lib
     [(1, set_field ti_read_bytes (\<lambda>v s. s\<lparr>fs_max := Some v\<rparr>)),
      (2, set_field ti_read_bytes (\<lambda>v s. s\<lparr>fs_min := Some v\<rparr>)),
      (3, set_field ti_read_i64 (\<lambda>v s. s\<lparr>fs_null_count := Some v\<rparr>)),
      (4, set_field ti_read_i64 (\<lambda>v s. s\<lparr>fs_distinct_count := Some v\<rparr>)),
      (5, set_field ti_read_bytes (\<lambda>v s. s\<lparr>fs_max_value := Some v\<rparr>)),
      (6, set_field ti_read_bytes (\<lambda>v s. s\<lparr>fs_min_value := Some v\<rparr>)),
      (7, set_field ti_read_bool (\<lambda>v s. s\<lparr>fs_is_max_value_exact := Some v\<rparr>)),
      (8, set_field ti_read_bool (\<lambda>v s. s\<lparr>fs_is_min_value_exact := Some v\<rparr>))]"

definition read_format_statistics :: "thrift_lib \<Rightarrow> thrift_in \<Rightarrow> (format_statistics \<times> thrift_in) result" where
  "read_format_statistics lib i = read_struct (statistics_fields lib) format_statistics_empty i"

definition write_format_statistics :: "format_statistics \<Rightarrow> tvalue" where
  "write_format_statistics s = VStruct
     (opt_field 1 TString VBytes (fs_max s) @ opt_field 2 TString VBytes (fs_min s)
      @ opt_field 3 TI64 VI64 (fs_null_count s) @ opt_field 4 TI64 VI64 (fs_distinct_count s)
      @ opt_field 5 TString VBytes (fs_max_value s) @ opt_field 6 TString VBytes (fs_min_value s)
      @ opt_field 7 TBool VBool (fs_is_max_value_exact s) @ opt_field 8 TBool VBool (fs_is_min_value_exact s))"

record format_data_page_header =
  fd_num_values :: "32 word"
  fd_encoding :: format_encoding
  fd_definition_level_encoding :: format_encoding
  fd_repetition_level_encoding :: format_encoding
  fd_statistics :: "format_statistics option"

type_synonym data_page_fields =
  "32 word option \<times> format_encoding option \<times> format_encoding option \<times> format_encoding option \<times> format_statistics option"

definition data_page_fields :: "thrift_lib \<Rightarrow> data_page_fields field_handler" where
  "data_page_fields lib = match_field lib
     [(1, set_field ti_read_i32 (\<lambda>v (_, b, c, d, e). (Some v, b, c, d, e))),
      (2, set_field read_format_encoding (\<lambda>v (a, _, c, d, e). (a, Some v, c, d, e))),
      (3, set_field read_format_encoding (\<lambda>v (a, b, _, d, e). (a, b, Some v, d, e))),
      (4, set_field read_format_encoding (\<lambda>v (a, b, c, _, e). (a, b, c, Some v, e))),
      (5, set_field (read_format_statistics lib) (\<lambda>v (a, b, c, d, _). (a, b, c, d, Some v)))]"

definition read_format_data_page_header :: "thrift_lib \<Rightarrow> thrift_in \<Rightarrow> (format_data_page_header \<times> thrift_in) result" where
  "read_format_data_page_header lib i =
     bind_result (read_struct (data_page_fields lib) (None, None, None, None, None) i) (\<lambda>((a, b, c, d, e), i).
     bind_result (required lib a) (\<lambda>a. bind_result (required lib b) (\<lambda>b.
     bind_result (required lib c) (\<lambda>c. bind_result (required lib d) (\<lambda>d.
     Inr (\<lparr>fd_num_values = a, fd_encoding = b, fd_definition_level_encoding = c,
            fd_repetition_level_encoding = d, fd_statistics = e\<rparr>, i))))))"

definition write_format_data_page_header :: "format_data_page_header \<Rightarrow> tvalue" where
  "write_format_data_page_header h = VStruct
     ([(1, TI32, VI32 (fd_num_values h)), (2, TI32, write_format_encoding (fd_encoding h)),
       (3, TI32, write_format_encoding (fd_definition_level_encoding h)),
       (4, TI32, write_format_encoding (fd_repetition_level_encoding h))]
      @ opt_field 5 TStruct write_format_statistics (fd_statistics h))"

definition index_page_fields :: "thrift_lib \<Rightarrow> unit field_handler" where
  "index_page_fields lib ty fid s i = bind_result (tl_skip lib ty i) (\<lambda>i. Inr ((), i))"

definition read_format_index_page_header :: "thrift_lib \<Rightarrow> thrift_in \<Rightarrow> (unit \<times> thrift_in) result" where
  "read_format_index_page_header lib i = read_struct (index_page_fields lib) () i"

definition write_format_index_page_header :: "unit \<Rightarrow> tvalue" where
  "write_format_index_page_header h = VStruct []"

record format_dictionary_page_header =
  fk_num_values :: "32 word"
  fk_encoding :: format_encoding
  fk_is_sorted :: "bool option"

definition dictionary_page_fields :: "thrift_lib \<Rightarrow> (32 word option \<times> format_encoding option \<times> bool option) field_handler" where
  "dictionary_page_fields lib = match_field lib
     [(1, set_field ti_read_i32 (\<lambda>v (_, b, c). (Some v, b, c))),
      (2, set_field read_format_encoding (\<lambda>v (a, _, c). (a, Some v, c))),
      (3, set_field ti_read_bool (\<lambda>v (a, b, _). (a, b, Some v)))]"

definition read_format_dictionary_page_header ::
    "thrift_lib \<Rightarrow> thrift_in \<Rightarrow> (format_dictionary_page_header \<times> thrift_in) result" where
  "read_format_dictionary_page_header lib i =
     bind_result (read_struct (dictionary_page_fields lib) (None, None, None) i) (\<lambda>((a, b, c), i).
     bind_result (required lib a) (\<lambda>a. bind_result (required lib b) (\<lambda>b.
     Inr (\<lparr>fk_num_values = a, fk_encoding = b, fk_is_sorted = c\<rparr>, i))))"

definition write_format_dictionary_page_header :: "format_dictionary_page_header \<Rightarrow> tvalue" where
  "write_format_dictionary_page_header h = VStruct
     ([(1, TI32, VI32 (fk_num_values h)), (2, TI32, write_format_encoding (fk_encoding h))]
      @ opt_field 3 TBool VBool (fk_is_sorted h))"

record format_data_page_header_v2 =
  f2_num_values :: "32 word"
  f2_num_nulls :: "32 word"
  f2_num_rows :: "32 word"
  f2_encoding :: format_encoding
  f2_definition_levels_byte_length :: "32 word"
  f2_repetition_levels_byte_length :: "32 word"
  f2_is_compressed :: "bool option"
  f2_statistics :: "format_statistics option"

type_synonym data_page_v2_fields =
  "32 word option \<times> 32 word option \<times> 32 word option \<times> format_encoding option \<times> 32 word option \<times> 32 word option
    \<times> bool option \<times> format_statistics option"

definition data_page_v2_fields :: "thrift_lib \<Rightarrow> data_page_v2_fields field_handler" where
  "data_page_v2_fields lib = match_field lib
     [(1, set_field ti_read_i32 (\<lambda>v (_, b, c, d, e, f, g, h). (Some v, b, c, d, e, f, g, h))),
      (2, set_field ti_read_i32 (\<lambda>v (a, _, c, d, e, f, g, h). (a, Some v, c, d, e, f, g, h))),
      (3, set_field ti_read_i32 (\<lambda>v (a, b, _, d, e, f, g, h). (a, b, Some v, d, e, f, g, h))),
      (4, set_field read_format_encoding (\<lambda>v (a, b, c, _, e, f, g, h). (a, b, c, Some v, e, f, g, h))),
      (5, set_field ti_read_i32 (\<lambda>v (a, b, c, d, _, f, g, h). (a, b, c, d, Some v, f, g, h))),
      (6, set_field ti_read_i32 (\<lambda>v (a, b, c, d, e, _, g, h). (a, b, c, d, e, Some v, g, h))),
      (7, set_field ti_read_bool (\<lambda>v (a, b, c, d, e, f, _, h). (a, b, c, d, e, f, Some v, h))),
      (8, set_field (read_format_statistics lib) (\<lambda>v (a, b, c, d, e, f, g, _). (a, b, c, d, e, f, g, Some v)))]"

definition read_format_data_page_header_v2 ::
    "thrift_lib \<Rightarrow> thrift_in \<Rightarrow> (format_data_page_header_v2 \<times> thrift_in) result" where
  "read_format_data_page_header_v2 lib i =
     bind_result (read_struct (data_page_v2_fields lib) (None, None, None, None, None, None, None, None) i)
       (\<lambda>((a, b, c, d, e, f, g, h), i).
     bind_result (required lib a) (\<lambda>a. bind_result (required lib b) (\<lambda>b. bind_result (required lib c) (\<lambda>c.
     bind_result (required lib d) (\<lambda>d. bind_result (required lib e) (\<lambda>e. bind_result (required lib f) (\<lambda>f.
     Inr (\<lparr>f2_num_values = a, f2_num_nulls = b, f2_num_rows = c, f2_encoding = d,
            f2_definition_levels_byte_length = e, f2_repetition_levels_byte_length = f,
            f2_is_compressed = g, f2_statistics = h\<rparr>, i))))))))"

definition write_format_data_page_header_v2 :: "format_data_page_header_v2 \<Rightarrow> tvalue" where
  "write_format_data_page_header_v2 h = VStruct
     ([(1, TI32, VI32 (f2_num_values h)), (2, TI32, VI32 (f2_num_nulls h)), (3, TI32, VI32 (f2_num_rows h)),
       (4, TI32, write_format_encoding (f2_encoding h)), (5, TI32, VI32 (f2_definition_levels_byte_length h)),
       (6, TI32, VI32 (f2_repetition_levels_byte_length h))]
      @ opt_field 7 TBool VBool (f2_is_compressed h)
      @ opt_field 8 TStruct write_format_statistics (f2_statistics h))"

record format_page_header =
  fp_type :: format_page_type
  fp_uncompressed_page_size :: "32 word"
  fp_compressed_page_size :: "32 word"
  fp_crc :: "32 word option"
  fp_data_page_header :: "format_data_page_header option"
  fp_index_page_header :: "unit option"
  fp_dictionary_page_header :: "format_dictionary_page_header option"
  fp_data_page_header_v2 :: "format_data_page_header_v2 option"

type_synonym page_header_fields =
  "format_page_type option \<times> 32 word option \<times> 32 word option \<times> 32 word option \<times> format_data_page_header option
    \<times> unit option \<times> format_dictionary_page_header option \<times> format_data_page_header_v2 option"

definition page_header_fields :: "thrift_lib \<Rightarrow> page_header_fields field_handler" where
  "page_header_fields lib = match_field lib
     [(1, set_field read_format_page_type (\<lambda>v (_, b, c, d, e, f, g, h). (Some v, b, c, d, e, f, g, h))),
      (2, set_field ti_read_i32 (\<lambda>v (a, _, c, d, e, f, g, h). (a, Some v, c, d, e, f, g, h))),
      (3, set_field ti_read_i32 (\<lambda>v (a, b, _, d, e, f, g, h). (a, b, Some v, d, e, f, g, h))),
      (4, set_field ti_read_i32 (\<lambda>v (a, b, c, _, e, f, g, h). (a, b, c, Some v, e, f, g, h))),
      (5, set_field (read_format_data_page_header lib) (\<lambda>v (a, b, c, d, _, f, g, h). (a, b, c, d, Some v, f, g, h))),
      (6, set_field (read_format_index_page_header lib) (\<lambda>v (a, b, c, d, e, _, g, h). (a, b, c, d, e, Some v, g, h))),
      (7, set_field (read_format_dictionary_page_header lib) (\<lambda>v (a, b, c, d, e, f, _, h). (a, b, c, d, e, f, Some v, h))),
      (8, set_field (read_format_data_page_header_v2 lib) (\<lambda>v (a, b, c, d, e, f, g, _). (a, b, c, d, e, f, g, Some v)))]"

definition read_format_page_header :: "thrift_lib \<Rightarrow> thrift_in \<Rightarrow> (format_page_header \<times> thrift_in) result" where
  "read_format_page_header lib i =
     bind_result (read_struct (page_header_fields lib) (None, None, None, None, None, None, None, None) i)
       (\<lambda>((a, b, c, d, e, f, g, h), i).
     bind_result (required lib a) (\<lambda>a. bind_result (required lib b) (\<lambda>b. bind_result (required lib c) (\<lambda>c.
     Inr (\<lparr>fp_type = a, fp_uncompressed_page_size = b, fp_compressed_page_size = c, fp_crc = d,
            fp_data_page_header = e, fp_index_page_header = f, fp_dictionary_page_header = g,
            fp_data_page_header_v2 = h\<rparr>, i)))))"

definition write_format_page_header :: "format_page_header \<Rightarrow> tvalue" where
  "write_format_page_header h = VStruct
     ([(1, TI32, write_format_page_type (fp_type h)), (2, TI32, VI32 (fp_uncompressed_page_size h)),
       (3, TI32, VI32 (fp_compressed_page_size h))]
      @ opt_field 4 TI32 VI32 (fp_crc h)
      @ opt_field 5 TStruct write_format_data_page_header (fp_data_page_header h)
      @ opt_field 6 TStruct write_format_index_page_header (fp_index_page_header h)
      @ opt_field 7 TStruct write_format_dictionary_page_header (fp_dictionary_page_header h)
      @ opt_field 8 TStruct write_format_data_page_header_v2 (fp_data_page_header_v2 h))"

section \<open>Structs are read back\<close>

lemma reads_back_format_encoding: "reads_back read_format_encoding write_format_encoding (\<lambda>_. True)"
proof -
  have "read_format_encoding (field_at (write_format_encoding e) rest prev stack) = Inr (e, thrift_at rest prev stack)"
    for e rest prev stack
    using reads_back_i32 by (cases e) (simp add: reads_back_def read_format_encoding_def format_encoding_from_def)
  then show ?thesis by (simp add: reads_back_def)
qed

lemma reads_back_format_page_type: "reads_back read_format_page_type write_format_page_type (\<lambda>_. True)"
proof -
  have "read_format_page_type (field_at (write_format_page_type t) rest prev stack) = Inr (t, thrift_at rest prev stack)"
    for t rest prev stack
    using reads_back_i32 by (cases t) (simp add: reads_back_def read_format_page_type_def format_page_type_from_def)
  then show ?thesis by (simp add: reads_back_def)
qed

lemma enum_not_bool [simp]: "\<not> is_bool_value (write_format_encoding e)" "\<not> is_bool_value (write_format_page_type t)"
  by (cases e; simp) (cases t; simp)

lemma struct_not_bool [simp]:
  "\<not> is_bool_value (write_format_statistics s)" "\<not> is_bool_value (write_format_data_page_header d)"
  "\<not> is_bool_value (write_format_index_page_header u)" "\<not> is_bool_value (write_format_dictionary_page_header k)"
  "\<not> is_bool_value (write_format_data_page_header_v2 h)"
  by (simp_all add: write_format_statistics_def write_format_data_page_header_def write_format_index_page_header_def
      write_format_dictionary_page_header_def write_format_data_page_header_v2_def)

definition format_statistics_ok :: "format_statistics \<Rightarrow> bool" where
  "format_statistics_ok s \<longleftrightarrow>
     (\<forall>f \<in> {fs_max s, fs_min s, fs_max_value s, fs_min_value s}. pred_option (\<lambda>bs. length bs < 2 ^ 64) f)"

lemma reads_back_format_statistics:
  assumes lib: "thrift_lib_ok lib"
  shows "reads_back (read_format_statistics lib) write_format_statistics format_statistics_ok"
proof -
  have "field_steps (statistics_fields lib) format_statistics_empty
      (opt_field 1 TString VBytes (fs_max s) @ opt_field 2 TString VBytes (fs_min s)
      @ opt_field 3 TI64 VI64 (fs_null_count s) @ opt_field 4 TI64 VI64 (fs_distinct_count s)
      @ opt_field 5 TString VBytes (fs_max_value s) @ opt_field 6 TString VBytes (fs_min_value s)
      @ opt_field 7 TBool VBool (fs_is_max_value_exact s) @ opt_field 8 TBool VBool (fs_is_min_value_exact s)) s"
    if "format_statistics_ok s" for s
  proof -
    let ?h = "statistics_fields lib" and ?e = format_statistics_empty
    let ?s1 = "?e\<lparr>fs_max := fs_max s\<rparr>"
    let ?s2 = "?s1\<lparr>fs_min := fs_min s\<rparr>"
    let ?s3 = "?s2\<lparr>fs_null_count := fs_null_count s\<rparr>"
    let ?s4 = "?s3\<lparr>fs_distinct_count := fs_distinct_count s\<rparr>"
    let ?s5 = "?s4\<lparr>fs_max_value := fs_max_value s\<rparr>"
    let ?s6 = "?s5\<lparr>fs_min_value := fs_min_value s\<rparr>"
    let ?s7 = "?s6\<lparr>fs_is_max_value_exact := fs_is_max_value_exact s\<rparr>"
    let ?s8 = "?s7\<lparr>fs_is_min_value_exact := fs_is_min_value_exact s\<rparr>"
    note h = statistics_fields_def and e = format_statistics_empty_def
    have ok: "pred_option (\<lambda>bs. length bs < 2 ^ 64) (fs_max s)" "pred_option (\<lambda>bs. length bs < 2 ^ 64) (fs_min s)"
        "pred_option (\<lambda>bs. length bs < 2 ^ 64) (fs_max_value s)" "pred_option (\<lambda>bs. length bs < 2 ^ 64) (fs_min_value s)"
      using that by (auto simp: format_statistics_ok_def)
    have "field_steps ?h ?e (opt_field 1 TString VBytes (fs_max s)) ?s1"
      unfolding h by (rule match_opt_field [OF lib _ reads_back_bytes], simp) (simp_all add: e option.pred_True ok [simplified])
    moreover have "field_steps ?h ?s1 (opt_field 2 TString VBytes (fs_min s)) ?s2"
      unfolding h by (rule match_opt_field [OF lib _ reads_back_bytes], simp) (simp_all add: e option.pred_True ok [simplified])
    moreover have "field_steps ?h ?s2 (opt_field 3 TI64 VI64 (fs_null_count s)) ?s3"
      unfolding h by (rule match_opt_field [OF lib _ reads_back_i64], simp) (simp_all add: e option.pred_True ok [simplified])
    moreover have "field_steps ?h ?s3 (opt_field 4 TI64 VI64 (fs_distinct_count s)) ?s4"
      unfolding h by (rule match_opt_field [OF lib _ reads_back_i64], simp) (simp_all add: e option.pred_True ok [simplified])
    moreover have "field_steps ?h ?s4 (opt_field 5 TString VBytes (fs_max_value s)) ?s5"
      unfolding h by (rule match_opt_field [OF lib _ reads_back_bytes], simp) (simp_all add: e option.pred_True ok [simplified])
    moreover have "field_steps ?h ?s5 (opt_field 6 TString VBytes (fs_min_value s)) ?s6"
      unfolding h by (rule match_opt_field [OF lib _ reads_back_bytes], simp) (simp_all add: e option.pred_True ok [simplified])
    moreover have "field_steps ?h ?s6 (opt_field 7 TBool VBool (fs_is_max_value_exact s)) ?s7"
      unfolding h by (rule match_opt_field [OF lib _ reads_back_bool], simp) (simp_all add: e option.pred_True ok [simplified])
    moreover have "field_steps ?h ?s7 (opt_field 8 TBool VBool (fs_is_min_value_exact s)) ?s8"
      unfolding h by (rule match_opt_field [OF lib _ reads_back_bool], simp) (simp_all add: e option.pred_True ok [simplified])
    moreover have s: "?s8 = s" by (simp add: e)
    ultimately show ?thesis by (intro field_steps_append) (simp_all only: s)
  qed
  then show ?thesis
    unfolding reads_back_def read_format_statistics_def write_format_statistics_def by (simp add: read_struct_steps)
qed

lemma reads_back_struct:
  assumes "\<And>v. wr v = VStruct (fs v)" and "\<And>v. ok v \<Longrightarrow> field_steps h s0 (fs v) (st v)"
    and "\<And>v i. finish (st v, i) = Inr (v, i)"
  shows "reads_back (\<lambda>i. bind_result (read_struct h s0 i) finish) wr ok"
  using assms read_struct_steps by (fastforce simp: reads_back_def)

definition format_data_page_header_ok :: "format_data_page_header \<Rightarrow> bool" where
  "format_data_page_header_ok h \<longleftrightarrow> pred_option format_statistics_ok (fd_statistics h)"

lemma reads_back_format_data_page_header:
  assumes lib: "thrift_lib_ok lib"
  shows "reads_back (read_format_data_page_header lib) write_format_data_page_header format_data_page_header_ok"
proof -
  let ?g = "\<lambda>v x. (Some (fd_num_values v), Some (fd_encoding v), Some (fd_definition_level_encoding v),
      Some (fd_repetition_level_encoding v), x)"
  have req: "field_steps (data_page_fields lib) (None, None, None, None, None)
      [(1, TI32, VI32 (fd_num_values v)), (2, TI32, write_format_encoding (fd_encoding v)),
       (3, TI32, write_format_encoding (fd_definition_level_encoding v)),
       (4, TI32, write_format_encoding (fd_repetition_level_encoding v))] (?g v None)" for v
    unfolding data_page_fields_def
    by (rule match_required_field [OF lib _ reads_back_i32] match_required_field [OF lib _ reads_back_format_encoding]
        | simp)+
  have "field_steps (data_page_fields lib) (?g v None)
      (opt_field 5 TStruct write_format_statistics (fd_statistics v)) (?g v (fd_statistics v))"
    if "format_data_page_header_ok v" for v
    unfolding data_page_fields_def using that
    by (intro match_opt_field [OF lib _ reads_back_format_statistics [OF lib]], simp)
       (simp_all add: format_data_page_header_ok_def)
  from field_steps_append [OF req this] show ?thesis
    unfolding read_format_data_page_header_def [abs_def]
    by (rule reads_back_struct [OF write_format_data_page_header_def]) (simp_all add: required_Some [OF lib])
qed

lemma reads_back_format_index_page_header:
  "reads_back (read_format_index_page_header lib) write_format_index_page_header (\<lambda>_. True)"
  by (auto simp: reads_back_def read_format_index_page_header_def write_format_index_page_header_def
      intro!: read_struct_steps)

lemma reads_back_format_dictionary_page_header:
  assumes lib: "thrift_lib_ok lib"
  shows "reads_back (read_format_dictionary_page_header lib) write_format_dictionary_page_header (\<lambda>_. True)"
proof -
  let ?g = "\<lambda>v x. (Some (fk_num_values v), Some (fk_encoding v), x)"
  have req: "field_steps (dictionary_page_fields lib) (None, None, None)
      [(1, TI32, VI32 (fk_num_values v)), (2, TI32, write_format_encoding (fk_encoding v))] (?g v None)" for v
    unfolding dictionary_page_fields_def
    by (rule match_required_field [OF lib _ reads_back_i32] match_required_field [OF lib _ reads_back_format_encoding]
        | simp)+
  have "field_steps (dictionary_page_fields lib) (?g v None) (opt_field 3 TBool VBool (fk_is_sorted v))
      (?g v (fk_is_sorted v))" for v
    unfolding dictionary_page_fields_def
    by (intro match_opt_field [OF lib _ reads_back_bool], simp) (simp_all add: option.pred_True)
  note steps = field_steps_append [OF req this]
  show ?thesis
    unfolding read_format_dictionary_page_header_def [abs_def]
    by (rule reads_back_struct [OF write_format_dictionary_page_header_def steps]) (simp_all add: required_Some [OF lib])
qed

definition format_data_page_header_v2_ok :: "format_data_page_header_v2 \<Rightarrow> bool" where
  "format_data_page_header_v2_ok h \<longleftrightarrow> pred_option format_statistics_ok (f2_statistics h)"

lemma reads_back_format_data_page_header_v2:
  assumes lib: "thrift_lib_ok lib"
  shows "reads_back (read_format_data_page_header_v2 lib) write_format_data_page_header_v2 format_data_page_header_v2_ok"
proof -
  let ?g = "\<lambda>v x y. (Some (f2_num_values v), Some (f2_num_nulls v), Some (f2_num_rows v), Some (f2_encoding v),
      Some (f2_definition_levels_byte_length v), Some (f2_repetition_levels_byte_length v), x, y)"
  have req: "field_steps (data_page_v2_fields lib) (None, None, None, None, None, None, None, None)
      [(1, TI32, VI32 (f2_num_values v)), (2, TI32, VI32 (f2_num_nulls v)), (3, TI32, VI32 (f2_num_rows v)),
       (4, TI32, write_format_encoding (f2_encoding v)), (5, TI32, VI32 (f2_definition_levels_byte_length v)),
       (6, TI32, VI32 (f2_repetition_levels_byte_length v))] (?g v None None)" for v
    unfolding data_page_v2_fields_def
    by (rule match_required_field [OF lib _ reads_back_i32] match_required_field [OF lib _ reads_back_format_encoding]
        | simp)+
  have comp: "field_steps (data_page_v2_fields lib) (?g v None None) (opt_field 7 TBool VBool (f2_is_compressed v))
      (?g v (f2_is_compressed v) None)" for v
    unfolding data_page_v2_fields_def
    by (intro match_opt_field [OF lib _ reads_back_bool], simp) (simp_all add: option.pred_True)
  have "field_steps (data_page_v2_fields lib) (?g v (f2_is_compressed v) None)
      (opt_field 8 TStruct write_format_statistics (f2_statistics v)) (?g v (f2_is_compressed v) (f2_statistics v))"
    if "format_data_page_header_v2_ok v" for v
    unfolding data_page_v2_fields_def using that
    by (intro match_opt_field [OF lib _ reads_back_format_statistics [OF lib]], simp)
       (simp_all add: format_data_page_header_v2_ok_def)
  from field_steps_append [OF req field_steps_append [OF comp this]] show ?thesis
    unfolding read_format_data_page_header_v2_def [abs_def]
    by (rule reads_back_struct [OF write_format_data_page_header_v2_def]) (simp_all add: required_Some [OF lib])
qed

definition format_page_header_ok :: "format_page_header \<Rightarrow> bool" where
  "format_page_header_ok h \<longleftrightarrow> pred_option format_data_page_header_ok (fp_data_page_header h)
     \<and> pred_option format_data_page_header_v2_ok (fp_data_page_header_v2 h)"

lemma reads_back_format_page_header:
  assumes lib: "thrift_lib_ok lib"
  shows "reads_back (read_format_page_header lib) write_format_page_header format_page_header_ok"
proof -
  let ?h = "page_header_fields lib"
  let ?g = "\<lambda>v x. (Some (fp_type v), Some (fp_uncompressed_page_size v), Some (fp_compressed_page_size v), x)"
  have req: "field_steps ?h (None, None, None, None, None, None, None, None)
      [(1, TI32, write_format_page_type (fp_type v)), (2, TI32, VI32 (fp_uncompressed_page_size v)),
       (3, TI32, VI32 (fp_compressed_page_size v))] (?g v (None, None, None, None, None))" for v
    unfolding page_header_fields_def
    by (rule match_required_field [OF lib _ reads_back_i32] match_required_field [OF lib _ reads_back_format_page_type]
        | simp)+
  have crc: "field_steps ?h (?g v (None, None, None, None, None)) (opt_field 4 TI32 VI32 (fp_crc v))
      (?g v (fp_crc v, None, None, None, None))" for v
    unfolding page_header_fields_def
    by (intro match_opt_field [OF lib _ reads_back_i32], simp) (simp_all add: option.pred_True)
  have index: "field_steps ?h (?g v (c, d, None, None, None))
      (opt_field 6 TStruct write_format_index_page_header (fp_index_page_header v))
      (?g v (c, d, fp_index_page_header v, None, None))" for v c d
    unfolding page_header_fields_def
    by (intro match_opt_field [OF lib _ reads_back_format_index_page_header], simp) (simp_all add: option.pred_True)
  have dict: "field_steps ?h (?g v (c, d, x, None, None))
      (opt_field 7 TStruct write_format_dictionary_page_header (fp_dictionary_page_header v))
      (?g v (c, d, x, fp_dictionary_page_header v, None))" for v c d x
    unfolding page_header_fields_def
    by (intro match_opt_field [OF lib _ reads_back_format_dictionary_page_header [OF lib]], simp)
       (simp_all add: option.pred_True)
  have data: "field_steps ?h (?g v (c, None, None, None, None))
      (opt_field 5 TStruct write_format_data_page_header (fp_data_page_header v))
      (?g v (c, fp_data_page_header v, None, None, None))"
    if "format_page_header_ok v" for v c
    unfolding page_header_fields_def using that
    by (intro match_opt_field [OF lib _ reads_back_format_data_page_header [OF lib]], simp)
       (simp_all add: format_page_header_ok_def)
  have "field_steps ?h (?g v (c, d, x, k, None))
      (opt_field 8 TStruct write_format_data_page_header_v2 (fp_data_page_header_v2 v))
      (?g v (c, d, x, k, fp_data_page_header_v2 v))"
    if "format_page_header_ok v" for v c d x k
    unfolding page_header_fields_def using that
    by (intro match_opt_field [OF lib _ reads_back_format_data_page_header_v2 [OF lib]], simp)
       (simp_all add: format_page_header_ok_def)
  note rest = field_steps_append [OF data field_steps_append [OF index field_steps_append [OF dict this]]]
  show ?thesis
    unfolding read_format_page_header_def [abs_def]
    by (rule reads_back_struct [OF write_format_page_header_def field_steps_append [OF req field_steps_append [OF crc rest]]])
       (simp_all add: required_Some [OF lib])
qed

end
