(* ===== verification/Column_Statistics.thy ===== *)
theory Column_Statistics
  imports Page_Header
begin

text \<open>
  Column statistics: the typed statistics of a column chunk or page and their conversion from and
  to the Thrift struct (\<open>glaredb_ext_parquet/src/metadata/statistics.rs\<close>). Floating point values
  are their bit patterns, so that equality of statistics is equality of bits. Indexing past the end
  of a stored value and failed assertions are panics.
\<close>

section \<open>Typed statistics\<close>

datatype parquet_type = BOOLEAN | INT32 | INT64 | INT96 | FLOAT | DOUBLE | BYTE_ARRAY | FIXED_LEN_BYTE_ARRAY

datatype int96 = Int96 "32 word" "32 word" "32 word"

record 'v value_statistics =
  vs_min :: "'v option"
  vs_max :: "'v option"
  vs_distinct_count :: "u64 option"
  vs_null_count :: u64
  vs_max_exact :: bool
  vs_min_exact :: bool
  vs_deprecated :: bool
  vs_backwards :: bool

definition value_statistics_new ::
    "'v option \<Rightarrow> 'v option \<Rightarrow> u64 option \<Rightarrow> u64 \<Rightarrow> bool \<Rightarrow> 'v value_statistics" where
  "value_statistics_new mn mx ndv nulls deprecated =
     \<lparr>vs_min = mn, vs_max = mx, vs_distinct_count = ndv, vs_null_count = nulls, vs_max_exact = mx \<noteq> None,
      vs_min_exact = mn \<noteq> None, vs_deprecated = deprecated, vs_backwards = deprecated\<rparr>"

datatype column_statistics =
    StatBoolean "bool value_statistics"
  | StatInt32 "32 word value_statistics"
  | StatInt64 "64 word value_statistics"
  | StatInt96 "int96 value_statistics"
  | StatFloat "32 word value_statistics"
  | StatDouble "64 word value_statistics"
  | StatByteArray "byte list value_statistics"
  | StatFixedLenByteArray "byte list value_statistics"

definition bool_as_bytes :: "bool \<Rightarrow> byte list" where
  "bool_as_bytes b = [if b then 1 else 0]"

fun int96_as_bytes :: "int96 \<Rightarrow> byte list" where
  "int96_as_bytes (Int96 a b c) = to_le_bytes a @ to_le_bytes b @ to_le_bytes c"

fun has_min_max_set :: "column_statistics \<Rightarrow> bool" where
  "has_min_max_set (StatBoolean v) = (vs_min v \<noteq> None \<and> vs_max v \<noteq> None)"
| "has_min_max_set (StatInt32 v) = (vs_min v \<noteq> None \<and> vs_max v \<noteq> None)"
| "has_min_max_set (StatInt64 v) = (vs_min v \<noteq> None \<and> vs_max v \<noteq> None)"
| "has_min_max_set (StatInt96 v) = (vs_min v \<noteq> None \<and> vs_max v \<noteq> None)"
| "has_min_max_set (StatFloat v) = (vs_min v \<noteq> None \<and> vs_max v \<noteq> None)"
| "has_min_max_set (StatDouble v) = (vs_min v \<noteq> None \<and> vs_max v \<noteq> None)"
| "has_min_max_set (StatByteArray v) = (vs_min v \<noteq> None \<and> vs_max v \<noteq> None)"
| "has_min_max_set (StatFixedLenByteArray v) = (vs_min v \<noteq> None \<and> vs_max v \<noteq> None)"

fun min_as_bytes :: "column_statistics \<Rightarrow> byte list option" where
  "min_as_bytes (StatBoolean v) = map_option bool_as_bytes (vs_min v)"
| "min_as_bytes (StatInt32 v) = map_option to_le_bytes (vs_min v)"
| "min_as_bytes (StatInt64 v) = map_option to_le_bytes (vs_min v)"
| "min_as_bytes (StatInt96 v) = map_option int96_as_bytes (vs_min v)"
| "min_as_bytes (StatFloat v) = map_option to_le_bytes (vs_min v)"
| "min_as_bytes (StatDouble v) = map_option to_le_bytes (vs_min v)"
| "min_as_bytes (StatByteArray v) = map_option (\<lambda>bs. bs) (vs_min v)"
| "min_as_bytes (StatFixedLenByteArray v) = map_option (\<lambda>bs. bs) (vs_min v)"

fun max_as_bytes :: "column_statistics \<Rightarrow> byte list option" where
  "max_as_bytes (StatBoolean v) = map_option bool_as_bytes (vs_max v)"
| "max_as_bytes (StatInt32 v) = map_option to_le_bytes (vs_max v)"
| "max_as_bytes (StatInt64 v) = map_option to_le_bytes (vs_max v)"
| "max_as_bytes (StatInt96 v) = map_option int96_as_bytes (vs_max v)"
| "max_as_bytes (StatFloat v) = map_option to_le_bytes (vs_max v)"
| "max_as_bytes (StatDouble v) = map_option to_le_bytes (vs_max v)"
| "max_as_bytes (StatByteArray v) = map_option (\<lambda>bs. bs) (vs_max v)"
| "max_as_bytes (StatFixedLenByteArray v) = map_option (\<lambda>bs. bs) (vs_max v)"

fun is_min_max_deprecated :: "column_statistics \<Rightarrow> bool" where
  "is_min_max_deprecated (StatBoolean v) = vs_deprecated v"
| "is_min_max_deprecated (StatInt32 v) = vs_deprecated v"
| "is_min_max_deprecated (StatInt64 v) = vs_deprecated v"
| "is_min_max_deprecated (StatInt96 v) = vs_deprecated v"
| "is_min_max_deprecated (StatFloat v) = vs_deprecated v"
| "is_min_max_deprecated (StatDouble v) = vs_deprecated v"
| "is_min_max_deprecated (StatByteArray v) = vs_deprecated v"
| "is_min_max_deprecated (StatFixedLenByteArray v) = vs_deprecated v"

fun is_min_max_backwards_compatible :: "column_statistics \<Rightarrow> bool" where
  "is_min_max_backwards_compatible (StatBoolean v) = vs_backwards v"
| "is_min_max_backwards_compatible (StatInt32 v) = vs_backwards v"
| "is_min_max_backwards_compatible (StatInt64 v) = vs_backwards v"
| "is_min_max_backwards_compatible (StatInt96 v) = vs_backwards v"
| "is_min_max_backwards_compatible (StatFloat v) = vs_backwards v"
| "is_min_max_backwards_compatible (StatDouble v) = vs_backwards v"
| "is_min_max_backwards_compatible (StatByteArray v) = vs_backwards v"
| "is_min_max_backwards_compatible (StatFixedLenByteArray v) = vs_backwards v"

fun stat_distinct_count :: "column_statistics \<Rightarrow> u64 option" where
  "stat_distinct_count (StatBoolean v) = vs_distinct_count v"
| "stat_distinct_count (StatInt32 v) = vs_distinct_count v"
| "stat_distinct_count (StatInt64 v) = vs_distinct_count v"
| "stat_distinct_count (StatInt96 v) = vs_distinct_count v"
| "stat_distinct_count (StatFloat v) = vs_distinct_count v"
| "stat_distinct_count (StatDouble v) = vs_distinct_count v"
| "stat_distinct_count (StatByteArray v) = vs_distinct_count v"
| "stat_distinct_count (StatFixedLenByteArray v) = vs_distinct_count v"

fun stat_null_count :: "column_statistics \<Rightarrow> u64" where
  "stat_null_count (StatBoolean v) = vs_null_count v"
| "stat_null_count (StatInt32 v) = vs_null_count v"
| "stat_null_count (StatInt64 v) = vs_null_count v"
| "stat_null_count (StatInt96 v) = vs_null_count v"
| "stat_null_count (StatFloat v) = vs_null_count v"
| "stat_null_count (StatDouble v) = vs_null_count v"
| "stat_null_count (StatByteArray v) = vs_null_count v"
| "stat_null_count (StatFixedLenByteArray v) = vs_null_count v"

definition stat_has_nulls :: "column_statistics \<Rightarrow> bool" where
  "stat_has_nulls s \<longleftrightarrow> 0 < stat_null_count s"

fun stat_min_is_exact :: "column_statistics \<Rightarrow> bool" where
  "stat_min_is_exact (StatBoolean v) = vs_min_exact v"
| "stat_min_is_exact (StatInt32 v) = vs_min_exact v"
| "stat_min_is_exact (StatInt64 v) = vs_min_exact v"
| "stat_min_is_exact (StatInt96 v) = vs_min_exact v"
| "stat_min_is_exact (StatFloat v) = vs_min_exact v"
| "stat_min_is_exact (StatDouble v) = vs_min_exact v"
| "stat_min_is_exact (StatByteArray v) = vs_min_exact v"
| "stat_min_is_exact (StatFixedLenByteArray v) = vs_min_exact v"

fun stat_max_is_exact :: "column_statistics \<Rightarrow> bool" where
  "stat_max_is_exact (StatBoolean v) = vs_max_exact v"
| "stat_max_is_exact (StatInt32 v) = vs_max_exact v"
| "stat_max_is_exact (StatInt64 v) = vs_max_exact v"
| "stat_max_is_exact (StatInt96 v) = vs_max_exact v"
| "stat_max_is_exact (StatFloat v) = vs_max_exact v"
| "stat_max_is_exact (StatDouble v) = vs_max_exact v"
| "stat_max_is_exact (StatByteArray v) = vs_max_exact v"
| "stat_max_is_exact (StatFixedLenByteArray v) = vs_max_exact v"

fun stat_physical_type :: "column_statistics \<Rightarrow> parquet_type" where
  "stat_physical_type (StatBoolean v) = BOOLEAN"
| "stat_physical_type (StatInt32 v) = INT32"
| "stat_physical_type (StatInt64 v) = INT64"
| "stat_physical_type (StatInt96 v) = INT96"
| "stat_physical_type (StatFloat v) = FLOAT"
| "stat_physical_type (StatDouble v) = DOUBLE"
| "stat_physical_type (StatByteArray v) = BYTE_ARRAY"
| "stat_physical_type (StatFixedLenByteArray v) = FIXED_LEN_BYTE_ARRAY"

section \<open>Conversion from Thrift\<close>

definition bool_of_bytes :: "byte list \<Rightarrow> bool result" where
  "bool_of_bytes data = (case data of [] \<Rightarrow> Inl (Panic ''index out of bounds'') | b # _ \<Rightarrow> Inr (b \<noteq> 0))"

definition word_of_bytes :: "byte list \<Rightarrow> 'a::len word result" where
  "word_of_bytes data =
     (if length data < LENGTH('a) div 8 then Inl (Panic ''range end index out of range'')
      else Inr (from_le_bytes (take (LENGTH('a) div 8) data)))"

definition int96_of_bytes :: "byte list \<Rightarrow> int96 result" where
  "int96_of_bytes data =
     (if length data \<noteq> 12 then Inl (Panic ''assertion failed'')
      else Inr (Int96 (from_le_bytes (take 4 data)) (from_le_bytes (take 4 (drop 4 data)))
                      (from_le_bytes (take 4 (drop 8 data)))))"

definition map_stat :: "(byte list \<Rightarrow> 'v result) \<Rightarrow> byte list option \<Rightarrow> 'v option result" where
  "map_stat f data = (case data of None \<Rightarrow> Inr None | Some bs \<Rightarrow> bind_result (f bs) (\<lambda>v. Inr (Some v)))"

definition typed_stats ::
    "(byte list \<Rightarrow> 'v result) \<Rightarrow> byte list option \<Rightarrow> byte list option \<Rightarrow> u64 option \<Rightarrow> u64 \<Rightarrow> bool
      \<Rightarrow> 'v value_statistics result" where
  "typed_stats f mn mx ndv nulls old_format =
     bind_result (map_stat f mn) (\<lambda>mn. bind_result (map_stat f mx) (\<lambda>mx.
       Inr (value_statistics_new mn mx ndv nulls old_format)))"

definition byte_array_stats ::
    "format_statistics \<Rightarrow> byte list option \<Rightarrow> byte list option \<Rightarrow> u64 option \<Rightarrow> u64 \<Rightarrow> bool
      \<Rightarrow> byte list value_statistics" where
  "byte_array_stats stats mn mx ndv nulls old_format =
     \<lparr>vs_min = mn, vs_max = mx, vs_distinct_count = ndv, vs_null_count = nulls,
      vs_max_exact = (case fs_is_max_value_exact stats of Some b \<Rightarrow> b | None \<Rightarrow> False),
      vs_min_exact = (case fs_is_min_value_exact stats of Some b \<Rightarrow> b | None \<Rightarrow> False),
      vs_deprecated = old_format, vs_backwards = old_format\<rparr>"

definition map_result :: "('v \<Rightarrow> 'w) \<Rightarrow> 'v result \<Rightarrow> 'w result" where
  "map_result f r = bind_result r (\<lambda>v. Inr (f v))"

definition stats_of_type ::
    "parquet_type \<Rightarrow> format_statistics \<Rightarrow> byte list option \<Rightarrow> byte list option \<Rightarrow> u64 option \<Rightarrow> u64 \<Rightarrow> bool
      \<Rightarrow> column_statistics result" where
  "stats_of_type physical stats mn mx ndv nulls old_format =
     (case physical of
        BOOLEAN \<Rightarrow> map_result StatBoolean (typed_stats bool_of_bytes mn mx ndv nulls old_format)
      | INT32 \<Rightarrow> map_result StatInt32 (typed_stats word_of_bytes mn mx ndv nulls old_format)
      | INT64 \<Rightarrow> map_result StatInt64 (typed_stats word_of_bytes mn mx ndv nulls old_format)
      | INT96 \<Rightarrow> map_result StatInt96 (typed_stats int96_of_bytes mn mx ndv nulls old_format)
      | FLOAT \<Rightarrow> map_result StatFloat (typed_stats word_of_bytes mn mx ndv nulls old_format)
      | DOUBLE \<Rightarrow> map_result StatDouble (typed_stats word_of_bytes mn mx ndv nulls old_format)
      | BYTE_ARRAY \<Rightarrow> Inr (StatByteArray (byte_array_stats stats mn mx ndv nulls old_format))
      | FIXED_LEN_BYTE_ARRAY \<Rightarrow> Inr (StatFixedLenByteArray (byte_array_stats stats mn mx ndv nulls old_format)))"

definition from_thrift :: "parquet_type \<Rightarrow> format_statistics option \<Rightarrow> column_statistics option result" where
  "from_thrift physical thrift_stats =
     (case thrift_stats of
        None \<Rightarrow> Inr None
      | Some stats \<Rightarrow>
          let null_count = (case fs_null_count stats of Some n \<Rightarrow> n | None \<Rightarrow> 0)
          in if sint null_count < 0 then Inl (DbError ''Statistics null count is negative'')
             else let old_format = (fs_min_value stats = None \<and> fs_max_value stats = None);
                      mn = (if old_format then fs_min stats else fs_min_value stats);
                      mx = (if old_format then fs_max stats else fs_max_value stats)
                  in map_result Some (stats_of_type physical stats mn mx (fs_distinct_count stats) null_count old_format))"

section \<open>Conversion to Thrift\<close>

definition to_thrift :: "column_statistics option \<Rightarrow> format_statistics option" where
  "to_thrift stats =
     (case stats of
        None \<Rightarrow> None
      | Some stats \<Rightarrow>
          let thrift_stats = format_statistics_empty
                \<lparr>fs_null_count := (if stat_has_nulls stats then Some (stat_null_count stats) else None),
                 fs_distinct_count := stat_distinct_count stats\<rparr>;
              (mn, min_exact, mx, max_exact) =
                (case (min_as_bytes stats, max_as_bytes stats) of
                   (Some mn, Some mx) \<Rightarrow> (Some mn, Some (stat_min_is_exact stats), Some mx, Some (stat_max_is_exact stats))
                 | _ \<Rightarrow> (None, None, None, None));
              thrift_stats = (if is_min_max_backwards_compatible stats
                              then thrift_stats\<lparr>fs_min := mn, fs_max := mx\<rparr> else thrift_stats);
              thrift_stats = (if \<not> is_min_max_deprecated stats
                              then thrift_stats\<lparr>fs_min_value := mn, fs_max_value := mx\<rparr> else thrift_stats)
          in Some (thrift_stats\<lparr>fs_is_min_value_exact := min_exact, fs_is_max_value_exact := max_exact\<rparr>))"

section \<open>Round trip\<close>

text \<open>
  Statistics survive the conversion exactly when they have the shape of statistics that were read:
  a null count that is not negative as a signed number, both bounds or none, the deprecated form
  exactly when it is also the backwards compatible one, no bounds only in the deprecated form, and
  exactness flags that a reader can reconstruct.
\<close>

definition read_shape :: "bool \<Rightarrow> 'v value_statistics \<Rightarrow> bool" where
  "read_shape typed v \<longleftrightarrow>
     unat (vs_null_count v) < 2 ^ 63 \<and> (vs_min v = None \<longleftrightarrow> vs_max v = None) \<and> vs_backwards v = vs_deprecated v \<and>
     (if vs_min v = None then vs_deprecated v \<and> \<not> vs_min_exact v \<and> \<not> vs_max_exact v
      else typed \<longrightarrow> vs_min_exact v \<and> vs_max_exact v)"

fun stat_read_shape :: "column_statistics \<Rightarrow> bool" where
  "stat_read_shape (StatBoolean v) = read_shape True v"
| "stat_read_shape (StatInt32 v) = read_shape True v"
| "stat_read_shape (StatInt64 v) = read_shape True v"
| "stat_read_shape (StatInt96 v) = read_shape True v"
| "stat_read_shape (StatFloat v) = read_shape True v"
| "stat_read_shape (StatDouble v) = read_shape True v"
| "stat_read_shape (StatByteArray v) = read_shape False v"
| "stat_read_shape (StatFixedLenByteArray v) = read_shape False v"

lemma sint_neg_iff: "sint (w :: u64) < 0 \<longleftrightarrow> \<not> unat w < 2 ^ 63"
proof -
  have "sint w < 0 \<longleftrightarrow> bit w 63" using bit_last_iff [of w] by simp
  also have "bit w 63 \<longleftrightarrow> bit (unat w) 63" by (simp add: bit_unsigned_iff)
  also have "\<dots> \<longleftrightarrow> odd (unat w div 2 ^ 63)" by (simp only: bit_iff_odd)
  also have "\<dots> \<longleftrightarrow> \<not> unat w < 2 ^ 63"
  proof -
    have "unat w < 2 ^ 63 * 2" using unsigned_less [of w, where 'a = nat] by simp
    then have "unat w div 2 ^ 63 < 2" by (simp only: less_mult_imp_div_less mult.commute)
    moreover have "unat w div 2 ^ 63 = 0 \<longleftrightarrow> unat w < 2 ^ 63" by (simp add: div_eq_0_iff)
    ultimately show ?thesis by (cases "unat w div 2 ^ 63 = 0") (auto simp: less_2_cases_iff)
  qed
  finally show ?thesis .
qed

lemma bytes_back [simp]:
  "bool_of_bytes (bool_as_bytes b) = Inr b" "int96_of_bytes (int96_as_bytes t) = Inr t"
  "8 dvd LENGTH('a) \<Longrightarrow> word_of_bytes (to_le_bytes (w :: 'a::len word)) = Inr w"
  by (simp_all add: bool_of_bytes_def bool_as_bytes_def word_of_bytes_def int96_of_bytes_def from_to_le_bytes)
     (cases t, simp add: from_to_le_bytes)

definition thrift_of :: "('v \<Rightarrow> byte list) \<Rightarrow> 'v value_statistics \<Rightarrow> format_statistics" where
  "thrift_of as_bytes v =
     (let both = (vs_min v \<noteq> None \<and> vs_max v \<noteq> None);
          mn = (if both then map_option as_bytes (vs_min v) else None);
          mx = (if both then map_option as_bytes (vs_max v) else None)
      in \<lparr>fs_max = (if vs_backwards v then mx else None), fs_min = (if vs_backwards v then mn else None),
          fs_null_count = (if 0 < vs_null_count v then Some (vs_null_count v) else None),
          fs_distinct_count = vs_distinct_count v,
          fs_max_value = (if vs_deprecated v then None else mx), fs_min_value = (if vs_deprecated v then None else mn),
          fs_is_max_value_exact = (if both then Some (vs_max_exact v) else None),
          fs_is_min_value_exact = (if both then Some (vs_min_exact v) else None)\<rparr>)"

lemmas thrift_defs = to_thrift_def thrift_of_def stat_has_nulls_def format_statistics_empty_def Let_def

lemma to_thrift_Some [simp]:
  "to_thrift (Some (StatBoolean b)) = Some (thrift_of bool_as_bytes b)"
  "to_thrift (Some (StatInt32 w)) = Some (thrift_of to_le_bytes w)"
  "to_thrift (Some (StatInt64 d)) = Some (thrift_of to_le_bytes d)"
  "to_thrift (Some (StatInt96 i)) = Some (thrift_of int96_as_bytes i)"
  "to_thrift (Some (StatFloat w)) = Some (thrift_of to_le_bytes w)"
  "to_thrift (Some (StatDouble d)) = Some (thrift_of to_le_bytes d)"
  "to_thrift (Some (StatByteArray a)) = Some (thrift_of (\<lambda>bs. bs) a)"
  "to_thrift (Some (StatFixedLenByteArray a)) = Some (thrift_of (\<lambda>bs. bs) a)"
  by (auto simp: thrift_defs split: option.splits)

definition read_stats ::
    "(format_statistics \<Rightarrow> byte list option \<Rightarrow> byte list option \<Rightarrow> u64 option \<Rightarrow> u64 \<Rightarrow> bool \<Rightarrow> 'v value_statistics result)
      \<Rightarrow> format_statistics \<Rightarrow> 'v value_statistics result" where
  "read_stats rd stats =
     (let null_count = (case fs_null_count stats of Some n \<Rightarrow> n | None \<Rightarrow> 0);
          old_format = (fs_min_value stats = None \<and> fs_max_value stats = None)
      in if sint null_count < 0 then Inl (DbError ''Statistics null count is negative'')
         else rd stats (if old_format then fs_min stats else fs_min_value stats)
                (if old_format then fs_max stats else fs_max_value stats) (fs_distinct_count stats) null_count old_format)"

lemma map_result_comp: "map_result f (map_result g r) = map_result (f \<circ> g) r"
  by (cases r) (simp_all add: map_result_def)

lemma map_result_simps [simp]: "map_result f (Inl e) = Inl e" "map_result f (Inr v) = Inr (f v)"
  by (simp_all add: map_result_def)

lemma from_thrift_Some [simp]:
  "from_thrift BOOLEAN (Some st) = map_result (Some \<circ> StatBoolean) (read_stats (\<lambda>_. typed_stats bool_of_bytes) st)"
  "from_thrift INT32 (Some st) = map_result (Some \<circ> StatInt32) (read_stats (\<lambda>_. typed_stats word_of_bytes) st)"
  "from_thrift INT64 (Some st) = map_result (Some \<circ> StatInt64) (read_stats (\<lambda>_. typed_stats word_of_bytes) st)"
  "from_thrift INT96 (Some st) = map_result (Some \<circ> StatInt96) (read_stats (\<lambda>_. typed_stats int96_of_bytes) st)"
  "from_thrift FLOAT (Some st) = map_result (Some \<circ> StatFloat) (read_stats (\<lambda>_. typed_stats word_of_bytes) st)"
  "from_thrift DOUBLE (Some st) = map_result (Some \<circ> StatDouble) (read_stats (\<lambda>_. typed_stats word_of_bytes) st)"
  "from_thrift BYTE_ARRAY (Some st) =
     map_result (Some \<circ> StatByteArray) (read_stats (\<lambda>s a b c d e. Inr (byte_array_stats s a b c d e)) st)"
  "from_thrift FIXED_LEN_BYTE_ARRAY (Some st) =
     map_result (Some \<circ> StatFixedLenByteArray) (read_stats (\<lambda>s a b c d e. Inr (byte_array_stats s a b c d e)) st)"
  by (simp_all add: from_thrift_def read_stats_def stats_of_type_def map_result_comp Let_def)

lemma zero_or_null_count: "(if 0 < n then n else 0) = (n :: u64)"
  by (simp add: word_gt_0)

lemma read_stats_null_count:
  "(case fs_null_count (thrift_of f v) of Some n \<Rightarrow> n | None \<Rightarrow> 0) = vs_null_count v"
  by (simp add: thrift_of_def Let_def word_gt_0)

lemma read_typed:
  assumes "\<And>x. f (enc x) = Inr x"
  shows "read_stats (\<lambda>_. typed_stats f) (thrift_of enc v) = Inr v \<longleftrightarrow> read_shape True v"
proof -
  obtain mn mx ndv nulls mxe mne dep bw where v: "v = \<lparr>vs_min = mn, vs_max = mx, vs_distinct_count = ndv,
      vs_null_count = nulls, vs_max_exact = mxe, vs_min_exact = mne, vs_deprecated = dep, vs_backwards = bw\<rparr>"
    by (cases v)
  show ?thesis
    unfolding read_stats_def read_stats_null_count sint_neg_iff Let_def read_shape_def
    by (cases "unat nulls < 2 ^ 63"; cases mn; cases mx; cases dep; cases bw)
       (auto simp: v thrift_of_def Let_def typed_stats_def map_stat_def value_statistics_new_def assms simp del: not_less)
qed

lemma read_byte_arrays:
  "read_stats (\<lambda>s a b c d e. Inr (byte_array_stats s a b c d e)) (thrift_of (\<lambda>bs. bs) v) = Inr v \<longleftrightarrow> read_shape False v"
proof -
  obtain mn mx ndv nulls mxe mne dep bw where v: "v = \<lparr>vs_min = mn, vs_max = mx, vs_distinct_count = ndv,
      vs_null_count = nulls, vs_max_exact = mxe, vs_min_exact = mne, vs_deprecated = dep, vs_backwards = bw\<rparr>"
    by (cases v)
  show ?thesis
    unfolding read_stats_def read_stats_null_count sint_neg_iff Let_def read_shape_def
    by (cases "unat nulls < 2 ^ 63"; cases mn; cases mx; cases dep; cases bw)
       (auto simp: v thrift_of_def Let_def byte_array_stats_def simp del: not_less)
qed

lemma map_result_Inr:
  "(\<And>x y. c x = c y \<Longrightarrow> x = y) \<Longrightarrow> map_result (Some \<circ> c) r = Inr (Some (c v)) \<longleftrightarrow> r = Inr v"
  by (cases r) auto

lemmas stat_Inr = column_statistics.inject [THEN iffD1, THEN map_result_Inr]

text \<open>
  C39. Writing statistics to Thrift and reading them back with their physical type gives the same
  statistics exactly when they have the shape of statistics that were read; in particular
  statistics with one bound only, a null count of 2 to the 63 or more, or deprecated bounds that
  are not backwards compatible do not survive.
\<close>

theorem statistics_round_trip:
  "from_thrift (stat_physical_type s) (to_thrift (Some s)) = Inr (Some s) \<longleftrightarrow> stat_read_shape s"
  by (cases s) (simp_all add: stat_Inr read_typed read_byte_arrays)

end
