(* ===== verification/Column_Encoders.thy ===== *)
theory Column_Encoders
  imports Column_Decoders
begin

text \<open>
  The encoders of page values (\<open>glaredb_ext_parquet/src/encodings/encoding\<close>): plain, dictionary,
  run length booleans and byte stream split, and their round trips through the page decoders
  of the theory \<open>Column_Decoders\<close>.

  The type specific part of the plain encoder (\<open>ParquetValueType::encode\<close>) is a function
  argument; the locale \<open>plain_codec\<close> states that a value reader reads back what it writes. It
  is interpreted for integers, booleans and byte arrays. The hash table of the interner finds a
  key by comparing the stored values, so a table of keys is the list of its keys.
\<close>

section \<open>The plain encoder\<close>

record plain_encoder =
  pe_buffer :: "byte list"
  pe_bits :: bit_writer

definition plain_encoder_new :: plain_encoder where
  "plain_encoder_new = \<lparr>pe_buffer = [], pe_bits = bit_writer_new 256\<rparr>"

definition plain_flush_buffer :: "plain_encoder \<Rightarrow> byte list \<times> plain_encoder" where
  "plain_flush_buffer e =
     (let (bs, w) = bw_flush_buffer (pe_bits e)
      in (pe_buffer e @ bs, e\<lparr>pe_buffer := [], pe_bits := bw_clear w\<rparr>))"

definition plain_encoded_size :: "plain_encoder \<Rightarrow> nat" where
  "plain_encoded_size e = length (pe_buffer e) + bytes_written (pe_bits e)"

definition encode_words :: "'a::len word list \<Rightarrow> plain_encoder \<Rightarrow> plain_encoder result" where
  "encode_words vs e = Inr (e\<lparr>pe_buffer := pe_buffer e @ concat (map to_le_bytes vs)\<rparr>)"

definition encode_bools :: "bool list \<Rightarrow> plain_encoder \<Rightarrow> plain_encoder result" where
  "encode_bools vs e =
     bind_result (fold_results (\<lambda>v. put_value (if v then 1 else 0) 1) vs (pe_bits e)) (\<lambda>w.
     Inr (e\<lparr>pe_bits := w\<rparr>))"

definition encode_byte_array :: "byte list \<Rightarrow> plain_encoder \<Rightarrow> plain_encoder result" where
  "encode_byte_array bs e =
     (if length bs < 2 ^ 32
      then Inr (e\<lparr>pe_buffer := pe_buffer e @ to_le_bytes (of_nat (length bs) :: 32 word) @ bs\<rparr>)
      else Inl (Panic ''called Result::unwrap() on an Err value''))"

definition encode_byte_arrays :: "byte list list \<Rightarrow> plain_encoder \<Rightarrow> plain_encoder result" where
  "encode_byte_arrays vs e = fold_results encode_byte_array vs e"

section \<open>The dictionary encoder\<close>

record 'v dict_encoder =
  di_dedup :: "nat list"
  di_uniques :: "'v list"
  di_size :: nat
  di_indices :: "nat list"

definition dict_encoder_new :: "'v dict_encoder" where
  "dict_encoder_new = \<lparr>di_dedup = [], di_uniques = [], di_size = 0, di_indices = []\<rparr>"

definition storage_push :: "('v \<Rightarrow> nat) \<Rightarrow> 'v \<Rightarrow> 'v dict_encoder \<Rightarrow> nat \<times> 'v dict_encoder" where
  "storage_push unique_size v e =
     (length (di_uniques e),
      e\<lparr>di_size := di_size e + unique_size v, di_uniques := di_uniques e @ [v]\<rparr>)"

definition intern :: "('v \<Rightarrow> nat) \<Rightarrow> 'v \<Rightarrow> 'v dict_encoder \<Rightarrow> (nat \<times> 'v dict_encoder) result" where
  "intern unique_size v e =
     bind_result (collect_results (vec_get (di_uniques e)) (di_dedup e)) (\<lambda>stored.
       case find (\<lambda>(key, u). u = v) (zip (di_dedup e) stored) of
         Some (key, _) \<Rightarrow> Inr (key, e)
       | None \<Rightarrow>
           (let (key, e) = storage_push unique_size v e
            in Inr (key, e\<lparr>di_dedup := key # di_dedup e\<rparr>)))"

definition dict_put_one :: "('v \<Rightarrow> nat) \<Rightarrow> 'v \<Rightarrow> 'v dict_encoder \<Rightarrow> 'v dict_encoder result" where
  "dict_put_one unique_size v e =
     bind_result (intern unique_size v e) (\<lambda>(key, e). Inr (e\<lparr>di_indices := di_indices e @ [key]\<rparr>))"

definition dict_put :: "('v \<Rightarrow> nat) \<Rightarrow> 'v list \<Rightarrow> 'v dict_encoder \<Rightarrow> 'v dict_encoder result" where
  "dict_put unique_size vs e = fold_results (dict_put_one unique_size) vs e"

definition num_entries :: "'v dict_encoder \<Rightarrow> nat" where
  "num_entries e = length (di_uniques e)"

definition dict_bit_width :: "'v dict_encoder \<Rightarrow> nat" where
  "dict_bit_width e = num_required_bits (of_nat (num_entries e - 1))"

definition dict_estimated_size :: "'v dict_encoder \<Rightarrow> nat" where
  "dict_estimated_size e = max_buffer_size (dict_bit_width e) (length (di_indices e))"

definition write_dict ::
    "('v list \<Rightarrow> plain_encoder \<Rightarrow> plain_encoder result) \<Rightarrow> 'v dict_encoder \<Rightarrow> byte list result" where
  "write_dict encode e =
     bind_result (encode (di_uniques e) plain_encoder_new) (\<lambda>p. Inr (fst (plain_flush_buffer p)))"

definition write_indices :: "'v dict_encoder \<Rightarrow> (byte list \<times> 'v dict_encoder) result" where
  "write_indices e =
     bind_result (fold_results rle_put (map of_nat (di_indices e))
         (rle_encoder_from_buf (dict_bit_width e) [of_nat (dict_bit_width e)])) (\<lambda>encoder.
     bind_result (rle_consume encoder) (\<lambda>bytes. Inr (bytes, e\<lparr>di_indices := []\<rparr>)))"

section \<open>Other encoders\<close>

definition rle_value_put :: "bool list \<Rightarrow> rle_encoder option \<Rightarrow> rle_encoder option result" where
  "rle_value_put vs encoder =
     (let e = case encoder of None \<Rightarrow> rle_encoder_from_buf 1 [0, 0, 0, 0] | Some e \<Rightarrow> e
      in bind_result (fold_results rle_put (map (\<lambda>v. if v then 1 else 0) vs) e) (\<lambda>e. Inr (Some e)))"

definition rle_value_flush_buffer :: "rle_encoder option \<Rightarrow> (byte list \<times> rle_encoder option) result" where
  "rle_value_flush_buffer encoder =
     (case encoder of None \<Rightarrow> Inl (Panic ''RLE value encoder is not initialized'')
      | Some e \<Rightarrow>
          bind_result (rle_consume e) (\<lambda>buf.
            if length buf < 4 then Inl (Panic ''should have had padding inserted'')
            else Inr (to_le_bytes (of_nat (length buf - 4) :: 32 word) @ drop 4 buf, None)))"

definition byte_stream_split_put :: "'a::len word list \<Rightarrow> byte list \<Rightarrow> byte list" where
  "byte_stream_split_put vs buffer = buffer @ concat (map to_le_bytes vs)"

definition split_streams_const :: "nat \<Rightarrow> byte list \<Rightarrow> byte list \<Rightarrow> byte list result" where
  "split_streams_const type_size src dst =
     (let stride = length src div type_size
      in fold_results (\<lambda>i dst. fold_results (\<lambda>j dst.
             bind_result (vec_get src (i * type_size + j)) (\<lambda>b. vec_set dst (i + j * stride) b))
           [0..<type_size] dst) [0..<stride] dst)"

definition byte_stream_split_flush :: "nat \<Rightarrow> byte list \<Rightarrow> (byte list \<times> byte list) result" where
  "byte_stream_split_flush type_size buffer =
     (if type_size = 4 \<or> type_size = 8
      then bind_result (split_streams_const type_size buffer (replicate (length buffer) 0)) (\<lambda>encoded.
           Inr (encoded, []))
      else Inl (DbError ''byte stream split unsupported for data types of size''))"

section \<open>Plain values are read back\<close>

locale plain_codec = value_source vr holds
  for vr :: "('r, 'v) value_reader" and holds :: "'r \<Rightarrow> read_cursor \<Rightarrow> 'v list \<Rightarrow> bool" +
  fixes encode :: "'v list \<Rightarrow> plain_encoder \<Rightarrow> plain_encoder result"
    and reader :: 'r
    and encodable :: "'v \<Rightarrow> bool"
  assumes encode_holds: "\<forall>v \<in> set vs. encodable v \<Longrightarrow>
    \<exists>e. encode vs plain_encoder_new = Inr e \<and> holds reader (fst (plain_flush_buffer e) @ rest) vs"

lemma plain_flush_new: "fst (plain_flush_buffer (plain_encoder_new\<lparr>pe_buffer := bs\<rparr>)) = bs"
  by (simp add: plain_flush_buffer_def plain_encoder_new_def bw_flush_buffer_def bit_writer_new_def bw_flush_def ceil_8)

lemma encode_byte_arrays_bytes:
  "\<forall>bs \<in> set vs. length bs < 2 ^ 32 \<Longrightarrow>
    encode_byte_arrays vs e = Inr (e\<lparr>pe_buffer := pe_buffer e @ concat (map length_prefixed vs)\<rparr>)"
  by (induction vs arbitrary: e) (auto simp: encode_byte_arrays_def encode_byte_array_def length_prefixed_def)

interpretation word_codec: plain_codec primitive_read holds_words
    "encode_words :: 'a::len word list \<Rightarrow> plain_encoder \<Rightarrow> plain_encoder result" "()" "\<lambda>_. 8 dvd LENGTH('a)"
proof unfold_locales
  fix vs :: "'a word list" and rest
  assume *: "\<forall>v \<in> set vs. 8 dvd LENGTH('a)"
  have "encode_words vs plain_encoder_new = Inr (plain_encoder_new\<lparr>pe_buffer := concat (map to_le_bytes vs)\<rparr>)"
    by (simp add: encode_words_def plain_encoder_new_def)
  then show "\<exists>e. encode_words vs plain_encoder_new = Inr e \<and> holds_words () (fst (plain_flush_buffer e) @ rest) vs"
    using * by (cases vs) (auto simp: holds_words_def plain_flush_new)
qed

interpretation byte_array_codec: plain_codec binary_read holds_byte_arrays encode_byte_arrays "()" "\<lambda>bs. length bs < 2 ^ 32"
  by unfold_locales
     (auto simp: encode_byte_arrays_bytes holds_byte_arrays_def plain_encoder_new_def
       plain_flush_new [unfolded plain_encoder_new_def, simplified])

interpretation bool_codec: plain_codec bool_read holds_bools encode_bools 0 "\<lambda>_. True"
proof unfold_locales
  fix vs rest
  have "\<forall>v \<in> set vs. take_bit 1 (if v then 1 else 0 :: u64) = (if v then 1 else 0)" by auto
  then obtain w where w: "fold_results (\<lambda>v. put_value (if v then 1 else 0) 1) vs (bit_writer_new 256) = Inr w"
      "written w [] ([] @ pack 1 (map (\<lambda>v. if v then 1 else 0) vs))"
    using written_puts [of "bit_writer_new 256" "[]" "[]" 1 vs "\<lambda>v. if v then 1 else 0"]
    by (auto simp: written_def writer_ok_def writer_bits_def bit_writer_new_def)
  have "pack 1 (map (\<lambda>v. if v then 1 else 0) vs) = vs"
    by (induction vs) (auto simp: pack_def bits_def)
  then have "stream (bw_consume w) = vs @ replicate (8 * ceil (bw_offset w) 8 - bw_offset w) False"
    using w(2) bw_consume_bits [of w] by (simp add: written_def)
  then show "\<exists>e. encode_bools vs plain_encoder_new = Inr e \<and> holds_bools 0 (fst (plain_flush_buffer e) @ rest) vs"
    using w(1) by (auto simp: encode_bools_def plain_encoder_new_def plain_flush_buffer_def bw_flush_buffer_def
        holds_bools_def bw_consume_def)
qed

section \<open>Dictionary pages are read back\<close>

definition open_dictionary :: "read_cursor \<Rightarrow> rle_decoder result" where
  "open_dictionary cursor =
     bind_result (read_next_unchecked cursor) (\<lambda>(bit_width, cursor). rle_decoder_new cursor (unat bit_width))"

definition open_rle_bool :: "read_cursor \<Rightarrow> rle_decoder result" where
  "open_rle_bool cursor =
     bind_result (read_next_word cursor) (\<lambda>(_ :: 32 word, cursor). rle_decoder_new cursor 1)"

definition dict_inv :: "'v dict_encoder \<Rightarrow> 'v list \<Rightarrow> bool" where
  "dict_inv e vs \<longleftrightarrow> set (di_dedup e) = {..<length (di_uniques e)} \<and> distinct (di_uniques e)
     \<and> (\<forall>i \<in> set (di_indices e). i < length (di_uniques e)) \<and> map ((!) (di_uniques e)) (di_indices e) = vs"

lemma dict_inv_new: "dict_inv dict_encoder_new []"
  by (simp add: dict_inv_def dict_encoder_new_def)

lemma zip_map_self: "zip xs (map f xs) = map (\<lambda>x. (x, f x)) xs"
  by (induction xs) simp_all

lemma intern_inv:
  assumes e: "dict_inv e vs"
  obtains key e' where "intern sz v e = Inr (key, e')" "dict_inv e' vs" "key < length (di_uniques e')"
    "di_uniques e' ! key = v" "set (di_uniques e') = insert v (set (di_uniques e))" "di_indices e' = di_indices e"
proof -
  let ?us = "di_uniques e" and ?ks = "di_dedup e"
  have inv: "set ?ks = {..<length ?us}" "distinct ?us" "\<forall>i \<in> set (di_indices e). i < length ?us"
      "map ((!) ?us) (di_indices e) = vs" using e by (auto simp: dict_inv_def)
  then have stored: "collect_results (vec_get ?us) ?ks = Inr (map ((!) ?us) ?ks)"
    by (auto simp: collect_results_list_all2 list_all2_map2 list_all2_same)
  show thesis
  proof (cases "v \<in> set ?us")
    case True
    then obtain k where k: "k < length ?us" "?us ! k = v" by (auto simp: in_set_conv_nth)
    have "find (\<lambda>(key, u). u = v) (zip ?ks (map ((!) ?us) ?ks)) \<noteq> None"
      using k inv(1) by (auto simp: find_None_iff zip_map_self)
    then obtain key u where "find (\<lambda>(key, u). u = v) (zip ?ks (map ((!) ?us) ?ks)) = Some (key, u)" by auto
    moreover from this have "key \<in> set ?ks" "?us ! key = v"
      by (auto simp: find_Some_iff zip_map_self)
    ultimately show thesis using that [of key e] stored inv(1) True e by (auto simp: intern_def)
  next
    case False
    have "\<forall>k \<in> set ?ks. ?us ! k \<noteq> v" using False nth_mem unfolding inv(1) by blast
    then have "find (\<lambda>(key, u). u = v) (zip ?ks (map ((!) ?us) ?ks)) = None"
      unfolding find_None_iff zip_map_self by auto
    moreover have "map ((!) (?us @ [v])) (di_indices e) = map ((!) ?us) (di_indices e)"
      using inv(3) by (simp add: nth_append)
    moreover have "\<forall>i \<in> set (di_indices e). i < Suc (length ?us)" using inv(3) by auto
    ultimately show thesis
      using that [of "length ?us" "e\<lparr>di_size := di_size e + sz v, di_uniques := ?us @ [v], di_dedup := length ?us # ?ks\<rparr>"]
        stored inv False
      by (simp add: intern_def storage_push_def dict_inv_def lessThan_Suc)
  qed
qed

lemma dict_put_inv:
  "dict_inv e us \<Longrightarrow> \<exists>e'. dict_put sz vs e = Inr e' \<and> dict_inv e' (us @ vs)
    \<and> set (di_uniques e') = set (di_uniques e) \<union> set vs"
proof (induction vs arbitrary: e us)
  case (Cons v vs)
  obtain key e1 where e1: "intern sz v e = Inr (key, e1)" "dict_inv e1 us" "key < length (di_uniques e1)"
      "di_uniques e1 ! key = v" "set (di_uniques e1) = insert v (set (di_uniques e))" "di_indices e1 = di_indices e"
    using intern_inv [OF Cons.prems] .
  let ?e = "e1\<lparr>di_indices := di_indices e1 @ [key]\<rparr>"
  have "dict_inv ?e (us @ [v])" using e1(2-4) by (auto simp: dict_inv_def)
  from Cons.IH [OF this] show ?case
    using e1(1,5) by (auto simp: dict_put_def dict_put_one_def)
qed (simp add: dict_put_def)

lemma index_fits:
  assumes "i < n" "n < 2 ^ 64"
  shows "take_bit (num_required_bits (of_nat (n - 1))) (of_nat i) = (of_nat i :: u64)"
proof (rule take_bit_num_required_bits_le)
  have "unat (of_nat i :: u64) = i" "unat (of_nat (n - 1) :: u64) = n - 1"
    using assms by (simp_all only: unat_of_nat_64)
  then show "of_nat i \<le> (of_nat (n - 1) :: u64)" using assms(1) by (simp add: word_le_nat_alt)
qed

lemma write_indices_denotes:
  assumes e: "dict_inv e vs" and len: "length vs < 2 ^ 63" "num_entries e < 2 ^ 32"
  obtains bytes e' d pad where "write_indices e = Inr (bytes, e')" "open_dictionary (bytes @ rest) = Inr d"
    "denotes d (map of_nat (di_indices e) @ pad)" "length bytes \<le> 1 + max_buffer_size (dict_bit_width e) (length (di_indices e))"
proof -
  let ?w = "dict_bit_width e" and ?vs = "map of_nat (di_indices e) :: u64 list"
  have w: "?w \<le> 64" by (simp add: dict_bit_width_def)
  have "num_entries e < 2 ^ 64" using len(2) by simp
  then have fits: "\<forall>v \<in> set ?vs. take_bit ?w v = v"
    using e index_fits [of _ "num_entries e"] by (auto simp: dict_inv_def dict_bit_width_def num_entries_def)
  have short: "length ?vs < 2 ^ 63" using e len(1) by (auto simp: dict_inv_def)
  obtain enc rs pad where enc: "fold_results rle_put ?vs (rle_encoder_from_buf ?w [of_nat ?w]) = Inr enc"
      "rle_consume enc = Inr ([of_nat ?w] @ concat (map (run_bytes ?w) rs))" "\<forall>r \<in> set rs. run_ok ?w r"
      "concat (map run_values rs) = ?vs @ pad"
      "length (concat (map (run_bytes ?w) rs)) \<le> max_buffer_size ?w (length ?vs)"
    using rle_encode_bytes [OF w fits short] .
  obtain d where d: "rle_decoder_new (concat (map (run_bytes ?w) rs) @ rest) ?w = Inr d" "denotes d (?vs @ pad)"
    using denotes_new [OF w enc(3), of rest] enc(4) by auto
  have "unat (of_nat ?w :: byte) = ?w" using w by (simp add: unsigned_of_nat take_bit_nat_eq_self)
  then show thesis
    using that enc(1,2,5) d by (auto simp: write_indices_def open_dictionary_def)
qed

lemma prepared_dictionary:
  assumes "array_wf a" "rows a = map Some ws @ [x]"
  shows "\<exists>a'. array_set_invalid (length ws) a = Inr a' \<and> array_wf a' \<and> rows a' = map Some ws @ [None]"
proof -
  have "length ws < length (ao_data a)" using assms length_rows [OF assms(1)] by simp
  then show ?thesis using array_set_invalid_rows [OF assms(1), of "length ws"] assms(2) by (auto simp: list_update_append)
qed

lemma array_new_rows: "array_wf (array_new x n)" "rows (array_new x n) = replicate n (Some x)"
  by (auto simp: array_wf_def array_new_def rows_def new_all_valid_def zip_replicate)

lemma expand_replicate: "length vs = n \<Longrightarrow> expand (replicate n True) vs = map Some vs"
  by (induction n arbitrary: vs) (auto simp: length_Suc_conv)

lemma uniques_bound: "dict_inv e vs \<Longrightarrow> set (di_uniques e) \<subseteq> set vs \<Longrightarrow> num_entries e \<le> length vs"
  unfolding num_entries_def dict_inv_def
  by (metis List.finite_set card_length card_mono distinct_card dual_order.trans)

context plain_codec
begin

lemma prepare_encoded:
  assumes "\<forall>v \<in> set ws. encodable v"
  shows "\<exists>e dictionary. encode ws plain_encoder_new = Inr e
    \<and> prepare_with_values vr reader initial (length ws) (fst (plain_flush_buffer e) @ rest) = Inr dictionary
    \<and> array_wf dictionary \<and> rows dictionary = map Some ws @ [None]"
proof -
  let ?n = "length ws" and ?a = "array_new initial (length ws + 1)"
  obtain e where e: "encode ws plain_encoder_new = Inr e" "holds reader (fst (plain_flush_buffer e) @ rest) ws"
    using encode_holds [OF assms, of rest] by blast
  have "writable 0 ?n ?a" unfolding writable_rows [OF array_new_rows(1)] by (auto simp: array_new_rows nth_Cons split: nat.split)
  then obtain r c a' where a': "read_plain vr NoDefinitions ?a 0 ?n (reader, fst (plain_flush_buffer e) @ rest) = Inr (a', r, c)"
      "array_wf a'" "rows a' = overwrite 0 (expand (replicate ?n True) ws) (rows ?a)"
    using read_plain_rows [of ?a 0 ?n NoDefinitions reader "fst (plain_flush_buffer e) @ rest" ws]
      array_new_rows(1) [of initial "?n + 1"] e(2)
    by (auto simp: present_def count_replicate)
  then have "rows a' = map Some ws @ [Some initial]"
    by (simp add: overwrite_def array_new_rows expand_replicate flip: replicate_append_same)
  then show ?thesis using prepared_dictionary [OF a'(2)] a'(1) e(1) by (auto simp: prepare_with_values_def)
qed

lemma dictionary_pages:
  assumes vs: "\<forall>v \<in> set vs. encodable v" "length vs < 2 ^ 32"
  shows "\<exists>e dict_bytes index_bytes e'. dict_put sz vs dict_encoder_new = Inr e
    \<and> write_dict encode e = Inr dict_bytes \<and> write_indices e = Inr (index_bytes, e')
    \<and> (\<forall>rest rest'. \<exists>dictionary d. prepare_with_values vr reader initial (num_entries e) (dict_bytes @ rest) = Inr dictionary
      \<and> open_dictionary (index_bytes @ rest') = Inr d \<and> dict_holds dictionary d vs)"
proof -
  obtain e where e: "dict_put sz vs dict_encoder_new = Inr e" "dict_inv e vs" "set (di_uniques e) = set vs"
    using dict_put_inv [OF dict_inv_new, of sz vs] by (auto simp: dict_encoder_new_def)
  then have small: "num_entries e < 2 ^ 32" "length vs < 2 ^ 63" using uniques_bound [OF e(2)] vs(2) by auto
  have dict: "\<exists>p dictionary. encode (di_uniques e) plain_encoder_new = Inr p
      \<and> prepare_with_values vr reader initial (num_entries e) (fst (plain_flush_buffer p) @ rest) = Inr dictionary
      \<and> array_wf dictionary \<and> rows dictionary = map Some (di_uniques e) @ [None]" for rest
    using prepare_encoded [of "di_uniques e" initial rest] vs(1) e(3) by (simp add: num_entries_def)
  then obtain p where p: "encode (di_uniques e) plain_encoder_new = Inr p" by blast
  have idx: "\<exists>bytes e' d pad. write_indices e = Inr (bytes, e') \<and> open_dictionary (bytes @ rest') = Inr d
      \<and> denotes d (map of_nat (di_indices e) @ pad)" for rest'
    using write_indices_denotes [OF e(2) small(2,1), of rest'] by metis
  then obtain bytes e' where bytes: "write_indices e = Inr (bytes, e')" by blast
  have "\<forall>i \<in> set (di_indices e). unat (of_nat i :: u64) = i \<and> i < num_entries e"
    using e(2) small(1) by (auto simp: dict_inv_def num_entries_def intro!: unat_of_nat_64)
  then have index: "\<forall>i \<in> set (map of_nat (di_indices e)). unat (i :: u64) < num_entries e \<and> unat i < 2 ^ 32"
      "map (\<lambda>i. di_uniques e ! unat (i :: u64)) (map of_nat (di_indices e)) = vs"
    using e(2) small(1) by (force, simp add: dict_inv_def comp_def cong: map_cong)
  have "\<exists>dictionary d. prepare_with_values vr reader initial (num_entries e) (fst (plain_flush_buffer p) @ rest) = Inr dictionary
      \<and> open_dictionary (bytes @ rest') = Inr d \<and> dict_holds dictionary d vs" for rest rest'
  proof -
    obtain dictionary where d1: "prepare_with_values vr reader initial (num_entries e) (fst (plain_flush_buffer p) @ rest) = Inr dictionary"
        "array_wf dictionary" "rows dictionary = map Some (di_uniques e) @ [None]"
      using dict [of rest] p by auto
    obtain d pad where d2: "open_dictionary (bytes @ rest') = Inr d" "denotes d (map of_nat (di_indices e) @ pad)"
      using idx [of rest'] bytes by auto
    have "dict_holds dictionary d vs"
      unfolding dict_holds_def using d1(2,3) d2(2) index
      by (intro exI [of _ "di_uniques e"] exI [of _ "map of_nat (di_indices e)"] exI [of _ pad]) (simp add: num_entries_def)
    then show ?thesis using d1(1) d2(1) by blast
  qed
  then show ?thesis using e(1) p bytes by (auto simp: write_dict_def)
qed

lemma dictionary_codec:
  assumes vs: "\<forall>v \<in> set vs. encodable v" "length vs < 2 ^ 32" and ok: "defs_ok defs n"
    and count: "count_list (present defs n) True \<le> length vs" and out: "array_wf out" "writable offset n out"
  shows "\<exists>e dict_bytes index_bytes e' dictionary d out' d'. dict_put sz vs dict_encoder_new = Inr e
    \<and> write_dict encode e = Inr dict_bytes \<and> write_indices e = Inr (index_bytes, e')
    \<and> prepare_with_values vr reader initial (num_entries e) (dict_bytes @ rest) = Inr dictionary
    \<and> open_dictionary (index_bytes @ rest') = Inr d
    \<and> dictionary_read dictionary d defs out offset n = Inr (out', d')
    \<and> rows out' = overwrite offset (expand (present defs n) vs) (rows out)"
proof -
  from dictionary_pages [OF vs, of sz initial] obtain e dict_bytes index_bytes e' dictionary d where
    "dict_put sz vs dict_encoder_new = Inr e" "write_dict encode e = Inr dict_bytes" "write_indices e = Inr (index_bytes, e')"
    "prepare_with_values vr reader initial (num_entries e) (dict_bytes @ rest) = Inr dictionary"
    "open_dictionary (index_bytes @ rest') = Inr d" and holds: "dict_holds dictionary d vs"
    by blast
  then show ?thesis using dictionary_page.page_rows [OF holds ok out count] by blast
qed

end

lemma rle_bool_codec:
  assumes len: "length vs < 2 ^ 63"
  shows "\<exists>e bytes d. rle_value_put vs None = Inr e \<and> rle_value_flush_buffer e = Inr (bytes, None)
    \<and> open_rle_bool (bytes @ rest) = Inr d \<and> rle_bool_holds d vs"
proof -
  let ?vs = "map (\<lambda>v. if v then 1 else 0) vs :: u64 list"
  have w: "1 \<le> (64 :: nat)" by simp
  have fits: "\<forall>v \<in> set ?vs. take_bit 1 v = v" "length ?vs < 2 ^ 63" using len by auto
  obtain enc rs pad where enc: "fold_results rle_put ?vs (rle_encoder_from_buf 1 [0, 0, 0, 0]) = Inr enc"
      "rle_consume enc = Inr ([0, 0, 0, 0] @ concat (map (run_bytes 1) rs))" "\<forall>r \<in> set rs. run_ok 1 r"
      "concat (map run_values rs) = ?vs @ pad"
      "length (concat (map (run_bytes 1) rs)) \<le> max_buffer_size 1 (length ?vs)"
    using rle_encode_bytes [OF w fits] .
  obtain d where "rle_decoder_new (concat (map (run_bytes 1) rs) @ rest) 1 = Inr d" "denotes d (?vs @ pad)"
    using denotes_new [OF w enc(3), of rest] enc(4) by auto
  then show ?thesis
    using enc(1,2) by (auto simp: rle_value_put_def rle_value_flush_buffer_def open_rle_bool_def rle_bool_holds_def
        read_next_word_bytes)
qed

text \<open>
  C34. Dictionary encoding of byte arrays is undone by the reader. Interning a list of values
  keeps each distinct value once; the dictionary page holds these values in plain encoding, the
  data page the bit width and the run length encoded indices. A reader that prepares the
  dictionary from the one page and opens the index decoder on the other writes the encoded values,
  in order, to the rows whose definition level is the maximum, and NULL to the others. No other
  row of the output changes, and no step fails or panics, whatever bytes follow either page.
\<close>

theorem dictionary_round_trip:
  assumes "\<forall>v \<in> set vs. length v < 2 ^ 32" "length vs < 2 ^ 32" "defs_ok defs n"
    and "count_list (present defs n) True \<le> length vs" "array_wf out" "writable offset n out"
  shows "\<exists>e dict_bytes index_bytes e' dictionary d out' d'. dict_put sz vs dict_encoder_new = Inr e
    \<and> write_dict encode_byte_arrays e = Inr dict_bytes \<and> write_indices e = Inr (index_bytes, e')
    \<and> prepare_with_values binary_read () initial (num_entries e) (dict_bytes @ rest) = Inr dictionary
    \<and> open_dictionary (index_bytes @ rest') = Inr d
    \<and> dictionary_read dictionary d defs out offset n = Inr (out', d')
    \<and> rows out' = overwrite offset (expand (present defs n) vs) (rows out)"
  using assms by (rule byte_array_codec.dictionary_codec)

theorem dictionary_round_trip_witness:
  "\<exists>e dict_bytes index_bytes e' dictionary d out' d'.
    dict_put length [[7], [8, 9], [7]] dict_encoder_new = Inr e
    \<and> write_dict encode_byte_arrays e = Inr dict_bytes \<and> write_indices e = Inr (index_bytes, e')
    \<and> prepare_with_values binary_read () [] (num_entries e) (dict_bytes @ []) = Inr dictionary
    \<and> open_dictionary (index_bytes @ []) = Inr d
    \<and> dictionary_read dictionary d (HasDefinitions [1, 0, 1, 1] 1) (array_new [] 5) 1 4 = Inr (out', d')
    \<and> rows out' = [Some [], Some [7], None, Some [8, 9], Some [7]]"
proof -
  let ?a = "array_new [] 5 :: byte list array_out" and ?defs = "HasDefinitions [1, 0, 1, 1] 1"
  have p: "present ?defs 4 = [True, False, True, True]" by (simp add: present_def)
  have r: "rows ?a = replicate 5 (Some [])" by (rule array_new_rows)
  then have "writable 1 4 ?a" unfolding writable_rows [OF array_new_rows(1)] by (simp del: replicate.simps)
  moreover have "overwrite 1 (expand [True, False, True, True] [[7], [8, 9], [7]]) (replicate 5 (Some [])) =
      [Some [], Some [7], None, Some [8, 9], Some ([7] :: byte list)]"
    by (simp add: overwrite_def)
  ultimately show ?thesis
    using dictionary_round_trip [of "[[7], [8, 9], [7]]" ?defs 4 ?a 1 length "[]" "[]" "[]"] array_new_rows(1) [of "[] :: byte list" 5]
    unfolding p r by simp
qed

end
