(* ===== verification/Byte_Arrays.thy ===== *)
theory Byte_Arrays
  imports Column_Encoders
begin

text \<open>
  The two delta encodings of byte arrays: \<open>DELTA_LENGTH_BYTE_ARRAY\<close> (all lengths, then all
  bytes) and \<open>DELTA_BYTE_ARRAY\<close> (lengths of the prefixes shared with the previous value, then
  the suffixes in the former encoding). The decoders are those of the column reader
  (\<open>glaredb_ext_parquet/src/column/encoding\<close>), the encoders those of
  \<open>glaredb_ext_parquet/src/encodings/encoding/mod.rs\<close>.

  Both decoders walk over the definition levels as the plain decoder does, so a decoder is a value
  reader whose errors end the read at once, run by \<open>read_plain\<close>; as value readers they
  interpret the contract of the theory \<open>Column_Decoders\<close>.
\<close>

section \<open>Decoders\<close>

record delta_length_reader =
  dl_verify_utf8 :: bool
  dl_idx :: nat
  dl_lengths :: "32 word list"

definition i32_as_usize :: "32 word \<Rightarrow> nat" where
  "i32_as_usize v = unat (scast v :: 64 word)"

definition i32_add :: "32 word \<Rightarrow> 32 word \<Rightarrow> 32 word result" where
  "i32_add a b =
     (if - (2 ^ 31) \<le> sint a + sint b \<and> sint a + sint b < 2 ^ 31 then Inr (a + b)
      else Inl (Panic ''attempt to add with overflow''))"

definition i32_sum :: "32 word list \<Rightarrow> 32 word result" where
  "i32_sum vs = fold_results (\<lambda>v total. i32_add total v) vs 0"

definition read_lengths :: "read_cursor \<Rightarrow> (32 word list \<times> read_cursor \<times> nat) result" where
  "read_lengths cursor =
     bind_result (delta_try_new cursor) (\<lambda>dec.
     let num_values = dd_total dec
     in bind_result (delta_read num_values dec) (\<lambda>(lengths, dec).
        bind_result (delta_try_into_cursor dec) (\<lambda>cursor. Inr (lengths, cursor, num_values))))"

definition delta_length_try_new :: "read_cursor \<Rightarrow> bool \<Rightarrow> (delta_length_reader \<times> read_cursor) result" where
  "delta_length_try_new cursor verify_utf8 =
     bind_result (read_lengths cursor) (\<lambda>(lengths, cursor, _).
     bind_result (i32_sum lengths) (\<lambda>sum.
     if i32_as_usize sum \<noteq> length cursor
     then Inl (DbError ''DELTA_LENGTH_BYTE_ARRAY: Total length does not equal remaining length in byte cursor'')
     else Inr (\<lparr>dl_verify_utf8 = verify_utf8, dl_idx = 0, dl_lengths = lengths\<rparr>, cursor)))"

definition delta_length_next :: "(delta_length_reader, byte list) value_reader" where
  "delta_length_next d cursor =
     bind_result (vec_get (dl_lengths d) (dl_idx d)) (\<lambda>len.
     bind_result (read_bytes_unchecked (i32_as_usize len) cursor) (\<lambda>(bs, cursor).
     if dl_verify_utf8 d \<and> \<not> from_utf8_ok bs then Inl (DbError ''Did not read valid utf8'')
     else Inr (Inr bs, d\<lparr>dl_idx := dl_idx d + 1\<rparr>, cursor)))"

definition delta_length_read ::
    "delta_length_reader \<times> read_cursor \<Rightarrow> definitions \<Rightarrow> byte list array_out \<Rightarrow> nat \<Rightarrow> nat
      \<Rightarrow> (byte list array_out \<times> delta_length_reader \<times> read_cursor) result" where
  "delta_length_read d definitions out offset n = read_plain delta_length_next definitions out offset n d"

record delta_array_reader =
  da_verify_utf8 :: bool
  da_val_buf :: "byte list"
  da_idx :: nat
  da_prefix :: "32 word list"
  da_suffix :: "32 word list"

definition delta_array_try_new :: "read_cursor \<Rightarrow> bool \<Rightarrow> (delta_array_reader \<times> read_cursor) result" where
  "delta_array_try_new cursor verify_utf8 =
     bind_result (read_lengths cursor) (\<lambda>(prefix_lengths, cursor, prefix_count).
     bind_result (read_lengths cursor) (\<lambda>(suffix_lengths, cursor, suffix_count).
     if prefix_count \<noteq> suffix_count
     then Inl (DbError ''Decoded different number of prefix and suffix lengths'')
     else Inr (\<lparr>da_verify_utf8 = verify_utf8, da_val_buf = [], da_idx = 0, da_prefix = prefix_lengths,
                da_suffix = suffix_lengths\<rparr>, cursor)))"

definition delta_array_next :: "(delta_array_reader, byte list) value_reader" where
  "delta_array_next d cursor =
     bind_result (vec_get (da_prefix d) (da_idx d)) (\<lambda>prefix.
     bind_result (vec_get (da_suffix d) (da_idx d)) (\<lambda>suffix.
     if length cursor < i32_as_usize suffix then Inl (DbError ''Not enough bytes remaining in the cursor'')
     else bind_result (read_bytes_unchecked (i32_as_usize suffix) cursor) (\<lambda>(bs, cursor).
       let val_buf = take (i32_as_usize prefix) (da_val_buf d) @ bs
       in if da_verify_utf8 d \<and> \<not> from_utf8_ok val_buf then Inl (DbError ''Did not read valid utf8'')
          else Inr (Inr val_buf, d\<lparr>da_val_buf := val_buf, da_idx := da_idx d + 1\<rparr>, cursor))))"

definition delta_array_read ::
    "delta_array_reader \<times> read_cursor \<Rightarrow> definitions \<Rightarrow> byte list array_out \<Rightarrow> nat \<Rightarrow> nat
      \<Rightarrow> (byte list array_out \<times> delta_array_reader \<times> read_cursor) result" where
  "delta_array_read d definitions out offset n = read_plain delta_array_next definitions out offset n d"

section \<open>Encoders\<close>

record delta_length_encoder =
  le_lengths :: delta_encoder
  le_data :: "byte list list"
  le_encoded_size :: nat

definition delta_length_encoder_new :: "delta_length_encoder result" where
  "delta_length_encoder_new =
     bind_result (delta_encoder_new TYPE(32)) (\<lambda>e.
     Inr \<lparr>le_lengths = e, le_data = [], le_encoded_size = 0\<rparr>)"

definition delta_length_put :: "byte list list \<Rightarrow> delta_length_encoder \<Rightarrow> delta_length_encoder result" where
  "delta_length_put vs e =
     bind_result (delta_put (map (\<lambda>v. of_nat (length v) :: 32 word) vs) (le_lengths e)) (\<lambda>lengths.
     Inr (e\<lparr>le_lengths := lengths, le_data := le_data e @ vs,
            le_encoded_size := le_encoded_size e + sum_list (map length vs)\<rparr>))"

definition delta_length_flush :: "delta_length_encoder \<Rightarrow> (byte list \<times> delta_length_encoder) result" where
  "delta_length_flush e =
     bind_result (delta_flush_buffer TYPE(32) (le_lengths e)) (\<lambda>(lengths, enc).
     Inr (lengths @ concat (le_data e), e\<lparr>le_lengths := enc, le_data := [], le_encoded_size := 0\<rparr>))"

definition delta_length_estimated_size :: "delta_length_encoder \<Rightarrow> nat" where
  "delta_length_estimated_size e = estimated_data_encoded_size (le_lengths e) + le_encoded_size e"

record delta_array_encoder =
  ae_prefix :: delta_encoder
  ae_suffix :: delta_length_encoder
  ae_previous :: "byte list"

definition delta_array_encoder_new :: "delta_array_encoder result" where
  "delta_array_encoder_new =
     bind_result (delta_encoder_new TYPE(32)) (\<lambda>p.
     bind_result delta_length_encoder_new (\<lambda>s.
     Inr \<lparr>ae_prefix = p, ae_suffix = s, ae_previous = []\<rparr>))"

fun match_len :: "byte list \<Rightarrow> byte list \<Rightarrow> nat" where
  "match_len (a # as) (b # bs) = (if a = b then Suc (match_len as bs) else 0)"
| "match_len _ _ = 0"

fun split_prefixes :: "byte list \<Rightarrow> byte list list \<Rightarrow> 32 word list \<times> byte list list \<times> byte list" where
  "split_prefixes previous [] = ([], [], previous)"
| "split_prefixes previous (current # vs) =
     (let (prefix_lengths, suffixes, previous') = split_prefixes current vs; n = match_len previous current
      in (of_nat n # prefix_lengths, drop n current # suffixes, previous'))"

definition delta_array_put :: "byte list list \<Rightarrow> delta_array_encoder \<Rightarrow> delta_array_encoder result" where
  "delta_array_put vs e =
     (let (prefix_lengths, suffixes, previous) = split_prefixes (ae_previous e) vs
      in bind_result (delta_put prefix_lengths (ae_prefix e)) (\<lambda>p.
         bind_result (delta_length_put suffixes (ae_suffix e)) (\<lambda>s.
         Inr \<lparr>ae_prefix = p, ae_suffix = s, ae_previous = previous\<rparr>)))"

definition delta_array_flush :: "delta_array_encoder \<Rightarrow> (byte list \<times> delta_array_encoder) result" where
  "delta_array_flush e =
     bind_result (delta_flush_buffer TYPE(32) (ae_prefix e)) (\<lambda>(lengths, p).
     bind_result (delta_length_flush (ae_suffix e)) (\<lambda>(suffixes, s).
     Inr (lengths @ suffixes, \<lparr>ae_prefix = p, ae_suffix = s, ae_previous = []\<rparr>)))"

definition delta_array_estimated_size :: "delta_array_encoder \<Rightarrow> nat" where
  "delta_array_estimated_size e =
     estimated_data_encoded_size (ae_prefix e) + delta_length_estimated_size (ae_suffix e)"

section \<open>The readers keep the contract of value readers\<close>

lemma i32_as_usize_of_nat: "n < 2 ^ 31 \<Longrightarrow> i32_as_usize (of_nat n) = n"
proof -
  assume n: "n < 2 ^ 31"
  then have "sint (of_nat n :: 32 word) = int n"
    by (simp add: signed_of_nat signed_take_bit_int_eq_self)
  then have "(scast (of_nat n :: 32 word) :: u64) = of_nat n" by (simp add: scast_eq)
  then show ?thesis using n unat_of_nat_64 [of n] by (simp add: i32_as_usize_def)
qed

definition holds_delta_length :: "delta_length_reader \<Rightarrow> read_cursor \<Rightarrow> byte list list \<Rightarrow> bool" where
  "holds_delta_length d c vs \<longleftrightarrow> (\<exists>rest lens. c = concat vs @ rest
     \<and> drop (dl_idx d) (dl_lengths d) = map (\<lambda>v. of_nat (length v)) vs @ lens
     \<and> (\<forall>v \<in> set vs. length v < 2 ^ 31 \<and> (dl_verify_utf8 d \<longrightarrow> from_utf8_ok v)))"

lemma vec_get_drop: "drop i xs = x # ys \<Longrightarrow> vec_get xs i = Inr x \<and> drop (Suc i) xs = ys"
  by (metis drop_Suc drop_eq_Nil2 linorder_not_le list.sel(3) list.simps(3) nth_via_drop tl_drop vec_get_def)

interpretation delta_lengths: value_source delta_length_next holds_delta_length
proof unfold_locales
  fix d c v vs
  assume "holds_delta_length d c (v # vs)"
  then show "\<exists>d' c'. delta_length_next d c = Inr (Inr v, d', c') \<and> holds_delta_length d' c' vs"
    unfolding holds_delta_length_def
    by (auto dest!: vec_get_drop simp: delta_length_next_def read_bytes_unchecked_def i32_as_usize_of_nat)
qed

fun rebuild :: "byte list \<Rightarrow> nat list \<Rightarrow> byte list list \<Rightarrow> byte list list" where
  "rebuild prev (p # ps) (s # ss) = (take p prev @ s) # rebuild (take p prev @ s) ps ss"
| "rebuild prev _ _ = []"

definition holds_delta_array :: "delta_array_reader \<Rightarrow> read_cursor \<Rightarrow> byte list list \<Rightarrow> bool" where
  "holds_delta_array d c vs \<longleftrightarrow> (\<exists>ps ss rest plens slens. c = concat ss @ rest
     \<and> drop (da_idx d) (da_prefix d) = map of_nat ps @ plens
     \<and> drop (da_idx d) (da_suffix d) = map (\<lambda>s. of_nat (length s)) ss @ slens
     \<and> length ps = length vs \<and> length ss = length vs \<and> rebuild (da_val_buf d) ps ss = vs
     \<and> (\<forall>p \<in> set ps. p < 2 ^ 31) \<and> (\<forall>s \<in> set ss. length s < 2 ^ 31)
     \<and> (da_verify_utf8 d \<longrightarrow> (\<forall>v \<in> set vs. from_utf8_ok v)))"

interpretation delta_arrays: value_source delta_array_next holds_delta_array
proof unfold_locales
  fix d c v vs
  assume "holds_delta_array d c (v # vs)"
  then obtain p ps s ss rest plens slens where *: "c = s @ concat ss @ rest"
      "drop (da_idx d) (da_prefix d) = of_nat p # map of_nat ps @ plens"
      "drop (da_idx d) (da_suffix d) = of_nat (length s) # map (\<lambda>s. of_nat (length s)) ss @ slens"
      "length ps = length vs" "length ss = length vs" "v = take p (da_val_buf d) @ s" "rebuild v ps ss = vs"
      "p < 2 ^ 31" "\<forall>p \<in> set ps. p < 2 ^ 31" "length s < 2 ^ 31" "\<forall>s \<in> set ss. length s < 2 ^ 31"
      "da_verify_utf8 d \<longrightarrow> from_utf8_ok v \<and> (\<forall>v \<in> set vs. from_utf8_ok v)"
    unfolding holds_delta_array_def by (auto simp: length_Suc_conv)
  then have "delta_array_next d c = Inr (Inr v, d\<lparr>da_val_buf := v, da_idx := da_idx d + 1\<rparr>, concat ss @ rest)"
    using vec_get_drop [OF *(2)] vec_get_drop [OF *(3)]
    by (simp add: delta_array_next_def read_bytes_unchecked_def i32_as_usize_of_nat Let_def)
  moreover have "holds_delta_array (d\<lparr>da_val_buf := v, da_idx := da_idx d + 1\<rparr>) (concat ss @ rest) vs"
    unfolding holds_delta_array_def using * vec_get_drop [OF *(2)] vec_get_drop [OF *(3)]
    by (intro exI [of _ ps] exI [of _ ss] exI [of _ rest] exI [of _ plens] exI [of _ slens]) simp
  ultimately show "\<exists>d' c'. delta_array_next d c = Inr (Inr v, d', c') \<and> holds_delta_array d' c' vs" by blast
qed

section \<open>Pages of byte arrays are read back\<close>

lemma lengths_page:
  fixes vss :: "32 word list list"
  assumes len: "2 \<le> length (concat vss)" "length (concat vss) < 2 ^ 64" "\<not> 128 dvd length (concat vss) - 1"
  obtains e0 e bytes e' where "delta_encoder_new TYPE(32) = Inr e0" "fold_results delta_put vss e0 = Inr e"
    "delta_flush_buffer TYPE(32) e = Inr (bytes, e')"
    "\<forall>rest. read_lengths (bytes @ rest) = Inr (concat vss, rest, length (concat vss))"
proof -
  have L: "LENGTH(32) = 32 \<or> LENGTH(32) = 64" "\<not> 4 * LENGTH(32) dvd length (concat vss) - 1" using len(3) by simp_all
  obtain e0 e bytes e' and d d' :: "32 word delta_decoder" where enc: "delta_encoder_new TYPE(32) = Inr e0"
      "fold_results delta_put vss e0 = Inr e" "delta_flush_buffer TYPE(32) e = Inr (bytes, e')"
      "delta_try_new (bytes @ []) = Inr d" "dd_total d = length (concat vss)"
      "delta_read (length (concat vss)) d = Inr (concat vss, d')" "delta_try_into_cursor d' = Inr []"
    using delta_lengths [OF L(1) len(1,2) L(2)] .
  have "read_lengths (bytes @ rest) = Inr (concat vss, rest, length (concat vss))" for rest
  proof -
    obtain e01 e1 bytes1 e1' and d d' :: "32 word delta_decoder" where "delta_encoder_new TYPE(32) = Inr e01"
        "fold_results delta_put vss e01 = Inr e1" "delta_flush_buffer TYPE(32) e1 = Inr (bytes1, e1')"
        "delta_try_new (bytes1 @ rest) = Inr d" "dd_total d = length (concat vss)"
        "delta_read (length (concat vss)) d = Inr (concat vss, d')" "delta_try_into_cursor d' = Inr rest"
      using delta_lengths [OF L(1) len(1,2) L(2)] .
    then show ?thesis using enc(1-3) by (simp add: read_lengths_def)
  qed
  then show thesis using that enc(1-3) by blast
qed

lemma delta_length_puts:
  "fold_results delta_put (map (map (\<lambda>v. of_nat (length v) :: 32 word)) vss) (le_lengths e) = Inr l \<Longrightarrow>
    \<exists>e'. fold_results delta_length_put vss e = Inr e' \<and> le_lengths e' = l \<and> le_data e' = le_data e @ concat vss"
proof (induction vss arbitrary: e)
  case (Cons vs vss)
  then obtain l1 where l1: "delta_put (map (\<lambda>v. of_nat (length v) :: 32 word) vs) (le_lengths e) = Inr l1"
      "fold_results delta_put (map (map (\<lambda>v. of_nat (length v) :: 32 word)) vss) l1 = Inr l"
    by (auto simp: bind_result_eq_Inr)
  let ?e = "e\<lparr>le_lengths := l1, le_data := le_data e @ vs, le_encoded_size := le_encoded_size e + sum_list (map length vs)\<rparr>"
  show ?case using Cons.IH [of ?e] l1 by (simp add: delta_length_put_def)
qed simp

lemma i32_add_of_nat:
  assumes "a + b < 2 ^ 31"
  shows "i32_add (of_nat a) (of_nat b) = Inr (of_nat (a + b))"
proof -
  have "sint (of_nat a :: 32 word) = int a" "sint (of_nat b :: 32 word) = int b"
    using assms by (simp_all add: signed_of_nat signed_take_bit_int_eq_self)
  then show ?thesis using assms by (simp add: i32_add_def)
qed

lemma i32_sum_of_nat:
  "sum_list ns < 2 ^ 31 \<Longrightarrow> i32_sum (map of_nat ns) = Inr (of_nat (sum_list ns))"
proof -
  have "a + sum_list ns < 2 ^ 31 \<Longrightarrow>
      fold_results (\<lambda>v t. i32_add t v) (map of_nat ns) (of_nat a) = Inr (of_nat (a + sum_list ns))" for a
  proof (induction ns arbitrary: a)
    case (Cons n ns)
    then show ?case using i32_add_of_nat [of a n] Cons.IH [of "a + n"] by (simp add: add.assoc)
  qed simp
  from this [of 0] show "sum_list ns < 2 ^ 31 \<Longrightarrow> ?thesis" by (simp add: i32_sum_def)
qed

lemma delta_length_codec:
  assumes vs: "\<forall>v \<in> set (concat vss). from_utf8_ok v" "sum_list (map length (concat vss)) < 2 ^ 31"
    and len: "2 \<le> length (concat vss)" "length (concat vss) < 2 ^ 64" "\<not> 128 dvd length (concat vss) - 1"
  shows "\<exists>e0 e bytes e' d c. delta_length_encoder_new = Inr e0 \<and> fold_results delta_length_put vss e0 = Inr e
    \<and> delta_length_flush e = Inr (bytes, e') \<and> delta_length_try_new bytes verify = Inr (d, c)
    \<and> holds_delta_length d c (concat vss)"
proof -
  let ?f = "\<lambda>v :: byte list. of_nat (length v) :: 32 word"
  have c: "concat (map (map ?f) vss) = map ?f (concat vss)" by (simp add: map_concat)
  have len': "2 \<le> length (concat (map (map ?f) vss))" "length (concat (map (map ?f) vss)) < 2 ^ 64"
      "\<not> 128 dvd length (concat (map (map ?f) vss)) - 1"
    unfolding c length_map using len .
  obtain l0 l bytes l' where enc: "delta_encoder_new TYPE(32) = Inr l0" "fold_results delta_put (map (map ?f) vss) l0 = Inr l"
      "delta_flush_buffer TYPE(32) l = Inr (bytes, l')"
      "\<forall>rest. read_lengths (bytes @ rest) = Inr (map ?f (concat vss), rest, length (concat vss))"
    using lengths_page [OF len', unfolded c length_map] .
  let ?e0 = "\<lparr>le_lengths = l0, le_data = [], le_encoded_size = 0\<rparr>"
  obtain e where e: "fold_results delta_length_put vss ?e0 = Inr e" "le_lengths e = l" "le_data e = concat vss"
    using delta_length_puts [of vss ?e0 l] enc(2) by auto
  have "i32_sum (map ?f (concat vss)) = Inr (of_nat (length (concat (concat vss))))"
    using i32_sum_of_nat [of "map length (concat vss)"] vs(2) by (simp add: length_concat comp_def)
  then have "delta_length_try_new (bytes @ concat (concat vss)) verify =
      Inr (\<lparr>dl_verify_utf8 = verify, dl_idx = 0, dl_lengths = map ?f (concat vss)\<rparr>, concat (concat vss))"
    using enc(4) vs(2) i32_as_usize_of_nat by (simp add: delta_length_try_new_def length_concat)
  moreover have "\<forall>v \<in> set (concat vss). length v < 2 ^ 31"
    using vs(2) member_le_sum_list [of _ "map length (concat vss)"] by fastforce
  ultimately show ?thesis
    using enc(1,3) e vs(1)
    by (auto simp: delta_length_encoder_new_def delta_length_flush_def holds_delta_length_def simp del: set_concat)
qed

lemma split_prefixes_append:
  "split_prefixes prev (us @ vs) =
     (let (ps, ss, prev') = split_prefixes prev us; (ps', ss', prev'') = split_prefixes prev' vs
      in (ps @ ps', ss @ ss', prev''))"
  by (induction prev us rule: split_prefixes.induct) (auto simp: Let_def split: prod.splits)

lemma match_len_take: "take (match_len as bs) as = take (match_len as bs) bs" "match_len as bs \<le> length bs"
  by (induction as bs rule: match_len.induct) auto

lemma split_prefixes_rebuild:
  "split_prefixes prev vs = (ps, ss, prev') \<Longrightarrow> \<forall>v \<in> set vs. length v < 2 ^ 31 \<Longrightarrow>
    \<exists>ns. ps = map of_nat ns \<and> length ns = length vs \<and> length ss = length vs \<and> rebuild prev ns ss = vs
      \<and> (\<forall>n \<in> set ns. n < 2 ^ 31) \<and> (\<forall>s \<in> set ss. length s < 2 ^ 31)"
proof (induction prev vs arbitrary: ps ss rule: split_prefixes.induct)
  case (2 prev v vs)
  obtain ps' ss' where split: "split_prefixes v vs = (ps', ss', prev')" "ps = of_nat (match_len prev v) # ps'"
      "ss = drop (match_len prev v) v # ss'"
    using "2.prems"(1) by (auto simp: Let_def split: prod.splits)
  obtain ns where ns: "ps' = map of_nat ns" "length ns = length vs" "length ss' = length vs" "rebuild v ns ss' = vs"
      "\<forall>n \<in> set ns. n < 2 ^ 31" "\<forall>s \<in> set ss'. length s < 2 ^ 31"
    using "2.IH" [OF split(1)] "2.prems"(2) by auto
  have "match_len prev v < 2 ^ 31" using match_len_take(2) [of prev v] "2.prems"(2) by auto
  moreover have "take (match_len prev v) prev @ drop (match_len prev v) v = v" by (metis append_take_drop_id match_len_take(1))
  ultimately show ?case
    using ns split(2,3) "2.prems"(2) by (intro exI [of _ "match_len prev v # ns"]) auto
qed simp

fun split_slices :: "byte list \<Rightarrow> byte list list list \<Rightarrow> 32 word list list \<times> byte list list list" where
  "split_slices prev [] = ([], [])"
| "split_slices prev (vs # vss) =
     (let (ps, ss, prev') = split_prefixes prev vs; (pss, sss) = split_slices prev' vss
      in (ps # pss, ss # sss))"

lemma split_slices_concat:
  "split_slices prev vss = (pss, sss) \<Longrightarrow> \<exists>prev'. split_prefixes prev (concat vss) = (concat pss, concat sss, prev')"
  by (induction prev vss arbitrary: pss sss rule: split_slices.induct)
     (fastforce simp: split_prefixes_append Let_def split: prod.splits)+

lemma delta_array_puts:
  "split_slices (ae_previous e) vss = (pss, sss) \<Longrightarrow> fold_results delta_put pss (ae_prefix e) = Inr p \<Longrightarrow>
    fold_results delta_length_put sss (ae_suffix e) = Inr s \<Longrightarrow>
    \<exists>e'. fold_results delta_array_put vss e = Inr e' \<and> ae_prefix e' = p \<and> ae_suffix e' = s"
proof (induction vss arbitrary: e pss sss)
  case (Cons vs vss)
  obtain ps ss prev' pss' sss' where split: "split_prefixes (ae_previous e) vs = (ps, ss, prev')"
      "split_slices prev' vss = (pss', sss')" "pss = ps # pss'" "sss = ss # sss'"
    using Cons.prems(1) by (auto split: prod.splits)
  obtain p1 s1 where put: "delta_put ps (ae_prefix e) = Inr p1" "fold_results delta_put pss' p1 = Inr p"
      "delta_length_put ss (ae_suffix e) = Inr s1" "fold_results delta_length_put sss' s1 = Inr s"
    using Cons.prems(2,3) split(3,4) by (auto simp: bind_result_eq_Inr)
  show ?case
    using Cons.IH [of "\<lparr>ae_prefix = p1, ae_suffix = s1, ae_previous = prev'\<rparr>" pss' sss'] split put
    by (simp add: delta_array_put_def)
qed simp

lemma delta_array_codec:
  assumes vs: "\<forall>v \<in> set (concat vss). from_utf8_ok v \<and> length v < 2 ^ 31"
    and len: "2 \<le> length (concat vss)" "length (concat vss) < 2 ^ 64" "\<not> 128 dvd length (concat vss) - 1"
  shows "\<exists>e0 e bytes e' d c. delta_array_encoder_new = Inr e0 \<and> fold_results delta_array_put vss e0 = Inr e
    \<and> delta_array_flush e = Inr (bytes, e') \<and> delta_array_try_new (bytes @ rest) verify = Inr (d, c)
    \<and> holds_delta_array d c (concat vss)"
proof -
  let ?f = "\<lambda>v :: byte list. of_nat (length v) :: 32 word"
  obtain pss sss where slices: "split_slices [] vss = (pss, sss)" by fastforce
  obtain prev' where split: "split_prefixes [] (concat vss) = (concat pss, concat sss, prev')"
    using split_slices_concat [OF slices] by blast
  obtain ns where ns: "concat pss = map of_nat ns" "length ns = length (concat vss)" "length (concat sss) = length (concat vss)"
      "rebuild [] ns (concat sss) = concat vss" "\<forall>n \<in> set ns. n < 2 ^ 31" "\<forall>s \<in> set (concat sss). length s < 2 ^ 31"
    using split_prefixes_rebuild [OF split] vs by auto
  have c: "concat (map (map ?f) sss) = map ?f (concat sss)" by (simp add: map_concat)
  have len_p: "length (concat pss) = length (concat vss)" and len_s: "length (concat (map (map ?f) sss)) = length (concat vss)"
    unfolding c length_map using ns(1-3) by simp_all
  obtain p0 p pbytes p' where p: "delta_encoder_new TYPE(32) = Inr p0" "fold_results delta_put pss p0 = Inr p"
      "delta_flush_buffer TYPE(32) p = Inr (pbytes, p')"
      "\<forall>rest. read_lengths (pbytes @ rest) = Inr (concat pss, rest, length (concat vss))"
    using lengths_page [of pss, unfolded len_p, OF len] .
  obtain l0 l lbytes l' where l: "delta_encoder_new TYPE(32) = Inr l0" "fold_results delta_put (map (map ?f) sss) l0 = Inr l"
      "delta_flush_buffer TYPE(32) l = Inr (lbytes, l')"
      "\<forall>rest. read_lengths (lbytes @ rest) = Inr (map ?f (concat sss), rest, length (concat vss))"
    using lengths_page [of "map (map ?f) sss", unfolded len_s, unfolded c, OF len] .
  let ?s0 = "\<lparr>le_lengths = l0, le_data = [], le_encoded_size = 0\<rparr>"
  obtain s where s: "fold_results delta_length_put sss ?s0 = Inr s" "le_lengths s = l" "le_data s = concat sss"
    using delta_length_puts [of sss ?s0 l] l(2) by auto
  obtain e where e: "fold_results delta_array_put vss \<lparr>ae_prefix = p0, ae_suffix = ?s0, ae_previous = []\<rparr> = Inr e"
      "ae_prefix e = p" "ae_suffix e = s"
    using delta_array_puts [of "\<lparr>ae_prefix = p0, ae_suffix = ?s0, ae_previous = []\<rparr>" vss pss sss p s] slices p(2) s(1) by auto
  let ?d = "\<lparr>da_verify_utf8 = verify, da_val_buf = [], da_idx = 0, da_prefix = concat pss, da_suffix = map ?f (concat sss)\<rparr>"
  have "delta_array_try_new ((pbytes @ lbytes @ concat (concat sss)) @ rest) verify = Inr (?d, concat (concat sss) @ rest)"
    using p(4) l(4) by (simp add: delta_array_try_new_def)
  moreover have "holds_delta_array ?d (concat (concat sss) @ rest) (concat vss)"
    unfolding holds_delta_array_def using ns vs
    by (intro exI [of _ ns] exI [of _ "concat sss"] exI [of _ rest] exI [of _ "[]"]) simp
  moreover have "delta_array_encoder_new = Inr \<lparr>ae_prefix = p0, ae_suffix = ?s0, ae_previous = []\<rparr>"
    using p(1) l(1) by (simp add: delta_array_encoder_new_def delta_length_encoder_new_def)
  moreover have "\<exists>e'. delta_array_flush e = Inr (pbytes @ lbytes @ concat (concat sss), e')"
    using e(2,3) s(2,3) p(3) l(3) by (simp add: delta_array_flush_def delta_length_flush_def)
  ultimately show ?thesis using e(1) by blast
qed

text \<open>
  C35. Round trip of delta encoded byte arrays: two or more UTF-8 values, put in any slices into
  the \<open>DELTA_BYTE_ARRAY\<close> encoder, are written back by the page decoder in order to the rows at
  the maximal definition level, with NULL in the other rows and the rest of the output
  unchanged, when the values after the first one do not fill whole blocks of 128. The common
  prefixes are taken from the previous value also across slices.
\<close>

theorem delta_byte_array_round_trip:
  assumes "\<forall>v \<in> set (concat vss). from_utf8_ok v \<and> length v < 2 ^ 31"
    and "2 \<le> length (concat vss)" "length (concat vss) < 2 ^ 64" "\<not> 128 dvd length (concat vss) - 1"
    and "defs_ok defs n" "count_list (present defs n) True \<le> length (concat vss)"
    and "array_wf out" "writable offset n out"
  shows "\<exists>e0 e bytes e' d out' d'. delta_array_encoder_new = Inr e0 \<and> fold_results delta_array_put vss e0 = Inr e
    \<and> delta_array_flush e = Inr (bytes, e') \<and> delta_array_try_new (bytes @ rest) True = Inr d
    \<and> delta_array_read d defs out offset n = Inr (out', d')
    \<and> rows out' = overwrite offset (expand (present defs n) (concat vss)) (rows out)"
proof -
  obtain e0 e bytes e' d c where enc: "delta_array_encoder_new = Inr e0" "fold_results delta_array_put vss e0 = Inr e"
      "delta_array_flush e = Inr (bytes, e')" "delta_array_try_new (bytes @ rest) True = Inr (d, c)"
      "holds_delta_array d c (concat vss)"
    using delta_array_codec [OF assms(1-4)] by blast
  then show ?thesis
    using delta_arrays.plain.page_rows [of "(d, c)" "concat vss" defs n out offset] assms(5-8)
    by (fastforce simp: plain_read_def delta_array_read_def)
qed

theorem delta_byte_array_round_trip_witness:
  "\<exists>e0 e bytes e' d out' d'. delta_array_encoder_new = Inr e0
    \<and> fold_results delta_array_put [[[97, 98, 99], [97, 98]], [[97, 98, 100]]] e0 = Inr e
    \<and> delta_array_flush e = Inr (bytes, e') \<and> delta_array_try_new (bytes @ [1]) True = Inr d
    \<and> delta_array_read d (HasDefinitions [1, 1, 0, 1] 1) (array_new [] 4) 0 4 = Inr (out', d')
    \<and> rows out' = [Some [97, 98, 99], Some [97, 98], None, Some [97, 98, 100]]"
proof -
  let ?vss = "[[[97, 98, 99], [97, 98]], [[97, 98, 100]]] :: byte list list list"
  let ?a = "array_new [] 4 :: byte list array_out" and ?defs = "HasDefinitions [1, 1, 0, 1] 1"
  have c: "concat ?vss = [[97, 98, 99], [97, 98], [97, 98, 100]]" by simp
  have p: "present ?defs 4 = [True, True, False, True]" by (simp add: present_def)
  have r: "rows ?a = replicate 4 (Some [])" by (rule array_new_rows)
  then have w: "writable 0 4 ?a" unfolding writable_rows [OF array_new_rows(1)] by (simp del: replicate.simps)
  have "overwrite 0 (expand [True, True, False, True] (concat ?vss)) (replicate 4 (Some [])) =
      [Some [97, 98, 99], Some [97, 98], None, Some [97, 98, 100]]" by (simp add: overwrite_def)
  moreover have "\<forall>v \<in> set (concat ?vss). from_utf8_ok v \<and> length v < 2 ^ 31" "length (concat ?vss) = 3" by simp_all
  ultimately show ?thesis
    using delta_byte_array_round_trip [of ?vss ?defs 4 ?a 0 "[1]"] array_new_rows(1) [of "[] :: byte list" 4] w
    unfolding p r by (simp del: fold_results.simps concat.simps)
qed

end
