(* ===== verification/Page_Reader.thy ===== *)
theory Page_Reader
  imports Column_Statistics Byte_Arrays
begin

text \<open>
  Reading a column chunk: the checked page headers (\<open>glaredb_ext_parquet/src/page.rs\<close>), the page
  reader that walks over the pages of a chunk and sets up level and value decoders
  (\<open>column/page_reader.rs\<close>), and the column reader that fills an output array
  (\<open>column/column_reader.rs\<close>).

  What is outside of these files is a parameter: the Thrift crate and the allocator in the record
  \<open>page_env\<close>, a decompression codec as a function from its input and the previous contents of its
  output buffer to the new contents. The reader is generic in the value type as the code is in
  \<open>V: ValueReader\<close>; the record \<open>column_kind\<close> holds what the instance provides. The level buffers
  that the column reader reuses between calls are not part of the state, since every slot is
  overwritten before it is read. After an error no state is returned.

  The loop of the column reader consumes a byte of the chunk or a value of the request in every
  round, so their number bounds the rounds; the value \<open>None\<close> stands for a loop that is cut off.
\<close>

section \<open>Checked page headers\<close>

definition encoding_try_from :: "format_encoding \<Rightarrow> encoding result" where
  "encoding_try_from e = (case e of FormatEncoding v \<Rightarrow>
     if v = 0 then Inr PLAIN else if v = 2 then Inr PLAIN_DICTIONARY else if v = 3 then Inr RLE
     else if v = 4 then Inr BIT_PACKED else if v = 5 then Inr DELTA_BINARY_PACKED
     else if v = 6 then Inr DELTA_LENGTH_BYTE_ARRAY else if v = 7 then Inr DELTA_BYTE_ARRAY
     else if v = 8 then Inr RLE_DICTIONARY else if v = 9 then Inr BYTE_STREAM_SPLIT
     else Inl (DbError ''unexpected parquet encoding''))"

fun format_encoding_of :: "encoding \<Rightarrow> format_encoding" where
  "format_encoding_of PLAIN = FormatEncoding 0"
| "format_encoding_of PLAIN_DICTIONARY = FormatEncoding 2"
| "format_encoding_of RLE = FormatEncoding 3"
| "format_encoding_of BIT_PACKED = FormatEncoding 4"
| "format_encoding_of DELTA_BINARY_PACKED = FormatEncoding 5"
| "format_encoding_of DELTA_LENGTH_BYTE_ARRAY = FormatEncoding 6"
| "format_encoding_of DELTA_BYTE_ARRAY = FormatEncoding 7"
| "format_encoding_of RLE_DICTIONARY = FormatEncoding 8"
| "format_encoding_of BYTE_STREAM_SPLIT = FormatEncoding 9"

lemma encoding_round_trip [simp]: "encoding_try_from (format_encoding_of e) = Inr e"
  by (cases e) (simp_all add: encoding_try_from_def)

record data_page_header =
  dp_num_values :: "32 word"
  dp_encoding :: encoding
  dp_def_level_encoding :: encoding
  dp_rep_level_encoding :: encoding
  dp_statistics :: "column_statistics option"

record data_page_header_v2 =
  d2_num_values :: "32 word"
  d2_encoding :: encoding
  d2_num_nulls :: "32 word"
  d2_num_rows :: "32 word"
  d2_def_levels_byte_len :: "32 word"
  d2_rep_levels_byte_len :: "32 word"
  d2_is_compressed :: bool
  d2_statistics :: "column_statistics option"

record dictionary_page_header =
  dk_num_values :: "32 word"
  dk_encoding :: encoding
  dk_is_sorted :: bool

datatype page_type =
    DataPage data_page_header | DataPageV2 data_page_header_v2 | DictionaryPage dictionary_page_header

record page_metadata =
  pm_uncompressed_page_size :: "32 word"
  pm_compressed_page_size :: "32 word"
  pm_crc :: "32 word option"

record page_header =
  ph_metadata :: page_metadata
  ph_page_type :: page_type

definition try_u32 :: "32 word \<Rightarrow> 32 word result" where
  "try_u32 v = (if sint v < 0 then Inl (DbError ''out of range integral type conversion attempted'') else Inr v)"

definition dictionary_from_format :: "format_page_header \<Rightarrow> page_type result" where
  "dictionary_from_format header =
     (case fp_dictionary_page_header header of
        None \<Rightarrow> Inl (DbError ''Missing dictionary page header'')
      | Some dict_header \<Rightarrow>
          let is_sorted = (case fk_is_sorted dict_header of Some b \<Rightarrow> b | None \<Rightarrow> False)
          in bind_result (try_u32 (fk_num_values dict_header)) (\<lambda>num_values.
             bind_result (encoding_try_from (fk_encoding dict_header)) (\<lambda>encoding.
             Inr (DictionaryPage \<lparr>dk_num_values = num_values, dk_encoding = encoding, dk_is_sorted = is_sorted\<rparr>))))"

definition data_from_format :: "format_page_header \<Rightarrow> parquet_type \<Rightarrow> page_type result" where
  "data_from_format header physical_type =
     (case fp_data_page_header header of
        None \<Rightarrow> Inl (DbError ''Missing V1 data page header'')
      | Some header \<Rightarrow>
          bind_result (try_u32 (fd_num_values header)) (\<lambda>num_values.
          bind_result (encoding_try_from (fd_encoding header)) (\<lambda>encoding.
          bind_result (encoding_try_from (fd_definition_level_encoding header)) (\<lambda>def_encoding.
          bind_result (encoding_try_from (fd_repetition_level_encoding header)) (\<lambda>rep_encoding.
          bind_result (from_thrift physical_type (fd_statistics header)) (\<lambda>statistics.
          Inr (DataPage \<lparr>dp_num_values = num_values, dp_encoding = encoding, dp_def_level_encoding = def_encoding,
                 dp_rep_level_encoding = rep_encoding, dp_statistics = statistics\<rparr>)))))))"

definition data_v2_from_format :: "format_page_header \<Rightarrow> parquet_type \<Rightarrow> page_type result" where
  "data_v2_from_format header physical_type =
     (case fp_data_page_header_v2 header of
        None \<Rightarrow> Inl (DbError ''Missing V2 data page header'')
      | Some header \<Rightarrow>
          let is_compressed = (case f2_is_compressed header of Some b \<Rightarrow> b | None \<Rightarrow> True)
          in bind_result (try_u32 (f2_num_values header)) (\<lambda>num_values.
             bind_result (encoding_try_from (f2_encoding header)) (\<lambda>encoding.
             bind_result (try_u32 (f2_num_nulls header)) (\<lambda>num_nulls.
             bind_result (try_u32 (f2_num_rows header)) (\<lambda>num_rows.
             bind_result (try_u32 (f2_definition_levels_byte_length header)) (\<lambda>def_len.
             bind_result (try_u32 (f2_repetition_levels_byte_length header)) (\<lambda>rep_len.
             bind_result (from_thrift physical_type (f2_statistics header)) (\<lambda>statistics.
             Inr (DataPageV2 \<lparr>d2_num_values = num_values, d2_encoding = encoding, d2_num_nulls = num_nulls,
                    d2_num_rows = num_rows, d2_def_levels_byte_len = def_len, d2_rep_levels_byte_len = rep_len,
                    d2_is_compressed = is_compressed, d2_statistics = statistics\<rparr>)))))))))"

definition try_from_format :: "format_page_header \<Rightarrow> parquet_type \<Rightarrow> page_header result" where
  "try_from_format header physical_type =
     bind_result
       (if fp_type header = DICTIONARY_PAGE then dictionary_from_format header
        else if fp_type header = DATA_PAGE then data_from_format header physical_type
        else if fp_type header = DATA_PAGE_V2 then data_v2_from_format header physical_type
        else Inl (DbError ''Decoding page header type''))
       (\<lambda>page_type. Inr
         \<lparr>ph_metadata = \<lparr>pm_uncompressed_page_size = fp_uncompressed_page_size header,
                         pm_compressed_page_size = fp_compressed_page_size header, pm_crc = fp_crc header\<rparr>,
          ph_page_type = page_type\<rparr>)"

section \<open>The page reader\<close>

record 'b primitive_type =
  pt_basic_info :: 'b
  pt_physical_type :: parquet_type
  pt_type_length :: "32 word"
  pt_scale :: "32 word"
  pt_precision :: "32 word"

record 'b column_descriptor =
  cd_primitive_type :: "'b primitive_type"
  cd_max_def_level :: i16
  cd_max_rep_level :: i16
  cd_path :: "string list"

definition cd_physical_type :: "'b column_descriptor \<Rightarrow> parquet_type" where
  "cd_physical_type descr = pt_physical_type (cd_primitive_type descr)"

record page_env =
  pe_lib :: thrift_lib
  pe_resize :: "nat \<Rightarrow> byte list result"

type_synonym codec = "byte list \<Rightarrow> byte list \<Rightarrow> byte list result"

record ('r, 'v) column_kind =
  ck_read :: "('r, 'v) value_reader"
  ck_reader :: 'r
  ck_initial :: 'v
  ck_delta_length :: "delta_length_reader \<times> read_cursor \<Rightarrow> definitions \<Rightarrow> 'v array_out \<Rightarrow> nat \<Rightarrow> nat
      \<Rightarrow> ('v array_out \<times> delta_length_reader \<times> read_cursor) result"
  ck_delta_array :: "delta_array_reader \<times> read_cursor \<Rightarrow> definitions \<Rightarrow> 'v array_out \<Rightarrow> nat \<Rightarrow> nat
      \<Rightarrow> ('v array_out \<times> delta_array_reader \<times> read_cursor) result"
  ck_rle_bool :: "rle_decoder \<Rightarrow> definitions \<Rightarrow> 'v array_out \<Rightarrow> nat \<Rightarrow> nat \<Rightarrow> ('v array_out \<times> rle_decoder) result"

datatype 'r page_decoder =
    PlainDec 'r read_cursor
  | DictionaryDec rle_decoder
  | DeltaBinaryPackedI32 "32 word delta_decoder"
  | DeltaBinaryPackedI64 "64 word delta_decoder"
  | DeltaLengthByteArray delta_length_reader read_cursor
  | DeltaByteArray delta_array_reader read_cursor
  | RleBool rle_decoder
  | ByteStreamSplit4 "read_cursor list"
  | ByteStreamSplit8 "read_cursor list"

record ('r, 'v) scan_state =
  ss_remaining :: nat
  ss_definitions :: "rle_decoder option"
  ss_repetitions :: "rle_decoder option"
  ss_decoder :: "'r page_decoder option"
  ss_dictionary :: "'v array_out"

record ('b, 'r, 'v) page_reader =
  pr_descr :: "'b column_descriptor"
  pr_chunk_offset :: nat
  pr_chunk :: "byte list"
  pr_chunk_capacity :: nat
  pr_page :: owned_buffer
  pr_codec :: "codec option"
  pr_state :: "('r, 'v) scan_state"

definition page_reader_new :: "('r, 'v) column_kind \<Rightarrow> 'b column_descriptor \<Rightarrow> ('b, 'r, 'v) page_reader" where
  "page_reader_new kind descr =
     \<lparr>pr_descr = descr, pr_chunk_offset = 0, pr_chunk = [], pr_chunk_capacity = 0, pr_page = [], pr_codec = None,
      pr_state = \<lparr>ss_remaining = 0, ss_definitions = None, ss_repetitions = None, ss_decoder = None,
                  ss_dictionary = array_new (ck_initial kind) 0\<rparr>\<rparr>"

definition prepare_scan_unit ::
    "'b column_descriptor \<Rightarrow> ('b, 'r, 'v) page_reader \<Rightarrow> ('b, 'r, 'v) page_reader result" where
  "prepare_scan_unit descr pr =
     (if cd_primitive_type descr \<noteq> cd_primitive_type (pr_descr pr)
      then Inl (DbError ''Primitive types don't match, cannot update this column value reader.'')
      else Inr (pr\<lparr>pr_descr := descr\<rparr>))"

definition read_levels ::
    "i16 list \<Rightarrow> i16 list \<Rightarrow> ('r, 'v) scan_state \<Rightarrow> (i16 list \<times> i16 list \<times> ('r, 'v) scan_state) result" where
  "read_levels definitions repetitions st =
     bind_result
       (case ss_definitions st of
          None \<Rightarrow> Inr (definitions, st)
        | Some d \<Rightarrow> bind_result (rle_read (length definitions) d)
                      (\<lambda>(definitions, d). Inr (definitions, st\<lparr>ss_definitions := Some d\<rparr>)))
       (\<lambda>(definitions, st).
     bind_result
       (case ss_repetitions st of
          None \<Rightarrow> Inr (repetitions, st)
        | Some d \<Rightarrow> bind_result (rle_read (length repetitions) d)
                      (\<lambda>(repetitions, d). Inr (repetitions, st\<lparr>ss_repetitions := Some d\<rparr>)))
       (\<lambda>(repetitions, st). Inr (definitions, repetitions, st)))"

definition usize_add :: "nat \<Rightarrow> nat \<Rightarrow> nat result" where
  "usize_add a b = (if a + b < 2 ^ 64 then Inr (a + b) else Inl (Panic ''attempt to add with overflow''))"

definition chunk_slice :: "byte list \<Rightarrow> nat \<Rightarrow> nat \<Rightarrow> byte list result" where
  "chunk_slice chunk offset n =
     bind_result (usize_add offset n) (\<lambda>fin.
       if fin \<le> length chunk then Inr (take n (drop offset chunk))
       else Inl (DbError ''chunk buffer not large enough to read from''))"

definition copy_from_slice :: "byte list \<Rightarrow> byte list \<Rightarrow> byte list result" where
  "copy_from_slice dest src =
     (if length dest = length src then Inr src
      else Inl (Panic ''source slice length does not match destination slice length''))"

definition load_page :: "page_env \<Rightarrow> page_metadata \<Rightarrow> ('b, 'r, 'v) page_reader \<Rightarrow> ('b, 'r, 'v) page_reader result" where
  "load_page env metadata pr =
     bind_result (pe_resize env (i32_as_usize (pm_uncompressed_page_size metadata))) (\<lambda>dest.
     bind_result (chunk_slice (pr_chunk pr) (pr_chunk_offset pr) (i32_as_usize (pm_compressed_page_size metadata))) (\<lambda>src.
     bind_result (case pr_codec pr of Some decompress \<Rightarrow> decompress src dest | None \<Rightarrow> copy_from_slice dest src) (\<lambda>page.
     Inr (pr\<lparr>pr_page := page,
             pr_chunk_offset := pr_chunk_offset pr + i32_as_usize (pm_compressed_page_size metadata)\<rparr>))))"

definition prepare_dictionary ::
    "page_env \<Rightarrow> ('r, 'v) column_kind \<Rightarrow> page_metadata \<Rightarrow> dictionary_page_header \<Rightarrow> ('b, 'r, 'v) page_reader
      \<Rightarrow> ('b, 'r, 'v) page_reader result" where
  "prepare_dictionary env kind metadata header pr =
     bind_result (load_page env metadata pr) (\<lambda>pr.
     let dict_size = unat (dk_num_values header); (buffer, page) = take_remaining (pr_page pr)
     in bind_result (prepare_with_values (ck_read kind) (ck_reader kind) (ck_initial kind) dict_size buffer) (\<lambda>dictionary.
        Inr (pr\<lparr>pr_page := page, pr_state := (pr_state pr)\<lparr>ss_dictionary := dictionary\<rparr>\<rparr>)))"

definition init_page_decoder ::
    "('r, 'v) column_kind \<Rightarrow> parquet_type \<Rightarrow> encoding \<Rightarrow> read_cursor \<Rightarrow> 'r page_decoder result" where
  "init_page_decoder kind physical_type encoding cursor =
     (case encoding of
        PLAIN \<Rightarrow> Inr (PlainDec (ck_reader kind) cursor)
      | PLAIN_DICTIONARY \<Rightarrow> map_result DictionaryDec (open_dictionary cursor)
      | RLE_DICTIONARY \<Rightarrow> map_result DictionaryDec (open_dictionary cursor)
      | RLE \<Rightarrow>
          if physical_type \<noteq> BOOLEAN then Inl (DbError ''RLE only valid for BOOL'')
          else map_result RleBool (open_rle_bool cursor)
      | DELTA_BINARY_PACKED \<Rightarrow>
          if physical_type = INT32 then map_result DeltaBinaryPackedI32 (delta_try_new cursor)
          else if physical_type = INT64 then map_result DeltaBinaryPackedI64 (delta_try_new cursor)
          else Inl (DbError ''Unsupported physical type for delta binary packed encoding'')
      | DELTA_LENGTH_BYTE_ARRAY \<Rightarrow>
          if physical_type \<noteq> BYTE_ARRAY then Inl (DbError ''DELTA_LENGTH_BYTE_ARRAY only valid for BYTE_ARRAY'')
          else map_result (\<lambda>(d, c). DeltaLengthByteArray d c) (delta_length_try_new cursor True)
      | DELTA_BYTE_ARRAY \<Rightarrow>
          if physical_type \<noteq> BYTE_ARRAY \<and> physical_type \<noteq> FIXED_LEN_BYTE_ARRAY
          then Inl (DbError ''DELTA_BYTE_ARRAY only valid for BYTE_ARRAY or FIXED_LEN_BYTE_ARRAY'')
          else map_result (\<lambda>(d, c). DeltaByteArray d c) (delta_array_try_new cursor True)
      | BYTE_STREAM_SPLIT \<Rightarrow>
          if physical_type = INT32 \<or> physical_type = FLOAT then map_result ByteStreamSplit4 (byte_stream_split_new 4 cursor)
          else if physical_type = INT64 \<or> physical_type = DOUBLE
          then map_result ByteStreamSplit8 (byte_stream_split_new 8 cursor)
          else Inl (DbError ''BYTE_STREAM_SPLIT only valid for INT32, INT64, FLOAT, DOUBLE'')
      | _ \<Rightarrow> Inl (DbError ''Unsupported encoding''))"

definition set_decoder ::
    "('r, 'v) column_kind \<Rightarrow> encoding \<Rightarrow> ('b, 'r, 'v) page_reader \<Rightarrow> ('b, 'r, 'v) page_reader result" where
  "set_decoder kind encoding pr =
     (let (cursor, page) = take_remaining (pr_page pr)
      in bind_result (init_page_decoder kind (cd_physical_type (pr_descr pr)) encoding cursor) (\<lambda>dec.
         Inr (pr\<lparr>pr_page := page, pr_state := (pr_state pr)\<lparr>ss_decoder := Some dec\<rparr>\<rparr>)))"

definition level_decoder_for ::
    "i16 \<Rightarrow> encoding \<Rightarrow> string \<Rightarrow> owned_buffer \<Rightarrow> (rle_decoder option \<times> owned_buffer) result" where
  "level_decoder_for max_level encoding msg page =
     (if 0 < sint max_level
      then if encoding \<noteq> RLE then Inl (DbError msg)
           else map_result (\<lambda>(d, page). (Some d, page)) (level_decoder_v1 max_level page)
      else Inr (None, page))"

definition prepare_data_page ::
    "page_env \<Rightarrow> ('r, 'v) column_kind \<Rightarrow> page_metadata \<Rightarrow> data_page_header \<Rightarrow> ('b, 'r, 'v) page_reader
      \<Rightarrow> ('b, 'r, 'v) page_reader result" where
  "prepare_data_page env kind metadata header pr =
     bind_result (load_page env metadata pr) (\<lambda>pr.
     bind_result (level_decoder_for (cd_max_rep_level (pr_descr pr)) (dp_rep_level_encoding header)
       ''RLE encoding required for repetition levels'' (pr_page pr)) (\<lambda>(repetitions, page).
     bind_result (level_decoder_for (cd_max_def_level (pr_descr pr)) (dp_def_level_encoding header)
       ''RLE encoding required for definition levels'' page) (\<lambda>(definitions, page).
     set_decoder kind (dp_encoding header)
       (pr\<lparr>pr_page := page,
           pr_state := (pr_state pr)\<lparr>ss_remaining := unat (dp_num_values header), ss_repetitions := repetitions,
                                     ss_definitions := definitions\<rparr>\<rparr>))))"

definition load_page_v2 ::
    "page_env \<Rightarrow> page_metadata \<Rightarrow> data_page_header_v2 \<Rightarrow> ('b, 'r, 'v) page_reader \<Rightarrow> ('b, 'r, 'v) page_reader result" where
  "load_page_v2 env metadata header pr =
     bind_result (pe_resize env (i32_as_usize (pm_uncompressed_page_size metadata))) (\<lambda>dest.
     let compressed_size = i32_as_usize (pm_compressed_page_size metadata) in
     case pr_codec pr of
       None \<Rightarrow>
         bind_result (chunk_slice (pr_chunk pr) (pr_chunk_offset pr) compressed_size) (\<lambda>src.
         bind_result (copy_from_slice dest src) (\<lambda>page.
         Inr (pr\<lparr>pr_page := page, pr_chunk_offset := pr_chunk_offset pr + length src\<rparr>)))
     | Some decompress \<Rightarrow>
         let rep_len = unat (d2_rep_levels_byte_len header); def_len = unat (d2_def_levels_byte_len header) in
         if 2 ^ 32 \<le> rep_len + def_len then Inl (Panic ''attempt to add with overflow'')
         else let uncompressed_len = rep_len + def_len in
         if length dest < uncompressed_len then Inl (Panic ''range end index out of range'')
         else
           bind_result (chunk_slice (pr_chunk pr) (pr_chunk_offset pr) uncompressed_len) (\<lambda>levels.
           bind_result (usize_sub compressed_size uncompressed_len) (\<lambda>compressed_len.
           bind_result (chunk_slice (pr_chunk pr) (pr_chunk_offset pr + uncompressed_len) compressed_len) (\<lambda>page_src.
           let page_dest = drop uncompressed_len dest in
           bind_result (if 0 < compressed_len then decompress page_src page_dest else Inr page_dest) (\<lambda>values.
           Inr (pr\<lparr>pr_page := levels @ values,
                   pr_chunk_offset := pr_chunk_offset pr + uncompressed_len + compressed_len\<rparr>))))))"

definition level_decoder_for_v2 :: "i16 \<Rightarrow> nat \<Rightarrow> owned_buffer \<Rightarrow> (rle_decoder option \<times> owned_buffer) result" where
  "level_decoder_for_v2 max_level len page =
     (if 0 < sint max_level then map_result (\<lambda>(d, page). (Some d, page)) (level_decoder_v2 max_level len page)
      else map_result (\<lambda>page. (None, page)) (if 0 < len then owned_skip len page else Inr page))"

definition prepare_data_page_v2 ::
    "page_env \<Rightarrow> ('r, 'v) column_kind \<Rightarrow> page_metadata \<Rightarrow> data_page_header_v2 \<Rightarrow> ('b, 'r, 'v) page_reader
      \<Rightarrow> ('b, 'r, 'v) page_reader result" where
  "prepare_data_page_v2 env kind metadata header pr =
     bind_result (load_page_v2 env metadata header pr) (\<lambda>pr.
     bind_result (level_decoder_for_v2 (cd_max_rep_level (pr_descr pr)) (unat (d2_rep_levels_byte_len header))
       (pr_page pr)) (\<lambda>(repetitions, page).
     bind_result (level_decoder_for_v2 (cd_max_def_level (pr_descr pr)) (unat (d2_def_levels_byte_len header))
       page) (\<lambda>(definitions, page).
     set_decoder kind (d2_encoding header)
       (pr\<lparr>pr_page := page,
           pr_state := (pr_state pr)\<lparr>ss_remaining := unat (d2_num_values header), ss_repetitions := repetitions,
                                     ss_definitions := definitions\<rparr>\<rparr>))))"

definition read_header ::
    "page_env \<Rightarrow> ('b, 'r, 'v) page_reader \<Rightarrow> (format_page_header \<times> ('b, 'r, 'v) page_reader) result" where
  "read_header env pr =
     (if length (pr_chunk pr) < pr_chunk_offset pr then Inl (Panic ''range start index out of range'')
      else let buf = drop (pr_chunk_offset pr) (pr_chunk pr) in
        bind_result (read_format_page_header (pe_lib env) (thrift_in_new buf)) (\<lambda>(header, prot).
        bind_result (usize_sub (length buf) (length (ti_buf prot))) (\<lambda>bytes_read.
        Inr (header, pr\<lparr>pr_chunk_offset := pr_chunk_offset pr + bytes_read\<rparr>))))"

definition prepare_next ::
    "page_env \<Rightarrow> ('r, 'v) column_kind \<Rightarrow> ('b, 'r, 'v) page_reader \<Rightarrow> ('b, 'r, 'v) page_reader result" where
  "prepare_next env kind pr =
     (if pr_chunk_capacity pr \<le> pr_chunk_offset pr then Inl (DbError ''Reached end of page chunk, expected more'')
      else
        bind_result (read_header env pr) (\<lambda>(header, pr).
        bind_result (try_from_format header (cd_physical_type (pr_descr pr))) (\<lambda>header.
        case ph_page_type header of
          DataPage page \<Rightarrow> prepare_data_page env kind (ph_metadata header) page pr
        | DataPageV2 page \<Rightarrow> prepare_data_page_v2 env kind (ph_metadata header) page pr
        | DictionaryPage page \<Rightarrow> prepare_dictionary env kind (ph_metadata header) page pr)))"

section \<open>The column reader\<close>

text \<open>
  The chunk is a \<open>DbVec<u8>\<close>: resizing it to a length below its capacity keeps the capacity, and a
  larger length makes the default buffer manager allocate exactly that many bytes.
\<close>

definition prepare_for_chunk :: "codec option \<Rightarrow> byte list \<Rightarrow> ('b, 'r, 'v) page_reader \<Rightarrow> ('b, 'r, 'v) page_reader" where
  "prepare_for_chunk codec chunk pr =
     pr\<lparr>pr_chunk_offset := 0, pr_chunk := chunk, pr_chunk_capacity := max (pr_chunk_capacity pr) (length chunk),
        pr_codec := codec\<rparr>"

definition decode_page ::
    "('r, 'v) column_kind \<Rightarrow> 'v array_out \<Rightarrow> 'r page_decoder \<Rightarrow> definitions \<Rightarrow> 'v array_out \<Rightarrow> nat \<Rightarrow> nat
      \<Rightarrow> ('v array_out \<times> 'r page_decoder) result" where
  "decode_page kind dictionary dec definitions out offset n =
     (case dec of
        PlainDec r c \<Rightarrow>
          map_result (\<lambda>(out, r, c). (out, PlainDec r c)) (read_plain (ck_read kind) definitions out offset n (r, c))
      | DictionaryDec d \<Rightarrow>
          map_result (\<lambda>(out, d). (out, DictionaryDec d)) (dictionary_read dictionary d definitions out offset n)
      | DeltaBinaryPackedI32 d \<Rightarrow>
          map_result (\<lambda>(out, d). (out, DeltaBinaryPackedI32 d))
            (delta_binary_packed_read (ck_read kind) (ck_reader kind) d definitions out offset n)
      | DeltaBinaryPackedI64 d \<Rightarrow>
          map_result (\<lambda>(out, d). (out, DeltaBinaryPackedI64 d))
            (delta_binary_packed_read (ck_read kind) (ck_reader kind) d definitions out offset n)
      | DeltaLengthByteArray d c \<Rightarrow>
          map_result (\<lambda>(out, d, c). (out, DeltaLengthByteArray d c)) (ck_delta_length kind (d, c) definitions out offset n)
      | DeltaByteArray d c \<Rightarrow>
          map_result (\<lambda>(out, d, c). (out, DeltaByteArray d c)) (ck_delta_array kind (d, c) definitions out offset n)
      | RleBool d \<Rightarrow>
          map_result (\<lambda>(out, d). (out, RleBool d)) (ck_rle_bool kind d definitions out offset n)
      | ByteStreamSplit4 ss \<Rightarrow>
          map_result (\<lambda>(out, ss). (out, ByteStreamSplit4 ss))
            (byte_stream_split_read (ck_read kind) (ck_reader kind) ss definitions out offset n)
      | ByteStreamSplit8 ss \<Rightarrow>
          map_result (\<lambda>(out, ss). (out, ByteStreamSplit8 ss))
            (byte_stream_split_read (ck_read kind) (ck_reader kind) ss definitions out offset n))"

definition read_from_page ::
    "('r, 'v) column_kind \<Rightarrow> i16 \<Rightarrow> ('r, 'v) scan_state \<Rightarrow> 'v array_out \<Rightarrow> nat \<Rightarrow> nat
      \<Rightarrow> ('v array_out \<times> ('r, 'v) scan_state) result" where
  "read_from_page kind max_def st out offset n =
     bind_result (read_levels (replicate n 0) (replicate n 0) st) (\<lambda>(levels, _, st).
     let definitions = (if ss_definitions st \<noteq> None then HasDefinitions levels max_def else NoDefinitions) in
     case ss_decoder st of
       None \<Rightarrow> Inl (DbError ''Missing page decoder'')
     | Some dec \<Rightarrow>
         bind_result (decode_page kind (ss_dictionary st) dec definitions out offset n) (\<lambda>(out, dec).
         Inr (out, st\<lparr>ss_decoder := Some dec, ss_remaining := ss_remaining st - n\<rparr>)))"

fun read_loop ::
    "page_env \<Rightarrow> ('r, 'v) column_kind \<Rightarrow> nat \<Rightarrow> ('b, 'r, 'v) page_reader \<Rightarrow> 'v array_out \<Rightarrow> nat \<Rightarrow> nat
      \<Rightarrow> ('v array_out \<times> ('b, 'r, 'v) page_reader) result option" where
  "read_loop env kind fuel pr out offset remaining =
     (if remaining = 0 then Some (Inr (out, pr))
      else case fuel of 0 \<Rightarrow> None | Suc fuel \<Rightarrow>
        if ss_remaining (pr_state pr) = 0
        then (case prepare_next env kind pr of
                Inl e \<Rightarrow> Some (Inl e)
              | Inr pr \<Rightarrow> read_loop env kind fuel pr out offset remaining)
        else let n = min remaining (ss_remaining (pr_state pr)) in
          (case read_from_page kind (cd_max_def_level (pr_descr pr)) (pr_state pr) out offset n of
             Inl e \<Rightarrow> Some (Inl e)
           | Inr (out, st) \<Rightarrow> read_loop env kind fuel (pr\<lparr>pr_state := st\<rparr>) out (offset + n) (remaining - n)))"

definition column_read ::
    "page_env \<Rightarrow> ('r, 'v) column_kind \<Rightarrow> ('b, 'r, 'v) page_reader \<Rightarrow> 'v array_out \<Rightarrow> nat
      \<Rightarrow> ('v array_out \<times> ('b, 'r, 'v) page_reader) result option" where
  "column_read env kind pr out n = read_loop env kind (length (pr_chunk pr) + n) pr out 0 n"

section \<open>Column kinds\<close>

definition downcast_error :: db_error where
  "downcast_error = DbError ''failed to downcast array buffer (mut)''"

definition rle_bool_mismatch ::
    "rle_decoder \<Rightarrow> definitions \<Rightarrow> 'v array_out \<Rightarrow> nat \<Rightarrow> nat \<Rightarrow> ('v array_out \<times> rle_decoder) result" where
  "rle_bool_mismatch d definitions out offset n =
     bind_result (read_count definitions n) (\<lambda>k.
     bind_result (rle_read k d) (\<lambda>(buf :: byte list, d). Inl downcast_error))"

definition word_kind :: "(unit, 'a::len word) column_kind" where
  "word_kind = \<lparr>ck_read = primitive_read, ck_reader = (), ck_initial = 0,
     ck_delta_length = (\<lambda>_ _ _ _ _. Inl downcast_error), ck_delta_array = (\<lambda>_ _ _ _ _. Inl downcast_error),
     ck_rle_bool = rle_bool_mismatch\<rparr>"

definition bool_kind :: "(nat, bool) column_kind" where
  "bool_kind = \<lparr>ck_read = bool_read, ck_reader = 0, ck_initial = False,
     ck_delta_length = (\<lambda>_ _ _ _ _. Inl downcast_error), ck_delta_array = (\<lambda>_ _ _ _ _. Inl downcast_error),
     ck_rle_bool = rle_bool_read\<rparr>"

definition binary_kind :: "(unit, byte list) column_kind" where
  "binary_kind = \<lparr>ck_read = binary_read, ck_reader = (), ck_initial = [],
     ck_delta_length = delta_length_read, ck_delta_array = delta_array_read, ck_rle_bool = rle_bool_mismatch\<rparr>"

definition utf8_kind :: "(unit, byte list) column_kind" where
  "utf8_kind = \<lparr>ck_read = utf8_read, ck_reader = (), ck_initial = [],
     ck_delta_length = delta_length_read, ck_delta_array = delta_array_read, ck_rle_bool = rle_bool_mismatch\<rparr>"

declare read_loop.simps [simp del]

section \<open>Readers consume their input\<close>

definition shrinks :: "(thrift_in \<Rightarrow> ('v \<times> thrift_in) result) \<Rightarrow> bool" where
  "shrinks rd \<longleftrightarrow> (\<forall>i v i'. rd i = Inr (v, i') \<longrightarrow> length (ti_buf i') \<le> length (ti_buf i))"

definition handler_shrinks :: "'s field_handler \<Rightarrow> bool" where
  "handler_shrinks h \<longleftrightarrow> (\<forall>ty fid s. shrinks (h ty fid s))"

definition skip_shrinks :: "thrift_lib \<Rightarrow> bool" where
  "skip_shrinks lib \<longleftrightarrow> (\<forall>ty i i'. tl_skip lib ty i = Inr i' \<longrightarrow> length (ti_buf i') \<le> length (ti_buf i))"

lemma shrinksD: "shrinks rd \<Longrightarrow> rd i = Inr (v, i') \<Longrightarrow> length (ti_buf i') \<le> length (ti_buf i)"
  by (simp add: shrinks_def)

lemma read_vlq_loop_shrinks: "read_vlq_loop acc s buf = Inr (v, buf') \<Longrightarrow> length buf' < length buf"
proof (induction acc s buf rule: read_vlq_loop.induct)
  case (2 acc s b buf)
  then show ?case by (auto simp: Let_def split: if_splits)
qed simp

lemma read_vlq_shrinks: "read_vlq i = Inr (v, i') \<Longrightarrow> length (ti_buf i') < length (ti_buf i)"
  by (auto simp: read_vlq_def bind_result_eq_Inr dest!: read_vlq_loop_shrinks)

lemma read_zig_zag_shrinks: "read_zig_zag i = Inr (v, i') \<Longrightarrow> length (ti_buf i') < length (ti_buf i)"
  by (auto simp: read_zig_zag_def bind_result_eq_Inr dest: read_vlq_shrinks)

lemma read_byte_shrinks: "ti_read_byte i = Inr (v, i') \<Longrightarrow> length (ti_buf i') < length (ti_buf i)"
  by (auto simp: ti_read_byte_def split: list.splits)

lemma read_field_type_buf: "read_field_type code i = Inr (ty, i') \<Longrightarrow> ti_buf i' = ti_buf i"
  by (auto simp: read_field_type_def bind_result_eq_Inr split: if_splits)

lemma read_field_begin_shrinks: "read_field_begin i = Inr (v, i') \<Longrightarrow> length (ti_buf i') < length (ti_buf i)"
  by (fastforce simp: read_field_begin_def bind_result_eq_Inr Let_def ti_read_i16_def split: if_splits
      dest!: read_byte_shrinks read_field_type_buf read_zig_zag_shrinks)

lemma scalar_shrinks [simp]:
  "shrinks ti_read_i32" "shrinks ti_read_i64" "shrinks ti_read_bool" "shrinks ti_read_bytes"
  "shrinks read_format_encoding" "shrinks read_format_page_type"
  unfolding shrinks_def
  by (auto simp: ti_read_i32_def ti_read_i64_def ti_read_bool_def ti_read_bytes_def read_format_encoding_def
      read_format_page_type_def bind_result_eq_Inr split: option.splits if_splits
      dest!: read_zig_zag_shrinks read_byte_shrinks read_vlq_shrinks)

lemma read_fields_shrinks:
  assumes "handler_shrinks h"
  shows "read_fields h n s i = Inr (s', i') \<Longrightarrow> length (ti_buf i') < length (ti_buf i)"
proof (induction n arbitrary: s i)
  case (Suc n)
  obtain ty fid i1 where start: "read_field_begin i = Inr ((ty, fid), i1)"
    using Suc.prems by (cases "read_field_begin i") auto
  show ?case
  proof (cases "ty = TStop")
    case True
    then show ?thesis using Suc.prems start read_field_begin_shrinks [OF start] by simp
  next
    case False
    then obtain s2 i2 where *: "h ty fid s i1 = Inr (s2, i2)" "read_fields h n s2 i2 = Inr (s', i')"
      using Suc.prems start by (auto simp: bind_result_eq_Inr)
    have "length (ti_buf i2) \<le> length (ti_buf i1)" using assms *(1) by (auto simp: handler_shrinks_def shrinks_def)
    then show ?thesis using Suc.IH [OF *(2)] read_field_begin_shrinks [OF start] by linarith
  qed
qed simp

lemma read_struct_shrinks:
  assumes "handler_shrinks h" "read_struct h s i = Inr (s', i')"
  shows "length (ti_buf i') < length (ti_buf i)"
proof -
  obtain n i1 where "read_fields h n s (read_struct_begin i) = Inr (s', i1)" "read_struct_end i1 = Inr i'"
    using assms(2) by (auto simp: read_struct_def bind_result_eq_Inr Let_def simp del: read_fields.simps)
  then show ?thesis
    using read_fields_shrinks [OF assms(1)]
    by (fastforce simp: read_struct_begin_def read_struct_end_def split: list.splits)
qed

lemma set_field_shrinks: "shrinks rd \<Longrightarrow> shrinks (set_field rd put s)"
  by (auto simp: shrinks_def set_field_def bind_result_eq_Inr)

lemma match_field_shrinks:
  assumes "skip_shrinks lib" "\<forall>(fid, rd) \<in> set cases. \<forall>s. shrinks (rd s)"
  shows "handler_shrinks (match_field lib cases)"
  using assms
  by (fastforce simp: handler_shrinks_def shrinks_def match_field_def skip_shrinks_def bind_result_eq_Inr
      split: option.splits dest: map_of_SomeD)

lemma struct_shrinks: "handler_shrinks h \<Longrightarrow> shrinks (read_struct h s0)"
  using read_struct_shrinks by (fastforce simp: shrinks_def)

lemma struct_then_shrinks:
  assumes "handler_shrinks h" "\<And>s i v i'. finish (s, i) = Inr (v, i') \<Longrightarrow> i' = i"
    and "bind_result (read_struct h s0 i) finish = Inr (v, i')"
  shows "length (ti_buf i') < length (ti_buf i)"
proof -
  obtain s i1 where "read_struct h s0 i = Inr (s, i1)" "finish (s, i1) = Inr (v, i')"
    using assms(3) by (auto simp: bind_result_eq_Inr)
  then show ?thesis using assms(2) read_struct_shrinks [OF assms(1)] by blast
qed

lemma statistics_shrinks:
  assumes skip: "skip_shrinks lib"
  shows "shrinks (read_format_statistics lib)"
proof -
  have "handler_shrinks (statistics_fields lib)"
    unfolding statistics_fields_def by (rule match_field_shrinks [OF skip]) (simp add: set_field_shrinks)
  then show ?thesis using struct_shrinks by (simp add: read_format_statistics_def [abs_def])
qed

lemma data_page_header_shrinks:
  assumes skip: "skip_shrinks lib"
  shows "shrinks (read_format_data_page_header lib)"
proof -
  have h: "handler_shrinks (data_page_fields lib)"
    unfolding data_page_fields_def
    by (rule match_field_shrinks [OF skip]) (simp add: set_field_shrinks statistics_shrinks [OF skip])
  show ?thesis
    unfolding shrinks_def read_format_data_page_header_def
    by (intro allI impI less_imp_le, erule struct_then_shrinks [OF h, rotated]) (auto simp: bind_result_eq_Inr)
qed

lemma index_page_header_shrinks:
  assumes skip: "skip_shrinks lib"
  shows "shrinks (read_format_index_page_header lib)"
proof -
  have "handler_shrinks (index_page_fields lib)"
    using skip by (auto simp: handler_shrinks_def shrinks_def index_page_fields_def skip_shrinks_def bind_result_eq_Inr)
  then show ?thesis using struct_shrinks by (simp add: read_format_index_page_header_def [abs_def])
qed

lemma dictionary_page_header_shrinks:
  assumes skip: "skip_shrinks lib"
  shows "shrinks (read_format_dictionary_page_header lib)"
proof -
  have h: "handler_shrinks (dictionary_page_fields lib)"
    unfolding dictionary_page_fields_def by (rule match_field_shrinks [OF skip]) (simp add: set_field_shrinks)
  show ?thesis
    unfolding shrinks_def read_format_dictionary_page_header_def
    by (intro allI impI less_imp_le, erule struct_then_shrinks [OF h, rotated]) (auto simp: bind_result_eq_Inr)
qed

lemma data_page_header_v2_shrinks:
  assumes skip: "skip_shrinks lib"
  shows "shrinks (read_format_data_page_header_v2 lib)"
proof -
  have h: "handler_shrinks (data_page_v2_fields lib)"
    unfolding data_page_v2_fields_def
    by (rule match_field_shrinks [OF skip]) (simp add: set_field_shrinks statistics_shrinks [OF skip])
  show ?thesis
    unfolding shrinks_def read_format_data_page_header_v2_def
    by (intro allI impI less_imp_le, erule struct_then_shrinks [OF h, rotated]) (auto simp: bind_result_eq_Inr)
qed

lemma page_header_shrinks:
  assumes skip: "skip_shrinks lib" and read: "read_format_page_header lib i = Inr (h, i')"
  shows "length (ti_buf i') < length (ti_buf i)"
proof -
  have h: "handler_shrinks (page_header_fields lib)"
    unfolding page_header_fields_def
    by (rule match_field_shrinks [OF skip])
       (simp add: set_field_shrinks data_page_header_shrinks [OF skip] index_page_header_shrinks [OF skip]
         dictionary_page_header_shrinks [OF skip] data_page_header_v2_shrinks [OF skip])
  show ?thesis
    using read unfolding read_format_page_header_def
    by (rule struct_then_shrinks [OF h, rotated]) (auto simp: bind_result_eq_Inr)
qed

section \<open>The loop of the column reader ends\<close>

lemma load_page_progress:
  "load_page env m pr = Inr pr' \<Longrightarrow> pr_chunk pr' = pr_chunk pr \<and> pr_chunk_offset pr \<le> pr_chunk_offset pr'"
  by (auto simp: load_page_def bind_result_eq_Inr)

lemma load_page_v2_progress:
  "load_page_v2 env m h pr = Inr pr' \<Longrightarrow> pr_chunk pr' = pr_chunk pr \<and> pr_chunk_offset pr \<le> pr_chunk_offset pr'"
  by (auto simp: load_page_v2_def bind_result_eq_Inr Let_def split: option.splits if_splits)

lemma set_decoder_progress:
  "set_decoder kind e pr = Inr pr' \<Longrightarrow> pr_chunk pr' = pr_chunk pr \<and> pr_chunk_offset pr' = pr_chunk_offset pr"
  by (auto simp: set_decoder_def take_remaining_def bind_result_eq_Inr)

lemma prepare_page_progress:
  "prepare_data_page env kind m h1 pr = Inr pr' \<Longrightarrow>
    pr_chunk pr' = pr_chunk pr \<and> pr_chunk_offset pr \<le> pr_chunk_offset pr'"
  "prepare_data_page_v2 env kind m h2 pr = Inr pr' \<Longrightarrow>
    pr_chunk pr' = pr_chunk pr \<and> pr_chunk_offset pr \<le> pr_chunk_offset pr'"
  "prepare_dictionary env kind m h3 pr = Inr pr' \<Longrightarrow>
    pr_chunk pr' = pr_chunk pr \<and> pr_chunk_offset pr \<le> pr_chunk_offset pr'"
  by (auto simp: prepare_data_page_def prepare_data_page_v2_def prepare_dictionary_def bind_result_eq_Inr
      take_remaining_def dest!: load_page_progress load_page_v2_progress set_decoder_progress)

lemma prepare_next_progress:
  assumes "skip_shrinks (pe_lib env)" "prepare_next env kind pr = Inr pr'"
  shows "pr_chunk pr' = pr_chunk pr" "pr_chunk_offset pr < pr_chunk_offset pr'" "pr_chunk_offset pr < length (pr_chunk pr)"
proof -
  obtain h pr1 and hd :: page_header where h: "read_header env pr = Inr (h, pr1)"
      and page: "(case ph_page_type hd of
          DataPage page \<Rightarrow> prepare_data_page env kind (ph_metadata hd) page pr1
        | DataPageV2 page \<Rightarrow> prepare_data_page_v2 env kind (ph_metadata hd) page pr1
        | DictionaryPage page \<Rightarrow> prepare_dictionary env kind (ph_metadata hd) page pr1) = Inr pr'"
    using assms(2) unfolding prepare_next_def by (auto simp: bind_result_eq_Inr split: if_splits)
  have rest: "pr_chunk pr' = pr_chunk pr1 \<and> pr_chunk_offset pr1 \<le> pr_chunk_offset pr'"
    using page prepare_page_progress [of env kind _ _ pr1 pr'] by (cases "ph_page_type hd") simp_all
  obtain i where "read_format_page_header (pe_lib env) (thrift_in_new (drop (pr_chunk_offset pr) (pr_chunk pr))) = Inr (h, i)"
      and pr1: "usize_sub (length (pr_chunk pr) - pr_chunk_offset pr) (length (ti_buf i)) = Inr (pr_chunk_offset pr1 - pr_chunk_offset pr)"
      "pr_chunk_offset pr \<le> pr_chunk_offset pr1" "pr_chunk pr1 = pr_chunk pr"
    using h by (auto simp: read_header_def bind_result_eq_Inr Let_def split: if_splits)
  then have "length (ti_buf i) < length (pr_chunk pr) - pr_chunk_offset pr"
    using page_header_shrinks [OF assms(1)] by (fastforce simp: thrift_in_new_def)
  then show "pr_chunk pr' = pr_chunk pr" "pr_chunk_offset pr < pr_chunk_offset pr'" "pr_chunk_offset pr < length (pr_chunk pr)"
    using pr1 rest by (auto simp: usize_sub_def split: if_splits)
qed

lemma read_loop_done [simp]: "read_loop env kind fuel pr out offset 0 = Some (Inr (out, pr))"
  by (simp add: read_loop.simps)

lemma read_loop_prepare:
  "0 < remaining \<Longrightarrow> ss_remaining (pr_state pr) = 0 \<Longrightarrow>
    read_loop env kind (Suc fuel) pr out offset remaining =
      (case prepare_next env kind pr of Inl e \<Rightarrow> Some (Inl e) | Inr pr \<Rightarrow> read_loop env kind fuel pr out offset remaining)"
  by (subst read_loop.simps) simp

lemma read_loop_rows:
  assumes "0 < remaining" "n = min remaining (ss_remaining (pr_state pr))" "0 < n"
  shows "read_loop env kind (Suc fuel) pr out offset remaining =
      (case read_from_page kind (cd_max_def_level (pr_descr pr)) (pr_state pr) out offset n of
         Inl e \<Rightarrow> Some (Inl e)
       | Inr (out, st) \<Rightarrow> read_loop env kind fuel (pr\<lparr>pr_state := st\<rparr>) out (offset + n) (remaining - n))"
  unfolding assms(2) using assms by (subst read_loop.simps) (simp add: Let_def)

lemma read_loop_ends:
  assumes skip: "skip_shrinks (pe_lib env)"
  shows "length (pr_chunk pr) - pr_chunk_offset pr + remaining \<le> fuel \<Longrightarrow>
    read_loop env kind fuel pr out offset remaining \<noteq> None"
proof (induction fuel arbitrary: pr out offset remaining)
  case (Suc fuel)
  let ?n = "min remaining (ss_remaining (pr_state pr))"
  consider "remaining = 0" | "0 < remaining" "ss_remaining (pr_state pr) = 0" | "0 < remaining" "0 < ?n"
    by (cases "remaining = 0"; cases "ss_remaining (pr_state pr) = 0") auto
  then show ?case
  proof cases
    case 2
    have "length (pr_chunk pr') - pr_chunk_offset pr' + remaining \<le> fuel" if "prepare_next env kind pr = Inr pr'" for pr'
      using prepare_next_progress [OF skip that] Suc.prems by auto
    then show ?thesis
      using Suc.IH read_loop_prepare [OF 2, of env kind fuel out offset] by (cases "prepare_next env kind pr") simp_all
  next
    case 3
    have "length (pr_chunk pr) - pr_chunk_offset pr + (remaining - ?n) \<le> fuel" using 3 Suc.prems by linarith
    then have "read_loop env kind fuel (pr\<lparr>pr_state := st\<rparr>) out' (offset + ?n) (remaining - ?n) \<noteq> None" for st out'
      by (intro Suc.IH) simp
    then show ?thesis
      unfolding read_loop_rows [OF 3(1) refl 3(2)]
      by (cases "read_from_page kind (cd_max_def_level (pr_descr pr)) (pr_state pr) out offset ?n") (simp_all split: prod.split)
  qed simp
qed simp

text \<open>
  C38. Reading from a column always ends: whatever bytes the chunk holds, however many pages
  without values it has and whatever the decoders return, the loop of the column reader stops
  with rows or an error, provided that skipping an unknown Thrift field never gives bytes back.
\<close>

theorem column_read_terminates:
  assumes "skip_shrinks (pe_lib env)"
  shows "\<exists>r. column_read env kind pr out n = Some r"
  using read_loop_ends [OF assms, of pr n "length (pr_chunk pr) + n" kind out 0] by (simp add: column_read_def)

text \<open>A Thrift library that can skip scalar fields, and an allocator that returns zeroed memory.\<close>

definition scalar_lib :: thrift_lib where
  "scalar_lib =
     \<lparr>tl_skip = (\<lambda>ty i.
        case ty of
          TBool \<Rightarrow> map_result snd (ti_read_bool i) | TI32 \<Rightarrow> map_result snd (ti_read_i32 i)
        | TI64 \<Rightarrow> map_result snd (ti_read_i64 i) | TString \<Rightarrow> map_result snd (ti_read_bytes i)
        | _ \<Rightarrow> Inl (DbError ''cannot skip field'')),
      tl_field_id = (\<lambda>f. case f of Some fid \<Rightarrow> Inr fid | None \<Rightarrow> Inl (DbError ''missing field id'')),
      tl_verify = (\<lambda>b. if b then Inr () else Inl (DbError ''missing required field''))\<rparr>"

definition zeroed_env :: page_env where
  "zeroed_env = \<lparr>pe_lib = scalar_lib, pe_resize = (\<lambda>n. Inr (replicate n 0))\<rparr>"

lemma scalar_lib_ok: "thrift_lib_ok scalar_lib" "skip_shrinks scalar_lib"
proof -
  show "thrift_lib_ok scalar_lib" by (simp add: thrift_lib_ok_def scalar_lib_def)
  show "skip_shrinks scalar_lib"
    unfolding skip_shrinks_def scalar_lib_def
    by (auto simp: map_result_def bind_result_eq_Inr split: ttype.splits dest!: shrinksD [rotated])
qed

definition flat_descr :: "parquet_type \<Rightarrow> i16 \<Rightarrow> unit column_descriptor" where
  "flat_descr physical max_def =
     \<lparr>cd_primitive_type = \<lparr>pt_basic_info = (), pt_physical_type = physical, pt_type_length = 0, pt_scale = 0, pt_precision = 0\<rparr>,
      cd_max_def_level = max_def, cd_max_rep_level = 0, cd_path = [''a'']\<rparr>"

theorem column_read_terminates_witness:
  "\<exists>r. column_read zeroed_env (word_kind :: (unit, 32 word) column_kind)
     (prepare_for_chunk None [0x15, 0x00, 0xFF] (page_reader_new word_kind (flat_descr INT32 1))) (array_new 0 3) 3 = Some r"
  by (rule column_read_terminates) (simp add: zeroed_env_def scalar_lib_ok)

end
