(* ===== verification/Column_Chunk.thy ===== *)
theory Column_Chunk
  imports Page_Reader
begin

text \<open>
  The rows of a column chunk: what a page reader and a column reader return for a chunk whose
  pages were written by the encoders. The theory composes the page headers, the level and value
  decoders and the loop of the column reader.

  The locale \<open>column_contract\<close> is the interface between the column reader and the page decoders
  of a value type: every decoder keeps the contract \<open>page_source\<close>. It is interpreted for
  integers, booleans, byte arrays and strings. Delta packed integers are outside of the contract,
  since two reads from their decoder overlap (theory \<open>Delta_Encoder\<close>).
\<close>

section \<open>Rows that remain in a page\<close>

lemma expand_append: "expand (ps @ qs) vs = expand ps vs @ expand qs (drop (count_list ps True) vs)"
  by (induction ps vs rule: expand.induct) (simp_all add: drop_Suc)

lemma expand_take_drop:
  "take n (expand ps vs) = expand (take n ps) vs"
  "drop n (expand ps vs) = expand (drop n ps) (drop (count_list (take n ps) True) vs)"
  using expand_append [of "take n ps" "drop n ps" vs] by (auto simp: min_def not_le)

definition levels_left :: "rle_decoder option \<Rightarrow> i16 list \<Rightarrow> bool" where
  "levels_left dec ls \<longleftrightarrow> (case dec of None \<Rightarrow> True | Some d \<Rightarrow> \<exists>pad. denotes d (map scast ls @ pad))"

definition is_present :: "i16 \<Rightarrow> rle_decoder option \<Rightarrow> i16 list \<Rightarrow> bool list" where
  "is_present max_def dec ls = map (\<lambda>l. dec \<noteq> None \<longrightarrow> \<not> sint l < sint max_def) ls"

lemma length_is_present [simp]: "length (is_present max_def dec ls) = length ls"
  by (simp add: is_present_def)

definition state_holds ::
    "('v array_out \<Rightarrow> 'r page_decoder \<Rightarrow> 'v list \<Rightarrow> bool) \<Rightarrow> i16 \<Rightarrow> ('r, 'v) scan_state \<Rightarrow> 'v option list \<Rightarrow> bool" where
  "state_holds dec_holds max_def st rs \<longleftrightarrow> ss_remaining st = length rs \<and> (rs \<noteq> [] \<longrightarrow>
     (\<exists>dec vs ls reps. ss_decoder st = Some dec \<and> dec_holds (ss_dictionary st) dec vs
       \<and> levels_left (ss_definitions st) ls \<and> levels_left (ss_repetitions st) reps
       \<and> (\<forall>l \<in> set ls. sint l \<le> sint max_def) \<and> length ls = length rs \<and> length reps = length rs
       \<and> count_list (is_present max_def (ss_definitions st) ls) True \<le> length vs
       \<and> rs = expand (is_present max_def (ss_definitions st) ls) vs))"

lemma state_holdsI:
  assumes "ss_remaining st = length rs" "ss_decoder st = Some dec" "dec_holds (ss_dictionary st) dec vs"
    and "levels_left (ss_definitions st) ls" "levels_left (ss_repetitions st) reps" "\<forall>l \<in> set ls. sint l \<le> sint max_def"
    and "length ls = length rs" "length reps = length rs"
    and "count_list (is_present max_def (ss_definitions st) ls) True \<le> length vs"
    and "rs = expand (is_present max_def (ss_definitions st) ls) vs"
  shows "state_holds dec_holds max_def st rs"
  using assms unfolding state_holds_def by blast

lemma read_left:
  assumes "denotes d (map scast ls @ pad)" "n \<le> length (ls :: i16 list)"
  shows "\<exists>d'. rle_read n d = Inr (take n ls, d') \<and> denotes d' (map scast (drop n ls) @ pad)"
  using rle_read_denotes [OF assms(1), of n, where ?'a = 16] assms(2)
  by (auto simp: take_map drop_map from_u64_scast comp_def)

lemma read_left_opt:
  assumes left: "levels_left dec ls" "n \<le> length ls" and upd: "dec = None \<Longrightarrow> upd None st = st"
  shows "\<exists>xs d. (case dec of None \<Rightarrow> Inr (replicate n 0, st)
      | Some d \<Rightarrow> bind_result (rle_read n d) (\<lambda>(xs, d). Inr (xs, upd (Some d) st))) = Inr (xs :: i16 list, upd d st)
    \<and> (dec \<noteq> None \<longrightarrow> xs = take n ls) \<and> (d = None \<longleftrightarrow> dec = None) \<and> levels_left d (drop n ls)"
proof (cases dec)
  case None
  then show ?thesis using upd by (intro exI [of _ "replicate n 0"] exI [of _ None]) (simp add: levels_left_def)
next
  case (Some d)
  then obtain pad where "denotes d (map scast ls @ pad)" using left(1) by (auto simp: levels_left_def)
  from read_left [OF this left(2)] obtain d' where
    "rle_read n d = Inr (take n ls, d')" "denotes d' (map scast (drop n ls) @ pad)" by blast
  then show ?thesis
    using Some by (intro exI [of _ "take n ls"] exI [of _ "Some d'"]) (auto simp: levels_left_def)
qed

lemma read_levels_left:
  assumes "levels_left (ss_definitions st) ls" "levels_left (ss_repetitions st) reps" "n \<le> length ls" "n \<le> length reps"
  shows "\<exists>defs reps' d r. read_levels (replicate n 0) (replicate n 0) st =
      Inr (defs, reps', st\<lparr>ss_definitions := d, ss_repetitions := r\<rparr>)
    \<and> (ss_definitions st \<noteq> None \<longrightarrow> defs = take n ls)
    \<and> (d = None \<longleftrightarrow> ss_definitions st = None) \<and> levels_left d (drop n ls) \<and> levels_left r (drop n reps)"
proof -
  obtain defs d where d: "(case ss_definitions st of None \<Rightarrow> Inr (replicate n 0, st)
      | Some d \<Rightarrow> bind_result (rle_read n d) (\<lambda>(defs, d). Inr (defs, st\<lparr>ss_definitions := Some d\<rparr>))) =
        Inr (defs, st\<lparr>ss_definitions := d\<rparr>)"
      "ss_definitions st \<noteq> None \<longrightarrow> defs = take n ls" "d = None \<longleftrightarrow> ss_definitions st = None" "levels_left d (drop n ls)"
    using read_left_opt [OF assms(1,3), of "\<lambda>d st. st\<lparr>ss_definitions := d\<rparr>" st] by auto
  obtain reps' :: "i16 list" and r where r: "(case ss_repetitions st of None \<Rightarrow> Inr (replicate n 0, st\<lparr>ss_definitions := d\<rparr>)
      | Some r \<Rightarrow> bind_result (rle_read n r)
          (\<lambda>(reps, r). Inr (reps, st\<lparr>ss_definitions := d, ss_repetitions := Some r\<rparr>))) =
        Inr (reps', st\<lparr>ss_definitions := d, ss_repetitions := r\<rparr>)" "levels_left r (drop n reps)"
    using read_left_opt [OF assms(2,4), of "\<lambda>r st. st\<lparr>ss_repetitions := r\<rparr>" "st\<lparr>ss_definitions := d\<rparr>", simplified] by blast
  have "read_levels (replicate n 0) (replicate n 0) st = Inr (defs, reps', st\<lparr>ss_definitions := d, ss_repetitions := r\<rparr>)"
    unfolding read_levels_def length_replicate d(1) using r(1) by simp
  then show ?thesis by (intro exI conjI) (assumption | rule d(2-) r(2))+
qed

lemma overwrite_append:
  "i + length ys + length zs \<le> length xs \<Longrightarrow>
    overwrite (i + length ys) zs (overwrite i ys xs) = overwrite i (ys @ zs) xs"
  by (simp add: overwrite_def ac_simps)

section \<open>Pages that follow in a chunk\<close>

definition same_chunk :: "('b, 'r, 'v) page_reader \<Rightarrow> ('b, 'r, 'v) page_reader \<Rightarrow> bool" where
  "same_chunk pr pr' \<longleftrightarrow> pr_descr pr' = pr_descr pr \<and> pr_chunk_offset pr' = pr_chunk_offset pr
     \<and> pr_chunk pr' = pr_chunk pr \<and> pr_chunk_capacity pr' = pr_chunk_capacity pr \<and> pr_codec pr' = pr_codec pr
     \<and> ss_dictionary (pr_state pr') = ss_dictionary (pr_state pr)"

definition page_opens ::
    "page_env \<Rightarrow> ('r, 'v) column_kind \<Rightarrow> ('v array_out \<Rightarrow> 'r page_decoder \<Rightarrow> 'v list \<Rightarrow> bool)
      \<Rightarrow> ('b, 'r, 'v) page_reader \<Rightarrow> 'v option list \<Rightarrow> ('b, 'r, 'v) page_reader \<Rightarrow> bool" where
  "page_opens env kind dec_holds pr rs pr' \<longleftrightarrow> pr_descr pr' = pr_descr pr \<and>
     (\<forall>pr1. same_chunk pr pr1 \<and> ss_remaining (pr_state pr1) = 0 \<longrightarrow>
       (\<exists>pr2. prepare_next env kind pr1 = Inr pr2 \<and> same_chunk pr' pr2
         \<and> state_holds dec_holds (cd_max_def_level (pr_descr pr')) (pr_state pr2) rs))"

fun pages_follow ::
    "page_env \<Rightarrow> ('r, 'v) column_kind \<Rightarrow> ('v array_out \<Rightarrow> 'r page_decoder \<Rightarrow> 'v list \<Rightarrow> bool)
      \<Rightarrow> ('b, 'r, 'v) page_reader \<Rightarrow> 'v option list list \<Rightarrow> bool" where
  "pages_follow env kind dec_holds pr [] \<longleftrightarrow> True"
| "pages_follow env kind dec_holds pr (rs # rss) \<longleftrightarrow>
     (\<exists>pr'. page_opens env kind dec_holds pr rs pr' \<and> pages_follow env kind dec_holds pr' rss)"

definition column_holds ::
    "page_env \<Rightarrow> ('r, 'v) column_kind \<Rightarrow> ('v array_out \<Rightarrow> 'r page_decoder \<Rightarrow> 'v list \<Rightarrow> bool)
      \<Rightarrow> ('b, 'r, 'v) page_reader \<Rightarrow> 'v option list \<Rightarrow> bool" where
  "column_holds env kind dec_holds pr rs \<longleftrightarrow> (\<exists>base rs0 rss. rs = rs0 @ concat rss
     \<and> pages_follow env kind dec_holds base rss \<and> same_chunk base pr
     \<and> state_holds dec_holds (cd_max_def_level (pr_descr pr)) (pr_state pr) rs0)"

lemma same_chunk_state:
  "same_chunk base pr \<Longrightarrow> ss_dictionary st = ss_dictionary (pr_state pr) \<Longrightarrow> same_chunk base (pr\<lparr>pr_state := st\<rparr>)"
  by (simp add: same_chunk_def)

lemma column_holds_next:
  assumes "column_holds env kind dec_holds pr rs" "ss_remaining (pr_state pr) = 0" "rs \<noteq> []"
  shows "\<exists>pr'. prepare_next env kind pr = Inr pr' \<and> column_holds env kind dec_holds pr' rs"
proof -
  obtain base rs0 rss where *: "rs = rs0 @ concat rss" "pages_follow env kind dec_holds base rss" "same_chunk base pr"
      "state_holds dec_holds (cd_max_def_level (pr_descr pr)) (pr_state pr) rs0"
    using assms(1) unfolding column_holds_def by blast
  have "rs0 = []" using *(4) assms(2) by (simp add: state_holds_def)
  then obtain rs1 rss1 where rss: "rss = rs1 # rss1" using assms(3) *(1) by (cases rss) auto
  then obtain base1 where base1: "page_opens env kind dec_holds base rs1 base1" "pages_follow env kind dec_holds base1 rss1"
    using *(2) by auto
  then obtain pr2 where pr2: "prepare_next env kind pr = Inr pr2" "same_chunk base1 pr2"
      "state_holds dec_holds (cd_max_def_level (pr_descr base1)) (pr_state pr2) rs1"
    using *(3) assms(2) unfolding page_opens_def by blast
  moreover have "pr_descr pr2 = pr_descr base1" using pr2(2) by (simp add: same_chunk_def)
  ultimately have "column_holds env kind dec_holds pr2 rs"
    unfolding column_holds_def using base1(2) rss *(1) \<open>rs0 = []\<close> by auto
  with pr2(1) show ?thesis by blast
qed

section \<open>The contract of a value type\<close>

locale column_contract =
  fixes kind :: "('r, 'v) column_kind"
    and dec_holds :: "'v array_out \<Rightarrow> 'r page_decoder \<Rightarrow> 'v list \<Rightarrow> bool"
  assumes decoders: "page_source (decode_page kind dictionary) (dec_holds dictionary)"
begin

lemma read_from_page_rows:
  assumes st: "state_holds dec_holds max_def st rs" and n: "0 < n" "n \<le> length rs"
    and a: "array_wf a" "writable offset n a"
  shows "\<exists>a' st'. read_from_page kind max_def st a offset n = Inr (a', st') \<and> array_wf a'
    \<and> state_holds dec_holds max_def st' (drop n rs) \<and> rows a' = overwrite offset (take n rs) (rows a)
    \<and> ss_dictionary st' = ss_dictionary st"
proof -
  obtain dec vs ls reps where *: "ss_decoder st = Some dec" "dec_holds (ss_dictionary st) dec vs"
      "levels_left (ss_definitions st) ls" "levels_left (ss_repetitions st) reps" "\<forall>l \<in> set ls. sint l \<le> sint max_def"
      "length ls = length rs" "length reps = length rs"
      "count_list (is_present max_def (ss_definitions st) ls) True \<le> length vs"
      "rs = expand (is_present max_def (ss_definitions st) ls) vs" "ss_remaining st = length rs"
    using st n unfolding state_holds_def by (metis list.size(3) not_le)
  let ?ps = "is_present max_def (ss_definitions st)"
  obtain defs reps' d r where read: "read_levels (replicate n 0) (replicate n 0) st =
      Inr (defs, reps', st\<lparr>ss_definitions := d, ss_repetitions := r\<rparr>)"
      "ss_definitions st \<noteq> None \<longrightarrow> defs = take n ls" "d = None \<longleftrightarrow> ss_definitions st = None"
      "levels_left d (drop n ls)" "levels_left r (drop n reps)"
    using read_levels_left [OF *(3,4), of n] *(6,7) n by auto
  let ?d = "if d \<noteq> None then HasDefinitions defs max_def else NoDefinitions"
  have present: "present ?d n = ?ps (take n ls)"
    using read(2,3) n *(6) by (auto simp: present_def is_present_def map_replicate_const min_def)
  have ok: "defs_ok ?d n" using read(2,3) *(5,6) n by (auto dest: in_set_takeD)
  have count: "count_list (?ps ls) True = count_list (?ps (take n ls)) True + count_list (?ps (drop n ls)) True"
    unfolding count_list_append [symmetric] is_present_def map_append [symmetric] by simp
  have "count_list (present ?d n) True \<le> length vs" unfolding present using *(8) count by linarith
  from page_source.page_rows [OF decoders *(2) ok a this]
  obtain a' dec' where dec: "decode_page kind (ss_dictionary st) dec ?d a offset n = Inr (a', dec')" "array_wf a'"
      "dec_holds (ss_dictionary st) dec' (drop (count_list (?ps (take n ls)) True) vs)"
      "rows a' = overwrite offset (expand (?ps (take n ls)) vs) (rows a)"
    unfolding present by blast
  let ?st = "st\<lparr>ss_definitions := d, ss_repetitions := r, ss_decoder := Some dec', ss_remaining := ss_remaining st - n\<rparr>"
  have "is_present max_def d = ?ps" using read(3) by (intro ext) (simp add: is_present_def)
  moreover have "rs = expand (?ps (take n ls)) vs @ expand (?ps (drop n ls)) (drop (count_list (?ps (take n ls)) True) vs)"
    unfolding *(9) by (simp only: flip: expand_append) (simp add: is_present_def flip: map_append)
  moreover have "length (?ps (take n ls)) = n" using n *(6) by (simp add: is_present_def)
  ultimately have rows: "take n rs = expand (?ps (take n ls)) vs"
      "drop n rs = expand (is_present max_def d (drop n ls)) (drop (count_list (?ps (take n ls)) True) vs)"
      "count_list (is_present max_def d (drop n ls)) True \<le> length (drop (count_list (?ps (take n ls)) True) vs)"
    using *(8) count by auto
  have "state_holds dec_holds max_def ?st (drop n rs)"
    using dec(3) read(4,5) *(5,6,7,10) rows(2,3)
    by (intro state_holdsI [of _ _ dec' _ "drop (count_list (?ps (take n ls)) True) vs" "drop n ls" "drop n reps"])
       (auto dest: in_set_dropD)
  then show ?thesis
    using read(1) dec rows(1) *(1) by (auto simp: read_from_page_def Let_def)
qed

lemma column_holds_rows:
  assumes pr: "column_holds env kind dec_holds pr rs" and n: "0 < n" "n = min remaining (ss_remaining (pr_state pr))"
    and rest: "remaining \<le> length rs" and a: "array_wf a" "writable offset remaining a"
  shows "\<exists>a' st. read_from_page kind (cd_max_def_level (pr_descr pr)) (pr_state pr) a offset n = Inr (a', st)
    \<and> array_wf a' \<and> writable (offset + n) (remaining - n) a' \<and> column_holds env kind dec_holds (pr\<lparr>pr_state := st\<rparr>) (drop n rs)
    \<and> rows a' = overwrite offset (take n rs) (rows a) \<and> n \<le> remaining"
proof -
  obtain base rs0 rss where *: "rs = rs0 @ concat rss" "pages_follow env kind dec_holds base rss" "same_chunk base pr"
      "state_holds dec_holds (cd_max_def_level (pr_descr pr)) (pr_state pr) rs0"
    using pr unfolding column_holds_def by blast
  have len: "n \<le> length rs0" "n \<le> remaining" using *(4) n by (auto simp: state_holds_def)
  then have "writable offset n a" using a(2) by (auto simp: writable_def)
  from read_from_page_rows [OF *(4) n(1) len(1) a(1) this] obtain a' st where
    read: "read_from_page kind (cd_max_def_level (pr_descr pr)) (pr_state pr) a offset n = Inr (a', st)" "array_wf a'"
      "state_holds dec_holds (cd_max_def_level (pr_descr pr)) st (drop n rs0)"
      "rows a' = overwrite offset (take n rs0) (rows a)" "ss_dictionary st = ss_dictionary (pr_state pr)"
    by blast
  have "column_holds env kind dec_holds (pr\<lparr>pr_state := st\<rparr>) (drop n rs)"
    unfolding column_holds_def using *(1,2) len(1) read(3) same_chunk_state [OF *(3) read(5)]
    by (intro exI [of _ base] exI [of _ "drop n rs0"] exI [of _ rss]) simp
  moreover have "take n rs = take n rs0" using *(1) len(1) by simp
  moreover have "writable (offset + n) (remaining - n) a'"
    using a(2) len unfolding writable_rows [OF a(1)] writable_rows [OF read(2)] read(4)
    by (auto simp: overwrite_def nth_append add.assoc)
  ultimately show ?thesis using read(1,2,4) len(2) by auto
qed

lemma read_loop_holds:
  "column_holds env kind dec_holds pr rs \<Longrightarrow> remaining \<le> length rs \<Longrightarrow> array_wf a \<Longrightarrow> writable offset remaining a \<Longrightarrow>
    read_loop env kind fuel pr a offset remaining \<noteq> None \<Longrightarrow>
    \<exists>a' pr'. read_loop env kind fuel pr a offset remaining = Some (Inr (a', pr')) \<and> array_wf a'
      \<and> column_holds env kind dec_holds pr' (drop remaining rs)
      \<and> rows a' = overwrite offset (take remaining rs) (rows a)"
proof (induction fuel arbitrary: pr rs a offset remaining)
  case 0
  then have "remaining = 0" by (auto simp: read_loop.simps split: if_splits)
  then show ?case using 0 by (simp add: overwrite_def)
next
  case (Suc fuel)
  let ?n = "min remaining (ss_remaining (pr_state pr))"
  consider "remaining = 0" | "0 < remaining" "ss_remaining (pr_state pr) = 0" | "0 < remaining" "0 < ?n"
    by (cases "remaining = 0"; cases "ss_remaining (pr_state pr) = 0") auto
  then show ?case
  proof cases
    case 1
    then show ?thesis using Suc.prems by (simp add: overwrite_def)
  next
    case 2
    then obtain pr' where "prepare_next env kind pr = Inr pr'" "column_holds env kind dec_holds pr' rs"
      using column_holds_next [OF Suc.prems(1)] Suc.prems(2) by force
    then show ?thesis using Suc.IH [of pr' rs remaining a offset] Suc.prems(2-5) read_loop_prepare [OF 2] by simp
  next
    case 3
    obtain a' st where read: "read_from_page kind (cd_max_def_level (pr_descr pr)) (pr_state pr) a offset ?n = Inr (a', st)"
        "array_wf a'" "writable (offset + ?n) (remaining - ?n) a'"
        "column_holds env kind dec_holds (pr\<lparr>pr_state := st\<rparr>) (drop ?n rs)"
        "rows a' = overwrite offset (take ?n rs) (rows a)" "?n \<le> remaining"
      using column_holds_rows [OF Suc.prems(1) 3(2) refl Suc.prems(2-4)] by blast
    let ?r = "read_loop env kind fuel (pr\<lparr>pr_state := st\<rparr>) a' (offset + ?n) (remaining - ?n)"
    have step: "read_loop env kind (Suc fuel) pr a offset remaining = ?r"
      using read(1) unfolding read_loop_rows [OF 3(1) refl 3(2)] by simp
    have "remaining - ?n \<le> length (drop ?n rs)" using Suc.prems(2) by simp
    from Suc.IH [OF read(4) this read(2,3)] obtain a2 pr2 where r: "?r = Some (Inr (a2, pr2))" "array_wf a2"
        "column_holds env kind dec_holds pr2 (drop (remaining - ?n) (drop ?n rs))"
        "rows a2 = overwrite (offset + ?n) (take (remaining - ?n) (drop ?n rs)) (rows a')"
      using Suc.prems(5) step by auto
    have "rows a2 = overwrite offset (take remaining rs) (rows a)"
    proof -
      have "offset + remaining \<le> length (rows a)" using Suc.prems(4) unfolding writable_rows [OF Suc.prems(3)] by simp
      then show ?thesis
        unfolding r(4) read(5) using overwrite_append [of offset "take ?n rs" "take (remaining - ?n) (drop ?n rs)" "rows a"]
          Suc.prems(2) read(6) take_add [of ?n "remaining - ?n" rs] by (simp add: min_absorb2)
    qed
    then show ?thesis using step r read(6) by simp
  qed
qed

theorem column_rows:
  assumes "skip_shrinks (pe_lib env)" "column_holds env kind dec_holds pr rs" "n \<le> length rs" "array_wf a" "writable 0 n a"
  shows "\<exists>a' pr'. column_read env kind pr a n = Some (Inr (a', pr')) \<and> array_wf a'
    \<and> column_holds env kind dec_holds pr' (drop n rs) \<and> rows a' = overwrite 0 (take n rs) (rows a)"
  using read_loop_holds [OF assms(2-5)] read_loop_ends [OF assms(1), of pr n "length (pr_chunk pr) + n"]
  by (simp add: column_read_def)

end

section \<open>The value types keep the contract\<close>

lemma wrapped_decoder:
  assumes "page_source rd holds" "holds d vs" "defs_ok defs n" "array_wf a" "writable offset n a"
    and "count_list (present defs n) True \<le> length vs"
    and "decode = map_result (\<lambda>(out, d). (out, C d)) (rd d defs a offset n)" "\<And>d vs. holds d vs \<Longrightarrow> H (C d) vs"
  shows "\<exists>a' dec'. decode = Inr (a', dec') \<and> array_wf a' \<and> H dec' (drop (count_list (present defs n) True) vs)
    \<and> rows a' = overwrite offset (expand (present defs n) vs) (rows a)"
  using page_source.page_rows [OF assms(1-6)] assms(7,8) by auto

fun word_holds :: "'a::len word array_out \<Rightarrow> unit page_decoder \<Rightarrow> 'a word list \<Rightarrow> bool" where
  "word_holds dictionary (PlainDec r c) vs \<longleftrightarrow> holds_words r c vs"
| "word_holds dictionary (DictionaryDec d) vs \<longleftrightarrow> dict_holds dictionary d vs"
| "word_holds dictionary (ByteStreamSplit4 ss) vs \<longleftrightarrow> split_holds ss vs"
| "word_holds dictionary (ByteStreamSplit8 ss) vs \<longleftrightarrow> split_holds ss vs"
| "word_holds dictionary _ vs \<longleftrightarrow> False"

fun bool_holds :: "bool array_out \<Rightarrow> nat page_decoder \<Rightarrow> bool list \<Rightarrow> bool" where
  "bool_holds dictionary (PlainDec r c) vs \<longleftrightarrow> holds_bools r c vs"
| "bool_holds dictionary (DictionaryDec d) vs \<longleftrightarrow> dict_holds dictionary d vs"
| "bool_holds dictionary (RleBool d) vs \<longleftrightarrow> rle_bool_holds d vs"
| "bool_holds dictionary _ vs \<longleftrightarrow> False"

fun bytes_holds ::
    "(unit \<Rightarrow> read_cursor \<Rightarrow> byte list list \<Rightarrow> bool) \<Rightarrow> byte list array_out \<Rightarrow> unit page_decoder \<Rightarrow> byte list list \<Rightarrow> bool"
where
  "bytes_holds holds dictionary (PlainDec r c) vs \<longleftrightarrow> holds r c vs"
| "bytes_holds holds dictionary (DictionaryDec d) vs \<longleftrightarrow> dict_holds dictionary d vs"
| "bytes_holds holds dictionary (DeltaLengthByteArray d c) vs \<longleftrightarrow> holds_delta_length d c vs"
| "bytes_holds holds dictionary (DeltaByteArray d c) vs \<longleftrightarrow> holds_delta_array d c vs"
| "bytes_holds holds dictionary _ vs \<longleftrightarrow> False"

lemmas decode_simps = decode_page_def plain_read_def delta_length_read_def delta_array_read_def
  word_kind_def bool_kind_def binary_kind_def utf8_kind_def case_prod_unfold

interpretation word_column: column_contract word_kind "word_holds :: 'a::len word array_out \<Rightarrow> _"
proof (intro column_contract.intro page_source.intro)
  fix dictionary a :: "'a word array_out" and dec vs defs n offset
  assume *: "word_holds dictionary dec vs" "defs_ok defs n" "array_wf a" "writable offset n a"
    "count_list (present defs n) True \<le> length vs"
  show "\<exists>a' d'. decode_page word_kind dictionary dec defs a offset n = Inr (a', d') \<and> array_wf a'
      \<and> word_holds dictionary d' (drop (count_list (present defs n) True) vs)
      \<and> rows a' = overwrite offset (expand (present defs n) vs) (rows a)"
  proof (cases dec)
    case (PlainDec r c)
    then show ?thesis
      using * by (intro wrapped_decoder [OF words.plain.page_source_axioms, of "(r, c)" _ _ _ _ _ _ "\<lambda>(r, c). PlainDec r c"])
        (auto simp: decode_simps)
  next
    case (DictionaryDec d)
    then show ?thesis
      using * by (intro wrapped_decoder [OF dictionary_page.page_source_axioms, of dictionary d _ _ _ _ _ _ DictionaryDec])
        (auto simp: decode_simps)
  next
    case (ByteStreamSplit4 ss)
    then show ?thesis
      using * by (intro wrapped_decoder [OF split_page.page_source_axioms, of ss _ _ _ _ _ _ ByteStreamSplit4])
        (auto simp: decode_simps)
  next
    case (ByteStreamSplit8 ss)
    then show ?thesis
      using * by (intro wrapped_decoder [OF split_page.page_source_axioms, of ss _ _ _ _ _ _ ByteStreamSplit8])
        (auto simp: decode_simps)
  qed (use * in auto)
qed

interpretation bool_column: column_contract bool_kind bool_holds
proof (intro column_contract.intro page_source.intro)
  fix dictionary a :: "bool array_out" and dec vs defs n offset
  assume *: "bool_holds dictionary dec vs" "defs_ok defs n" "array_wf a" "writable offset n a"
    "count_list (present defs n) True \<le> length vs"
  show "\<exists>a' d'. decode_page bool_kind dictionary dec defs a offset n = Inr (a', d') \<and> array_wf a'
      \<and> bool_holds dictionary d' (drop (count_list (present defs n) True) vs)
      \<and> rows a' = overwrite offset (expand (present defs n) vs) (rows a)"
  proof (cases dec)
    case (PlainDec r c)
    then show ?thesis
      using * by (intro wrapped_decoder [OF bools.plain.page_source_axioms, of "(r, c)" _ _ _ _ _ _ "\<lambda>(r, c). PlainDec r c"])
        (auto simp: decode_simps)
  next
    case (DictionaryDec d)
    then show ?thesis
      using * by (intro wrapped_decoder [OF dictionary_page.page_source_axioms, of dictionary d _ _ _ _ _ _ DictionaryDec])
        (auto simp: decode_simps)
  next
    case (RleBool d)
    then show ?thesis
      using * by (intro wrapped_decoder [OF rle_bool_page.page_source_axioms, of d _ _ _ _ _ _ RleBool])
        (auto simp: decode_simps)
  qed (use * in auto)
qed

lemma bytes_contract:
  assumes "page_source (plain_read (ck_read kind)) (\<lambda>(r, c). holds r c)"
    and "ck_delta_length kind = delta_length_read" "ck_delta_array kind = delta_array_read"
  shows "column_contract kind (bytes_holds holds)"
proof (intro column_contract.intro page_source.intro)
  fix dictionary a :: "byte list array_out" and dec vs defs n offset
  assume *: "bytes_holds holds dictionary dec vs" "defs_ok defs n" "array_wf a" "writable offset n a"
    "count_list (present defs n) True \<le> length vs"
  show "\<exists>a' d'. decode_page kind dictionary dec defs a offset n = Inr (a', d') \<and> array_wf a'
      \<and> bytes_holds holds dictionary d' (drop (count_list (present defs n) True) vs)
      \<and> rows a' = overwrite offset (expand (present defs n) vs) (rows a)"
  proof (cases dec)
    case (PlainDec r c)
    then show ?thesis
      using * by (intro wrapped_decoder [OF assms(1), of "(r, c)" _ _ _ _ _ _ "\<lambda>(r, c). PlainDec r c"])
        (auto simp: decode_simps)
  next
    case (DictionaryDec d)
    then show ?thesis
      using * by (intro wrapped_decoder [OF dictionary_page.page_source_axioms, of dictionary d _ _ _ _ _ _ DictionaryDec])
        (auto simp: decode_simps)
  next
    case (DeltaLengthByteArray d c)
    then show ?thesis
      using * by (intro wrapped_decoder [OF delta_lengths.plain.page_source_axioms, of "(d, c)" _ _ _ _ _ _ "\<lambda>(d, c). DeltaLengthByteArray d c"])
        (auto simp: assms decode_simps)
  next
    case (DeltaByteArray d c)
    then show ?thesis
      using * by (intro wrapped_decoder [OF delta_arrays.plain.page_source_axioms, of "(d, c)" _ _ _ _ _ _ "\<lambda>(d, c). DeltaByteArray d c"])
        (auto simp: assms decode_simps)
  qed (use * in auto)
qed

interpretation binary_column: column_contract binary_kind "bytes_holds holds_byte_arrays"
  by (rule bytes_contract) (simp_all add: binary_kind_def byte_arrays.plain.page_source_axioms)

interpretation utf8_column: column_contract utf8_kind "bytes_holds holds_strings"
  by (rule bytes_contract) (simp_all add: utf8_kind_def strings.plain.page_source_axioms)

section \<open>Opening a page\<close>

definition env_ok :: "page_env \<Rightarrow> bool" where
  "env_ok env \<longleftrightarrow> thrift_lib_ok (pe_lib env) \<and> skip_shrinks (pe_lib env)
     \<and> (\<forall>n < 2 ^ 31. \<exists>bs. pe_resize env n = Inr bs \<and> length bs = n)"

definition codec_ok :: "codec option \<Rightarrow> (byte list \<Rightarrow> byte list) \<Rightarrow> bool" where
  "codec_ok codec compress \<longleftrightarrow> (case codec of
     None \<Rightarrow> \<forall>bs. compress bs = bs
   | Some decompress \<Rightarrow> \<forall>bs dest. length dest = length bs \<longrightarrow> decompress (compress bs) dest = Inr bs)"

definition reader_at :: "('b, 'r, 'v) page_reader \<Rightarrow> byte list \<Rightarrow> bool" where
  "reader_at pr bytes \<longleftrightarrow> pr_chunk_offset pr \<le> length (pr_chunk pr) \<and> drop (pr_chunk_offset pr) (pr_chunk pr) = bytes
     \<and> length (pr_chunk pr) \<le> pr_chunk_capacity pr \<and> length (pr_chunk pr) < 2 ^ 64"

lemma reader_at_skip:
  "reader_at pr (xs @ ys) \<Longrightarrow> pr_chunk pr' = pr_chunk pr \<Longrightarrow> pr_chunk_capacity pr' = pr_chunk_capacity pr \<Longrightarrow>
    pr_chunk_offset pr' = pr_chunk_offset pr + length xs \<Longrightarrow> reader_at pr' ys"
proof -
  assume *: "reader_at pr (xs @ ys)" "pr_chunk pr' = pr_chunk pr" "pr_chunk_capacity pr' = pr_chunk_capacity pr"
    "pr_chunk_offset pr' = pr_chunk_offset pr + length xs"
  have "drop (length xs) (drop (pr_chunk_offset pr) (pr_chunk pr)) = ys"
    and "length (drop (pr_chunk_offset pr) (pr_chunk pr)) = length xs + length ys"
    using *(1) by (simp_all add: reader_at_def)
  then show "reader_at pr' ys" using * by (auto simp: reader_at_def add.commute)
qed

lemma same_chunk_at: "same_chunk pr pr' \<Longrightarrow> reader_at pr' bytes = reader_at pr bytes"
  by (simp add: same_chunk_def reader_at_def)

lemma try_u32_small: "n < 2 ^ 31 \<Longrightarrow> try_u32 (of_nat n) = Inr (of_nat n)"
  by (simp add: try_u32_def signed_of_nat signed_take_bit_int_eq_self)

lemma read_header_at:
  assumes "thrift_lib_ok (pe_lib env)" "format_page_header_ok h"
    and "reader_at pr (compact (write_format_page_header h) @ rest)"
  shows "read_header env pr = Inr (h, pr\<lparr>pr_chunk_offset := pr_chunk_offset pr + length (compact (write_format_page_header h))\<rparr>)"
proof -
  have "field_at (write_format_page_header h) rest 0 [] = thrift_in_new (compact (write_format_page_header h) @ rest)"
    by (simp add: field_at_def thrift_in_new_def write_format_page_header_def)
  then have "read_format_page_header (pe_lib env) (thrift_in_new (compact (write_format_page_header h) @ rest)) =
      Inr (h, thrift_at rest 0 [])"
    using reads_back_format_page_header [OF assms(1)] assms(2) unfolding reads_back_def by metis
  then show ?thesis
    using assms(3) by (auto simp: read_header_def reader_at_def usize_sub_def thrift_at_def Let_def)
qed

lemma load_page_at:
  assumes env: "env_ok env" and codec: "codec_ok (pr_codec pr) compress" and at: "reader_at pr (compress body @ rest)"
    and small: "length body < 2 ^ 31" "length (compress body) < 2 ^ 31"
    and m: "pm_uncompressed_page_size m = of_nat (length body)" "pm_compressed_page_size m = of_nat (length (compress body))"
  shows "load_page env m pr = Inr (pr\<lparr>pr_page := body, pr_chunk_offset := pr_chunk_offset pr + length (compress body)\<rparr>)"
proof -
  obtain dest where dest: "pe_resize env (length body) = Inr dest" "length dest = length body"
    using env small(1) unfolding env_ok_def by blast
  have len: "length (compress body) + length rest = length (pr_chunk pr) - pr_chunk_offset pr"
    using at unfolding reader_at_def by (metis length_append length_drop)
  have "chunk_slice (pr_chunk pr) (pr_chunk_offset pr) (length (compress body)) = Inr (compress body)"
    using at len by (auto simp: chunk_slice_def usize_add_def reader_at_def)
  moreover have "(case pr_codec pr of Some decompress \<Rightarrow> decompress (compress body) dest
      | None \<Rightarrow> copy_from_slice dest (compress body)) = Inr body"
    using codec dest(2) by (auto simp: codec_ok_def copy_from_slice_def split: option.splits)
  ultimately show ?thesis
    unfolding load_page_def m i32_as_usize_of_nat [OF small(1)] i32_as_usize_of_nat [OF small(2)] using dest(1) by simp
qed

definition page_header_of :: "format_page_type \<Rightarrow> (byte list \<Rightarrow> byte list) \<Rightarrow> byte list \<Rightarrow> format_page_header" where
  "page_header_of ty compress body =
     \<lparr>fp_type = ty, fp_uncompressed_page_size = of_nat (length body),
      fp_compressed_page_size = of_nat (length (compress body)), fp_crc = None, fp_data_page_header = None,
      fp_index_page_header = None, fp_dictionary_page_header = None, fp_data_page_header_v2 = None\<rparr>"

definition data_page_of :: "(byte list \<Rightarrow> byte list) \<Rightarrow> encoding \<Rightarrow> nat \<Rightarrow> byte list \<Rightarrow> format_page_header" where
  "data_page_of compress enc n body = (page_header_of DATA_PAGE compress body)
     \<lparr>fp_data_page_header := Some
        \<lparr>fd_num_values = of_nat n, fd_encoding = format_encoding_of enc,
         fd_definition_level_encoding = format_encoding_of RLE, fd_repetition_level_encoding = format_encoding_of RLE,
         fd_statistics = None\<rparr>\<rparr>"

definition dictionary_page_of :: "(byte list \<Rightarrow> byte list) \<Rightarrow> nat \<Rightarrow> byte list \<Rightarrow> format_page_header" where
  "dictionary_page_of compress n body = (page_header_of DICTIONARY_PAGE compress body)
     \<lparr>fp_dictionary_page_header := Some
        \<lparr>fk_num_values = of_nat n, fk_encoding = format_encoding_of PLAIN, fk_is_sorted = None\<rparr>\<rparr>"

definition page_bytes :: "format_page_header \<Rightarrow> (byte list \<Rightarrow> byte list) \<Rightarrow> byte list \<Rightarrow> byte list" where
  "page_bytes h compress body = compact (write_format_page_header h) @ compress body"

definition page_fits :: "(byte list \<Rightarrow> byte list) \<Rightarrow> nat \<Rightarrow> byte list \<Rightarrow> bool" where
  "page_fits compress n body \<longleftrightarrow> n < 2 ^ 31 \<and> length body < 2 ^ 31 \<and> length (compress body) < 2 ^ 31"

definition body_holds ::
    "('r, 'v) column_kind \<Rightarrow> ('v array_out \<Rightarrow> 'r page_decoder \<Rightarrow> 'v list \<Rightarrow> bool) \<Rightarrow> 'b column_descriptor \<Rightarrow> 'v array_out
      \<Rightarrow> encoding \<Rightarrow> byte list \<Rightarrow> 'v option list \<Rightarrow> bool" where
  "body_holds kind dec_holds descr dictionary enc body rs \<longleftrightarrow> (\<exists>r d page1 page2 dec.
     (\<forall>msg. level_decoder_for (cd_max_rep_level descr) RLE msg body = Inr (r, page1))
     \<and> (\<forall>msg. level_decoder_for (cd_max_def_level descr) RLE msg page1 = Inr (d, page2))
     \<and> init_page_decoder kind (cd_physical_type descr) enc page2 = Inr dec
     \<and> state_holds dec_holds (cd_max_def_level descr)
         \<lparr>ss_remaining = length rs, ss_definitions = d, ss_repetitions = r, ss_decoder = Some dec,
          ss_dictionary = dictionary\<rparr> rs)"

lemma header_of_ok [simp]:
  "format_page_header_ok (data_page_of compress enc n body)" "format_page_header_ok (dictionary_page_of compress n body)"
  by (simp_all add: format_page_header_ok_def format_data_page_header_ok_def data_page_of_def dictionary_page_of_def page_header_of_def)

lemma page_header_length: "0 < length (compact (write_format_page_header h))"
  by (simp add: write_format_page_header_def field_header_def)

lemma prepare_next_at:
  assumes env: "env_ok env" and ok: "format_page_header_ok h" and at: "reader_at pr (page_bytes h compress body @ rest)"
    and h: "try_from_format h (cd_physical_type (pr_descr pr)) = Inr \<lparr>ph_metadata = m, ph_page_type = ty\<rparr>"
  shows "prepare_next env kind pr =
    (let pr = pr\<lparr>pr_chunk_offset := pr_chunk_offset pr + length (compact (write_format_page_header h))\<rparr> in
     case ty of DataPage page \<Rightarrow> prepare_data_page env kind m page pr
     | DataPageV2 page \<Rightarrow> prepare_data_page_v2 env kind m page pr
     | DictionaryPage page \<Rightarrow> prepare_dictionary env kind m page pr)"
proof -
  have lib: "thrift_lib_ok (pe_lib env)" using env by (simp add: env_ok_def)
  have at': "reader_at pr (compact (write_format_page_header h) @ compress body @ rest)"
    using at by (simp add: page_bytes_def)
  have "length (drop (pr_chunk_offset pr) (pr_chunk pr)) > 0" using at' page_header_length [of h] by (simp add: reader_at_def)
  then have "pr_chunk_offset pr < pr_chunk_capacity pr" using at' by (simp add: reader_at_def)
  then show ?thesis unfolding prepare_next_def read_header_at [OF lib ok at'] using h by (cases ty) (simp_all add: Let_def)
qed

lemma data_page_format:
  "n < 2 ^ 31 \<Longrightarrow> try_from_format (data_page_of compress enc n body) physical =
    Inr \<lparr>ph_metadata = \<lparr>pm_uncompressed_page_size = of_nat (length body),
                        pm_compressed_page_size = of_nat (length (compress body)), pm_crc = None\<rparr>,
         ph_page_type = DataPage \<lparr>dp_num_values = of_nat n, dp_encoding = enc, dp_def_level_encoding = RLE,
           dp_rep_level_encoding = RLE, dp_statistics = None\<rparr>\<rparr>"
  using encoding_round_trip [of RLE]
  by (simp add: try_from_format_def data_page_of_def page_header_of_def data_from_format_def try_u32_small
      from_thrift_def DATA_PAGE_def DICTIONARY_PAGE_def)

lemma dictionary_page_format:
  "n < 2 ^ 31 \<Longrightarrow> try_from_format (dictionary_page_of compress n body) physical =
    Inr \<lparr>ph_metadata = \<lparr>pm_uncompressed_page_size = of_nat (length body),
                        pm_compressed_page_size = of_nat (length (compress body)), pm_crc = None\<rparr>,
         ph_page_type = DictionaryPage \<lparr>dk_num_values = of_nat n, dk_encoding = PLAIN, dk_is_sorted = False\<rparr>\<rparr>"
  using encoding_round_trip [of PLAIN]
  by (simp add: try_from_format_def dictionary_page_of_def page_header_of_def dictionary_from_format_def try_u32_small)

lemma data_page_opens:
  assumes env: "env_ok env" and codec: "codec_ok (pr_codec pr) compress" and fits: "page_fits compress (length rs) body"
    and at: "reader_at pr (page_bytes (data_page_of compress enc (length rs) body) compress body @ rest)"
    and body: "body_holds kind dec_holds (pr_descr pr) (ss_dictionary (pr_state pr)) enc body rs"
  shows "\<exists>pr'. page_opens env kind dec_holds pr rs pr' \<and> reader_at pr' rest \<and> pr_codec pr' = pr_codec pr
    \<and> pr_descr pr' = pr_descr pr \<and> ss_dictionary (pr_state pr') = ss_dictionary (pr_state pr)"
proof -
  let ?h = "data_page_of compress enc (length rs) body"
  let ?off = "length (compact (write_format_page_header ?h))"
  have small: "length rs < 2 ^ 31" "length body < 2 ^ 31" "length (compress body) < 2 ^ 31"
    using fits by (simp_all add: page_fits_def)
  obtain r d page1 page2 dec where *: "\<forall>msg. level_decoder_for (cd_max_rep_level (pr_descr pr)) RLE msg body = Inr (r, page1)"
      "\<forall>msg. level_decoder_for (cd_max_def_level (pr_descr pr)) RLE msg page1 = Inr (d, page2)"
      "init_page_decoder kind (cd_physical_type (pr_descr pr)) enc page2 = Inr dec"
      "state_holds dec_holds (cd_max_def_level (pr_descr pr)) \<lparr>ss_remaining = length rs, ss_definitions = d,
         ss_repetitions = r, ss_decoder = Some dec, ss_dictionary = ss_dictionary (pr_state pr)\<rparr> rs"
    using body unfolding body_holds_def by blast
  let ?st = "\<lparr>ss_remaining = length rs, ss_definitions = d, ss_repetitions = r, ss_decoder = Some dec,
      ss_dictionary = ss_dictionary (pr_state pr)\<rparr>"
  let ?pr = "pr\<lparr>pr_chunk_offset := pr_chunk_offset pr + ?off + length (compress body), pr_page := [], pr_state := ?st\<rparr>"
  have "prepare_next env kind pr1 = Inr (pr1\<lparr>pr_chunk_offset := pr_chunk_offset pr + ?off + length (compress body),
      pr_page := [], pr_state := ?st\<rparr>)" if "same_chunk pr pr1" for pr1
  proof -
    let ?pr1 = "pr1\<lparr>pr_chunk_offset := pr_chunk_offset pr1 + ?off\<rparr>"
    have same: "pr_codec pr1 = pr_codec pr" "pr_descr pr1 = pr_descr pr" "pr_chunk_offset pr1 = pr_chunk_offset pr"
        "ss_dictionary (pr_state pr1) = ss_dictionary (pr_state pr)" using that by (simp_all add: same_chunk_def)
    have at1: "reader_at pr1 (page_bytes ?h compress body @ rest)" using at same_chunk_at [OF that] by simp
    then have at2: "reader_at ?pr1 (compress body @ rest)"
      unfolding page_bytes_def append_assoc by (rule reader_at_skip) simp_all
    have codec1: "codec_ok (pr_codec ?pr1) compress" using codec same(1) by simp
    have load: "load_page env \<lparr>pm_uncompressed_page_size = of_nat (length body),
        pm_compressed_page_size = of_nat (length (compress body)), pm_crc = None\<rparr> ?pr1 =
        Inr (?pr1\<lparr>pr_page := body, pr_chunk_offset := pr_chunk_offset ?pr1 + length (compress body)\<rparr>)"
      by (rule load_page_at [OF env codec1 at2 small(2,3)]) simp_all
    have "unat (of_nat (length rs) :: 32 word) = length rs" using small(1) by (simp add: unsigned_of_nat take_bit_nat_eq_self)
    then show ?thesis
      unfolding prepare_next_at [OF env header_of_ok(1) at1 data_page_format [OF small(1)]]
      using load * same by (simp add: prepare_data_page_def set_decoder_def take_remaining_def)
  qed
  moreover have "same_chunk ?pr (pr1\<lparr>pr_chunk_offset := pr_chunk_offset pr + ?off + length (compress body),
      pr_page := [], pr_state := ?st\<rparr>)" if "same_chunk pr pr1" for pr1 using that by (simp add: same_chunk_def)
  ultimately have "page_opens env kind dec_holds pr rs ?pr" using *(4) by (simp add: page_opens_def)
  moreover have "reader_at ?pr rest" using at by (rule reader_at_skip) (simp_all add: page_bytes_def)
  ultimately show ?thesis by (intro exI [of _ ?pr]) simp
qed

lemma data_pages_follow:
  assumes env: "env_ok env"
  shows "codec_ok (pr_codec pr) compress \<Longrightarrow>
    \<forall>(enc, body, rs) \<in> set pages. page_fits compress (length rs) body
      \<and> body_holds kind dec_holds (pr_descr pr) (ss_dictionary (pr_state pr)) enc body rs \<Longrightarrow>
    reader_at pr (concat (map (\<lambda>(enc, body, rs). page_bytes (data_page_of compress enc (length rs) body) compress body) pages)) \<Longrightarrow>
    pages_follow env kind dec_holds pr (map (\<lambda>(enc, body, rs). rs) pages)"
proof (induction pages arbitrary: pr)
  case (Cons p pages)
  obtain enc body rs where p: "p = (enc, body, rs)" by (cases p)
  let ?rest = "concat (map (\<lambda>(enc, body, rs). page_bytes (data_page_of compress enc (length rs) body) compress body) pages)"
  have "page_fits compress (length rs) body" "reader_at pr (page_bytes (data_page_of compress enc (length rs) body) compress body @ ?rest)"
      "body_holds kind dec_holds (pr_descr pr) (ss_dictionary (pr_state pr)) enc body rs"
    using Cons.prems(2,3) p by auto
  from data_page_opens [OF env Cons.prems(1) this] obtain pr' where pr': "page_opens env kind dec_holds pr rs pr'"
      "reader_at pr' ?rest" "pr_codec pr' = pr_codec pr" "pr_descr pr' = pr_descr pr"
      "ss_dictionary (pr_state pr') = ss_dictionary (pr_state pr)"
    by blast
  have "pages_follow env kind dec_holds pr' (map (\<lambda>(enc, body, rs). rs) pages)"
    using Cons.prems(1,2) pr'(2-5) by (intro Cons.IH) auto
  then show ?case using pr'(1) p by auto
qed simp

lemma dictionary_page_opens:
  assumes env: "env_ok env" and codec: "codec_ok (pr_codec pr) compress" and fits: "page_fits compress n body"
    and at: "reader_at pr (page_bytes (dictionary_page_of compress n body) compress body @ rest)"
    and dict: "prepare_with_values (ck_read kind) (ck_reader kind) (ck_initial kind) n body = Inr dictionary"
  shows "\<exists>pr'. page_opens env kind dec_holds pr [] pr' \<and> reader_at pr' rest \<and> pr_codec pr' = pr_codec pr
    \<and> pr_descr pr' = pr_descr pr \<and> ss_dictionary (pr_state pr') = dictionary"
proof -
  let ?h = "dictionary_page_of compress n body"
  let ?off = "length (compact (write_format_page_header ?h))"
  have small: "n < 2 ^ 31" "length body < 2 ^ 31" "length (compress body) < 2 ^ 31"
    using fits by (simp_all add: page_fits_def)
  let ?next = "\<lambda>pr1. pr1\<lparr>pr_chunk_offset := pr_chunk_offset pr + ?off + length (compress body),
      pr_page := [], pr_state := (pr_state pr1)\<lparr>ss_dictionary := dictionary\<rparr>\<rparr>"
  have step: "prepare_next env kind pr1 = Inr (?next pr1)" if "same_chunk pr pr1" for pr1
  proof -
    let ?pr1 = "pr1\<lparr>pr_chunk_offset := pr_chunk_offset pr1 + ?off\<rparr>"
    have same: "pr_codec pr1 = pr_codec pr" "pr_chunk_offset pr1 = pr_chunk_offset pr"
      using that by (simp_all add: same_chunk_def)
    have at1: "reader_at pr1 (page_bytes ?h compress body @ rest)" using at same_chunk_at [OF that] by simp
    then have at2: "reader_at ?pr1 (compress body @ rest)"
      unfolding page_bytes_def append_assoc by (rule reader_at_skip) simp_all
    have codec1: "codec_ok (pr_codec ?pr1) compress" using codec same(1) by simp
    have load: "load_page env \<lparr>pm_uncompressed_page_size = of_nat (length body),
        pm_compressed_page_size = of_nat (length (compress body)), pm_crc = None\<rparr> ?pr1 =
        Inr (?pr1\<lparr>pr_page := body, pr_chunk_offset := pr_chunk_offset ?pr1 + length (compress body)\<rparr>)"
      by (rule load_page_at [OF env codec1 at2 small(2,3)]) simp_all
    have "unat (of_nat n :: 32 word) = n" using small(1) by (simp add: unsigned_of_nat take_bit_nat_eq_self)
    then show ?thesis
      unfolding prepare_next_at [OF env header_of_ok(2) at1 dictionary_page_format [OF small(1)]]
      using load dict same by (simp add: prepare_dictionary_def take_remaining_def)
  qed
  have "page_opens env kind dec_holds pr [] (?next pr)"
    using step by (auto simp: page_opens_def state_holds_def same_chunk_def)
  moreover have "reader_at (?next pr) rest" using at by (rule reader_at_skip) (simp_all add: page_bytes_def)
  ultimately show ?thesis by (intro exI [of _ "?next pr"]) simp
qed

section \<open>Written pages\<close>

text \<open>
  Pages as a writer composes them from the encoders of the repository: the length prefixed
  definition levels of a nullable flat column, then the encoded values.
\<close>

definition write_levels :: "i16 \<Rightarrow> i16 list \<Rightarrow> byte list result" where
  "write_levels max_level ls =
     (if 0 < sint max_level
      then bind_result (level_encoder_v1 RLE max_level (length ls)) (\<lambda>e.
           bind_result (level_put ls e) (\<lambda>(_, e). level_consume e))
      else Inr [])"

definition write_page :: "format_page_header \<Rightarrow> (byte list \<Rightarrow> byte list) \<Rightarrow> nat \<Rightarrow> byte list \<Rightarrow> byte list result" where
  "write_page h compress n body =
     (if page_fits compress n body then Inr (page_bytes h compress body) else Inl (DbError ''page too large''))"

definition write_plain_page ::
    "('v list \<Rightarrow> plain_encoder \<Rightarrow> plain_encoder result) \<Rightarrow> (byte list \<Rightarrow> byte list) \<Rightarrow> i16 \<Rightarrow> i16 list \<times> 'v list \<Rightarrow> byte list result"
where
  "write_plain_page encode compress max_def = (\<lambda>(ls, vs).
     bind_result (write_levels max_def ls) (\<lambda>levels.
     bind_result (encode vs plain_encoder_new) (\<lambda>e.
     let body = levels @ fst (plain_flush_buffer e)
     in write_page (data_page_of compress PLAIN (length ls) body) compress (length ls) body)))"

definition level_rows :: "i16 \<Rightarrow> i16 list \<times> 'v list \<Rightarrow> 'v option list" where
  "level_rows max_def = (\<lambda>(ls, vs). expand (map (\<lambda>l. l = max_def) ls) vs)"

definition levels_match :: "i16 \<Rightarrow> i16 list \<times> 'v list \<Rightarrow> bool" where
  "levels_match max_def = (\<lambda>(ls, vs). (\<forall>l \<in> set ls. level_ok max_def l) \<and> count_list ls max_def = length vs)"

lemma sint_not_less: "sint l \<le> sint m \<Longrightarrow> (\<not> sint l < sint m) = (l = (m :: i16))"
  by (auto simp: less_le signed_word_eqI)

lemma count_list_map_eq: "count_list (map (\<lambda>l. l = m) ls) True = count_list ls m"
  by (induction ls) auto

lemma written_body:
  assumes match: "levels_match max_def (ls, vs)" and descr: "cd_max_rep_level descr = 0" "cd_max_def_level descr = max_def"
    and levels: "write_levels max_def ls = Inr levels" "length (levels @ vbytes) < 2 ^ 31" "length ls < 2 ^ 31"
    and dec: "init_page_decoder kind (cd_physical_type descr) enc vbytes = Inr dec" "dec_holds dictionary dec vs"
  shows "body_holds kind dec_holds descr dictionary enc (levels @ vbytes) (level_rows max_def (ls, vs))"
proof -
  have ls: "\<forall>l \<in> set ls. level_ok max_def l" "count_list ls max_def = length vs" using match by (auto simp: levels_match_def)
  have "\<exists>d. (\<forall>msg. level_decoder_for max_def RLE msg (levels @ vbytes) = Inr (d, vbytes)) \<and> levels_left d ls
      \<and> is_present max_def d ls = map (\<lambda>l. l = max_def) ls"
  proof (cases "0 < sint max_def")
    case True
    obtain e e' bytes where enc: "level_encoder_v1 RLE max_def (length ls) = Inr e" "level_put ls e = Inr (length ls, e')"
        "level_consume e' = Inr bytes"
      and d: "\<And>rest. length bytes < 4 + 2 ^ 31 \<Longrightarrow>
         \<exists>d pad. level_decoder_v1 max_def (bytes @ rest) = Inr (d, rest) \<and> denotes d (map scast ls @ pad)"
      by (rule levels_v1_denotes [OF ls(1), of "length ls"]) (use levels(3) in \<open>simp, blast\<close>)
    have "levels = bytes" using levels(1) True enc by (simp add: write_levels_def)
    moreover from this have "length bytes < 4 + 2 ^ 31" using levels(2) by simp
    ultimately obtain d pad where "level_decoder_v1 max_def (levels @ vbytes) = Inr (d, vbytes)" "denotes d (map scast ls @ pad)"
      using d by blast
    moreover have "is_present max_def (Some d) ls = map (\<lambda>l. l = max_def) ls"
      using ls(1) by (auto simp: is_present_def level_ok_def sint_not_less)
    ultimately show ?thesis
      using True by (intro exI [of _ "Some d"]) (auto simp: level_decoder_for_def levels_left_def)
  next
    case False
    have "l = max_def" if "l \<in> set ls" for l
      using False ls(1) that sint_not_less [of l max_def] by (force simp: level_ok_def)
    then have "is_present max_def None ls = map (\<lambda>l. l = max_def) ls" by (simp add: is_present_def)
    then show ?thesis
      using False levels(1) by (intro exI [of _ None]) (simp add: level_decoder_for_def levels_left_def write_levels_def)
  qed
  then obtain d where d: "\<forall>msg. level_decoder_for max_def RLE msg (levels @ vbytes) = Inr (d, vbytes)" "levels_left d ls"
      "is_present max_def d ls = map (\<lambda>l. l = max_def) ls" by blast
  have "\<forall>l \<in> set ls. sint l \<le> sint max_def" using ls(1) by (simp add: level_ok_def)
  then have "state_holds dec_holds max_def \<lparr>ss_remaining = length ls, ss_definitions = d, ss_repetitions = None,
      ss_decoder = Some dec, ss_dictionary = dictionary\<rparr> (level_rows max_def (ls, vs))"
    using d(2,3) dec(2) ls(2)
    by (intro state_holdsI [of _ _ dec _ vs ls ls]) (simp_all add: level_rows_def levels_left_def count_list_map_eq)
  then show ?thesis
    unfolding body_holds_def using d(1) dec(1) descr
    by (intro exI [of _ None] exI [of _ d] exI [of _ "levels @ vbytes"] exI [of _ vbytes] exI [of _ dec])
       (simp add: level_decoder_for_def level_rows_def)
qed

section \<open>Reading batch after batch\<close>

fun read_arrays ::
    "page_env \<Rightarrow> ('r, 'v) column_kind \<Rightarrow> ('b, 'r, 'v) page_reader \<Rightarrow> nat list
      \<Rightarrow> ('v array_out list \<times> ('b, 'r, 'v) page_reader) result option" where
  "read_arrays env kind pr [] = Some (Inr ([], pr))"
| "read_arrays env kind pr (n # ns) =
     (case column_read env kind pr (array_new (ck_initial kind) n) n of
        None \<Rightarrow> None
      | Some (Inl e) \<Rightarrow> Some (Inl e)
      | Some (Inr (a, pr)) \<Rightarrow>
          (case read_arrays env kind pr ns of
             None \<Rightarrow> None
           | Some r \<Rightarrow> Some (map_result (\<lambda>(arrays, pr). (a # arrays, pr)) r)))"

context column_contract
begin

lemma read_arrays_rows:
  "skip_shrinks (pe_lib env) \<Longrightarrow> column_holds env kind dec_holds pr rs \<Longrightarrow> sum_list ns \<le> length rs \<Longrightarrow>
    \<exists>arrays pr'. read_arrays env kind pr ns = Some (Inr (arrays, pr')) \<and> map (\<lambda>a. length (rows a)) arrays = ns
      \<and> concat (map rows arrays) = take (sum_list ns) rs \<and> column_holds env kind dec_holds pr' (drop (sum_list ns) rs)"
proof (induction ns arbitrary: pr rs)
  case (Cons n ns)
  let ?a = "array_new (ck_initial kind) n"
  have a: "array_wf ?a" "rows ?a = replicate n (Some (ck_initial kind))" by (rule array_new_rows)+
  then have w: "writable 0 n ?a" unfolding writable_rows [OF a(1)] by simp
  have "n \<le> length rs" using Cons.prems(3) by simp
  from column_rows [OF Cons.prems(1,2) this a(1) w] obtain a' pr1 where
    read: "column_read env kind pr ?a n = Some (Inr (a', pr1))" "column_holds env kind dec_holds pr1 (drop n rs)"
      "rows a' = overwrite 0 (take n rs) (rows ?a)"
    by blast
  have "rows a' = take n rs" "length (take n rs) = n" using read(3) a(2) Cons.prems(3) by (auto simp: overwrite_def)
  moreover have "sum_list ns \<le> length (drop n rs)" using Cons.prems(3) by simp
  from Cons.IH [OF Cons.prems(1) read(2) this] obtain arrays pr' where "read_arrays env kind pr1 ns = Some (Inr (arrays, pr'))"
      "map (\<lambda>a. length (rows a)) arrays = ns" "concat (map rows arrays) = take (sum_list ns) (drop n rs)"
      "column_holds env kind dec_holds pr' (drop (sum_list ns) (drop n rs))"
    by blast
  ultimately show ?case using read(1) by (auto simp: take_add add.commute)
qed simp

end

lemma chunk_holds:
  assumes "pages_follow env kind dec_holds (prepare_for_chunk codec chunk pr) rss" "ss_remaining (pr_state pr) = 0"
  shows "column_holds env kind dec_holds (prepare_for_chunk codec chunk pr) (concat rss)"
  unfolding column_holds_def
  by (rule exI [of _ "prepare_for_chunk codec chunk pr"], rule exI [of _ "[]"], rule exI [of _ rss])
     (use assms in \<open>simp add: same_chunk_def state_holds_def prepare_for_chunk_def\<close>)

lemma prepare_for_chunk_simps [simp]:
  "pr_descr (prepare_for_chunk codec chunk pr) = pr_descr pr" "pr_codec (prepare_for_chunk codec chunk pr) = codec"
  "pr_state (prepare_for_chunk codec chunk pr) = pr_state pr"
  "length chunk < 2 ^ 64 \<Longrightarrow> reader_at (prepare_for_chunk codec chunk pr) chunk"
  by (simp_all add: prepare_for_chunk_def reader_at_def)

lemma written_plain_page:
  assumes codec: "plain_codec vr holds encode reader encodable" and kind: "ck_reader kind = reader"
    and holds: "\<And>c vs. holds reader c vs \<Longrightarrow> dec_holds dictionary (PlainDec reader c) vs"
    and descr: "cd_max_rep_level descr = 0" "cd_max_def_level descr = max_def"
    and p: "levels_match max_def (ls, vs)" "\<forall>v \<in> set vs. encodable v"
    and page: "write_plain_page encode compress max_def (ls, vs) = Inr bytes"
  shows "\<exists>body. page_fits compress (length ls) body
    \<and> bytes = page_bytes (data_page_of compress PLAIN (length ls) body) compress body
    \<and> body_holds kind dec_holds descr dictionary PLAIN body (level_rows max_def (ls, vs))"
proof -
  obtain e where e: "encode vs plain_encoder_new = Inr e" "holds reader (fst (plain_flush_buffer e) @ []) vs"
    using plain_codec.encode_holds [OF codec p(2), of "[]"] by blast
  obtain levels where levels: "write_levels max_def ls = Inr levels"
    using page by (auto simp: write_plain_page_def bind_result_eq_Inr)
  let ?body = "levels @ fst (plain_flush_buffer e)"
  have fits: "page_fits compress (length ls) ?body"
      "bytes = page_bytes (data_page_of compress PLAIN (length ls) ?body) compress ?body"
    using page levels e(1) by (auto simp: write_plain_page_def write_page_def Let_def split: if_splits)
  have "body_holds kind dec_holds descr dictionary PLAIN ?body (level_rows max_def (ls, vs))"
    using fits(1) e(2) holds kind
    by (intro written_body [where dec = "PlainDec reader (fst (plain_flush_buffer e))", OF p(1) descr levels])
       (simp_all add: page_fits_def init_page_decoder_def)
  with fits show ?thesis by blast
qed

lemma pages_choice:
  assumes "\<And>p b. p \<in> set ps \<Longrightarrow> f p = Inr b \<Longrightarrow> \<exists>q. ok p q \<and> b = g q" "list_all2 (\<lambda>p b. f p = Inr b) ps bs"
  shows "\<exists>qs. list_all2 ok ps qs \<and> bs = map g qs"
  using assms(2,1)
proof (induction rule: list_all2_induct)
  case (Cons p ps b bs)
  then obtain q qs where "ok p q" "b = g q" "list_all2 ok ps qs" "bs = map g qs" by fastforce
  then show ?case by (intro exI [of _ "q # qs"]) simp
qed simp

lemma written_plain_chunk:
  assumes env: "env_ok env" and codec: "codec_ok codec compress" and plain: "plain_codec vr holds encode reader encodable"
    and kind: "ck_reader kind = reader" "column_contract kind dec_holds"
    and holds: "\<And>dictionary c vs. holds reader c vs \<Longrightarrow> dec_holds dictionary (PlainDec reader c) vs"
    and pr: "ss_remaining (pr_state pr) = 0" "cd_max_rep_level (pr_descr pr) = 0" "cd_max_def_level (pr_descr pr) = max_def"
    and pages: "\<forall>p \<in> set pages. levels_match max_def p \<and> (\<forall>v \<in> set (snd p). encodable v)"
    and written: "collect_results (write_plain_page encode compress max_def) pages = Inr bytes" "length (concat bytes) < 2 ^ 64"
    and ns: "sum_list ns \<le> length (concat (map (level_rows max_def) pages))"
  shows "\<exists>arrays pr'. read_arrays env kind (prepare_for_chunk codec (concat bytes) pr) ns = Some (Inr (arrays, pr'))
    \<and> map (\<lambda>a. length (rows a)) arrays = ns
    \<and> concat (map rows arrays) = take (sum_list ns) (concat (map (level_rows max_def) pages))"
proof -
  let ?pr = "prepare_for_chunk codec (concat bytes) pr" and ?d = "ss_dictionary (pr_state pr)"
  let ?bytes = "\<lambda>(enc, body, rs). page_bytes (data_page_of compress enc (length rs) body) compress body"
  let ?ok = "\<lambda>p q. snd (snd q) = level_rows max_def p \<and> page_fits compress (length (snd (snd q))) (fst (snd q))
      \<and> body_holds kind dec_holds (pr_descr pr) ?d (fst q) (fst (snd q)) (snd (snd q))"
  have "\<exists>q. ?ok p q \<and> b = ?bytes q" if pb: "p \<in> set pages" "write_plain_page encode compress max_def p = Inr b" for p b
  proof -
    obtain ls vs where p: "p = (ls, vs)" by (cases p)
    have "levels_match max_def (ls, vs)" "\<forall>v \<in> set vs. encodable v" "write_plain_page encode compress max_def (ls, vs) = Inr b"
      using pages pb unfolding p by auto
    from written_plain_page [where dec_holds = dec_holds and dictionary = ?d, OF plain kind(1) holds pr(2,3) this]
    obtain body where "page_fits compress (length ls) body"
      "b = page_bytes (data_page_of compress PLAIN (length ls) body) compress body"
      "body_holds kind dec_holds (pr_descr pr) ?d PLAIN body (level_rows max_def (ls, vs))"
      by blast
    then show ?thesis using p by (intro exI [of _ "(PLAIN, body, level_rows max_def (ls, vs))"]) (simp add: level_rows_def)
  qed
  then have "\<exists>qs. list_all2 ?ok pages qs \<and> bytes = map ?bytes qs"
    using written(1) unfolding collect_results_list_all2 by (rule pages_choice)
  then obtain qs where qs: "list_all2 ?ok pages qs" "bytes = map ?bytes qs" by blast
  have rows: "map (\<lambda>(enc, body, rs). rs) qs = map (level_rows max_def) pages"
    using qs(1) by (induction rule: list_all2_induct) auto
  have "\<forall>(enc, body, rs) \<in> set qs. page_fits compress (length rs) body \<and> body_holds kind dec_holds (pr_descr pr) ?d enc body rs"
    using qs(1) by (induction rule: list_all2_induct) auto
  then have "pages_follow env kind dec_holds ?pr (map (\<lambda>(enc, body, rs). rs) qs)"
    using codec prepare_for_chunk_simps(4) [OF written(2), of codec pr]
    by (intro data_pages_follow [OF env]) (simp_all only: qs(2) prepare_for_chunk_simps)
  from chunk_holds [OF this pr(1)] have "column_holds env kind dec_holds ?pr (concat (map (level_rows max_def) pages))"
    unfolding rows .
  with column_contract.read_arrays_rows [OF kind(2) _ this ns] env show ?thesis by (auto simp: env_ok_def)
qed

section \<open>Sizes\<close>

lemma length_vlq_septets: "take_bit k v = v \<Longrightarrow> k \<le> 7 * n \<Longrightarrow> 0 < n \<Longrightarrow> length (vlq_bytes v) \<le> n"
proof (induction n arbitrary: k v)
  case (Suc n)
  show ?case
  proof (cases "drop_bit 7 v = 0")
    case True
    then show ?thesis by (simp add: vlq_bytes.simps [of v] and_high_bits)
  next
    case False
    have "take_bit (k - 7) (drop_bit 7 v) = drop_bit 7 (take_bit k v)" by (simp add: drop_bit_take_bit)
    then have v: "take_bit (k - 7) (drop_bit 7 v) = drop_bit 7 v" using Suc.prems(1) by simp
    have "0 < n"
    proof (rule ccontr)
      assume "\<not> 0 < n"
      then have "k - 7 = 0" using Suc.prems(2) by simp
      then show False using v False by simp
    qed
    then have "length (vlq_bytes (drop_bit 7 v)) \<le> n" using Suc.prems(2) by (intro Suc.IH [OF v]) simp_all
    then show ?thesis using False by (simp add: vlq_bytes.simps [of v] and_high_bits)
  qed
qed simp

lemma length_vlq_64: "length (vlq_bytes v) \<le> 10"
  by (rule length_vlq_septets [of 64]) (simp_all add: take_bit_word_eq_self)

fun compact_bound :: "tvalue \<Rightarrow> nat"
  and fields_bound :: "(nat \<times> ttype \<times> tvalue) list \<Rightarrow> nat" where
  "compact_bound (VBytes bs) = 10 + length bs"
| "compact_bound (VList ty vs) = 11 + sum_list (map compact_bound vs)"
| "compact_bound (VStruct fs) = fields_bound fs"
| "compact_bound _ = 10"
| "fields_bound [] = 1"
| "fields_bound ((fid, ty, v) # fs) = 11 + compact_bound v + fields_bound fs"

lemma length_field_header: "length (field_header prev fid code) \<le> 11"
  using length_vlq_64 by (simp add: field_header_def)

lemma compact_bounds:
  "length (compact v) \<le> compact_bound v" "length (compact_fields prev fs) \<le> fields_bound fs"
proof (induction v and prev fs rule: compact_compact_fields.induct)
  case (6 ty vs)
  have "length (list_header (length vs) (type_code ty)) \<le> 11" using length_vlq_64 by (simp add: list_header_def)
  moreover have "length (concat (map compact vs)) \<le> sum_list (map compact_bound vs)"
    using 6 by (simp add: length_concat comp_def sum_list_mono)
  ultimately show ?case by simp
next
  case (9 prev fid ty v fs)
  then show ?case using length_field_header [of prev fid "field_code ty v"] by auto
qed (use length_vlq_64 in auto)

lemma data_page_header_bound: "length (compact (write_format_page_header (data_page_of compress enc n body))) \<le> 200"
  using compact_bounds(1) [of "write_format_page_header (data_page_of compress enc n body)"]
  by (cases enc) (simp_all add: write_format_page_header_def data_page_of_def page_header_of_def opt_field_def DATA_PAGE_def
      write_format_data_page_header_def)

lemma write_levels_ok:
  assumes "\<forall>l \<in> set ls. level_ok max_level l" "length ls < 2 ^ 63"
  shows "\<exists>bytes. write_levels max_level ls = Inr bytes
    \<and> length bytes \<le> 4 + max_buffer_size (level_bit_width max_level) (length ls)"
proof (cases "0 < sint max_level")
  case True
  obtain e e' bytes where
    "level_encoder_v1 RLE max_level (length ls) = Inr e" "level_put ls e = Inr (length ls, e')"
    "level_consume e' = Inr bytes" "length bytes \<le> 4 + max_buffer_size (level_bit_width max_level) (length ls)"
    by (rule levels_v1_denotes [OF assms, of "length ls"])
  then show ?thesis using True by (simp add: write_levels_def)
qed (simp add: write_levels_def)

lemma write_plain_words_ok:
  assumes "levels_match max_def (ls, vs :: 'a::len word list)" "\<And>bs. length (compress bs) = length bs"
    and "4 + max_buffer_size (level_bit_width max_def) (length ls) + length vs * (LENGTH('a) div 8) < 1000" "length ls < 1000"
  shows "\<exists>bytes. write_plain_page encode_words compress max_def (ls, vs) = Inr bytes \<and> length bytes < 1200"
proof -
  have "length ls < 2 ^ 63" using assms(4) by simp
  with assms(1) obtain levels where levels: "write_levels max_def ls = Inr levels"
      "length levels \<le> 4 + max_buffer_size (level_bit_width max_def) (length ls)"
    using write_levels_ok by (fastforce simp: levels_match_def)
  let ?e = "plain_encoder_new\<lparr>pe_buffer := concat (map to_le_bytes vs)\<rparr>"
  have e: "encode_words vs plain_encoder_new = Inr ?e" by (simp add: encode_words_def plain_encoder_new_def)
  let ?body = "levels @ concat (map to_le_bytes vs)"
  have len: "length ?body < 1000"
    using levels(2) assms(3) by (simp add: length_concat comp_def sum_list_triv)
  then have "page_fits compress (length ls) ?body" using assms(2,4) by (simp add: page_fits_def)
  then show ?thesis
    using levels(1) e len assms(2) data_page_header_bound [of compress PLAIN "length ls" ?body]
    by (simp add: write_plain_page_def write_page_def Let_def plain_flush_new page_bytes_def)
qed

subsection \<open>Dictionary pages\<close>

definition write_dictionary_chunk ::
    "('v list \<Rightarrow> plain_encoder \<Rightarrow> plain_encoder result) \<Rightarrow> (byte list \<Rightarrow> byte list) \<Rightarrow> i16 \<Rightarrow> ('v \<Rightarrow> nat) \<Rightarrow> i16 list \<times> 'v list
      \<Rightarrow> byte list result" where
  "write_dictionary_chunk encode compress max_def sz = (\<lambda>(ls, vs).
     bind_result (dict_put sz vs dict_encoder_new) (\<lambda>e.
     bind_result (write_dict encode e) (\<lambda>dict.
     bind_result (write_indices e) (\<lambda>(indices, _).
     bind_result (write_levels max_def ls) (\<lambda>levels.
     let n = num_entries e; body = levels @ indices
     in bind_result (write_page (dictionary_page_of compress n dict) compress n dict) (\<lambda>page1.
        bind_result (write_page (data_page_of compress RLE_DICTIONARY (length ls) body) compress (length ls) body) (\<lambda>page2.
        Inr (page1 @ page2))))))))"

lemma written_dictionary_chunk:
  assumes env: "env_ok env" and codec: "codec_ok codec compress" and plain: "plain_codec vr holds encode reader encodable"
    and kind: "ck_reader kind = reader" "ck_read kind = vr" "column_contract kind dec_holds"
    and holds: "\<And>dictionary d vs. dict_holds dictionary d vs \<Longrightarrow> dec_holds dictionary (DictionaryDec d) vs"
    and pr: "ss_remaining (pr_state pr) = 0" "cd_max_rep_level (pr_descr pr) = 0" "cd_max_def_level (pr_descr pr) = max_def"
    and p: "levels_match max_def (ls, vs)" "\<forall>v \<in> set vs. encodable v"
    and written: "write_dictionary_chunk encode compress max_def sz (ls, vs) = Inr bytes" "length bytes < 2 ^ 64"
    and ns: "sum_list ns \<le> length (level_rows max_def (ls, vs))"
  shows "\<exists>arrays pr'. read_arrays env kind (prepare_for_chunk codec bytes pr) ns = Some (Inr (arrays, pr'))
    \<and> map (\<lambda>a. length (rows a)) arrays = ns
    \<and> concat (map rows arrays) = take (sum_list ns) (level_rows max_def (ls, vs))"
proof -
  let ?pr = "prepare_for_chunk codec bytes pr"
  obtain e dict indices e' levels where w: "dict_put sz vs dict_encoder_new = Inr e" "write_dict encode e = Inr dict"
      "write_indices e = Inr (indices, e')" "write_levels max_def ls = Inr levels"
    and fits: "page_fits compress (num_entries e) dict" "page_fits compress (length ls) (levels @ indices)"
    and bytes: "bytes = page_bytes (dictionary_page_of compress (num_entries e) dict) compress dict
      @ page_bytes (data_page_of compress RLE_DICTIONARY (length ls) (levels @ indices)) compress (levels @ indices)"
    using written(1) by (auto simp: write_dictionary_chunk_def write_page_def bind_result_eq_Inr Let_def split: if_splits)
  have len: "length vs < 2 ^ 32"
    using p(1) fits(2) count_le_length [of ls max_def] by (simp add: levels_match_def page_fits_def)
  have "\<exists>dictionary d. prepare_with_values vr reader (ck_initial kind) (num_entries e) (dict @ rest) = Inr dictionary
      \<and> open_dictionary (indices @ rest') = Inr d \<and> dict_holds dictionary d vs" for rest rest'
    using plain_codec.dictionary_pages [OF plain p(2) len, of sz "ck_initial kind"] w(1-3) by simp
  then obtain dictionary d where d: "prepare_with_values vr reader (ck_initial kind) (num_entries e) (dict @ []) = Inr dictionary"
      "open_dictionary (indices @ []) = Inr d" "dict_holds dictionary d vs"
    by blast
  let ?data = "page_bytes (data_page_of compress RLE_DICTIONARY (length ls) (levels @ indices)) compress (levels @ indices)"
  have at: "reader_at ?pr (page_bytes (dictionary_page_of compress (num_entries e) dict) compress dict @ ?data @ [])"
    using prepare_for_chunk_simps(4) [OF written(2)] by (simp only: bytes append_Nil2)
  have "codec_ok (pr_codec ?pr) compress" using codec by simp
  from dictionary_page_opens [OF env this fits(1) at, of kind dictionary dec_holds] obtain pr1 where
    pr1: "page_opens env kind dec_holds ?pr [] pr1" "reader_at pr1 (?data @ [])" "pr_codec pr1 = codec"
      "pr_descr pr1 = pr_descr pr" "ss_dictionary (pr_state pr1) = dictionary"
    using d(1) kind by auto
  have dec: "init_page_decoder kind (cd_physical_type (pr_descr pr)) RLE_DICTIONARY indices = Inr (DictionaryDec d)"
    using d(2) by (simp add: init_page_decoder_def)
  have small: "length (levels @ indices) < 2 ^ 31" "length ls < 2 ^ 31" using fits(2) by (simp_all add: page_fits_def)
  have "body_holds kind dec_holds (pr_descr pr) dictionary RLE_DICTIONARY (levels @ indices) (level_rows max_def (ls, vs))"
    by (rule written_body [where dec_holds = dec_holds, OF p(1) pr(2,3) w(4) small dec holds [OF d(3)]])
  moreover have "length (level_rows max_def (ls, vs)) = length ls" by (simp add: level_rows_def)
  ultimately obtain pr2 where "page_opens env kind dec_holds pr1 (level_rows max_def (ls, vs)) pr2"
    using data_page_opens [OF env, of pr1 compress "level_rows max_def (ls, vs)" "levels @ indices" RLE_DICTIONARY "[]" kind dec_holds]
      codec fits(2) pr1 by auto
  then have "pages_follow env kind dec_holds ?pr [[], level_rows max_def (ls, vs)]" using pr1(1) by auto
  from chunk_holds [OF this pr(1)] have "column_holds env kind dec_holds ?pr (level_rows max_def (ls, vs))" by simp
  with column_contract.read_arrays_rows [OF kind(3) _ this ns] env show ?thesis by (auto simp: env_ok_def)
qed

section \<open>Properties\<close>

text \<open>
  C36. A column chunk is read back. Take a nullable flat integer column whose rows are split into any
  number of data pages, each of them the definition levels and the plain values as the encoders
  write them, compressed by a codec that the reader can invert, behind a Thrift header in the
  compact protocol. A column reader that is pointed at the chunk and asked for rows in batches of
  any sizes never fails, panics or runs forever, whatever memory the allocator returns: every batch
  has the requested length, and together the batches are the rows that were written, in order and
  with NULL exactly where the level is below the maximum.
\<close>

theorem column_chunk_round_trip:
  fixes pages :: "(i16 list \<times> 'a::len word list) list"
  assumes "env_ok env" "codec_ok codec compress" "8 dvd LENGTH('a)" "ss_remaining (pr_state pr) = 0"
    and "cd_max_rep_level (pr_descr pr) = 0" "cd_max_def_level (pr_descr pr) = max_def"
    and "\<forall>p \<in> set pages. levels_match max_def p"
    and "collect_results (write_plain_page encode_words compress max_def) pages = Inr bytes"
    and "length (concat bytes) < 2 ^ 64" "sum_list ns \<le> length (concat (map (level_rows max_def) pages))"
  shows "\<exists>arrays pr'. read_arrays env word_kind (prepare_for_chunk codec (concat bytes) pr) ns = Some (Inr (arrays, pr'))
    \<and> map (\<lambda>a. length (rows a)) arrays = ns
    \<and> concat (map rows arrays) = take (sum_list ns) (concat (map (level_rows max_def) pages))"
  using assms
  by (intro written_plain_chunk [where dec_holds = word_holds, OF _ _ word_codec.plain_codec_axioms _ word_column.column_contract_axioms])
     (simp_all add: word_kind_def)

theorem column_chunk_round_trip_witness:
  "\<exists>bytes arrays pr'. collect_results (write_plain_page encode_words rev 1) [([1, 0, 1], [7, 8]), ([1], [9 :: 32 word])] = Inr bytes
    \<and> read_arrays zeroed_env word_kind (prepare_for_chunk (Some (\<lambda>src _. Inr (rev src))) (concat bytes)
        (page_reader_new word_kind (flat_descr INT32 1))) [2, 2] = Some (Inr (arrays, pr'))
    \<and> concat (map rows arrays) = [Some 7, None, Some 8, Some (9 :: 32 word)]"
proof -
  have env: "env_ok zeroed_env" by (simp add: env_ok_def zeroed_env_def scalar_lib_ok)
  have codec: "codec_ok (Some (\<lambda>src _. Inr (rev src))) rev" by (simp add: codec_ok_def)
  have w: "level_bit_width 1 \<le> 64" by simp
  have match: "levels_match 1 ([1, 0, 1], [7, 8 :: 32 word])" "levels_match 1 ([1], [9 :: 32 word])"
    by (simp_all add: levels_match_def level_ok_def)
  obtain b1 where b1: "write_plain_page encode_words rev 1 ([1, 0, 1], [7, 8 :: 32 word]) = Inr b1" "length b1 < 1200"
    using write_plain_words_ok [OF match(1), of rev] w by (auto simp: max_buffer_size_def Let_def ceil_8)
  obtain b2 where b2: "write_plain_page encode_words rev 1 ([1], [9 :: 32 word]) = Inr b2" "length b2 < 1200"
    using write_plain_words_ok [OF match(2), of rev] w by (auto simp: max_buffer_size_def Let_def ceil_8)
  have rows: "concat (map (level_rows 1) [([1, 0, 1], [7, 8]), ([1], [9 :: 32 word])]) = [Some 7, None, Some 8, Some 9]"
    by (simp add: level_rows_def)
  let ?pr = "page_reader_new word_kind (flat_descr INT32 1) :: (unit, unit, 32 word) page_reader"
  have "ss_remaining (pr_state ?pr) = 0" "cd_max_rep_level (pr_descr ?pr) = 0" "cd_max_def_level (pr_descr ?pr) = 1"
    by (simp_all add: page_reader_new_def flat_descr_def)
  from column_chunk_round_trip [OF env codec _ this, of "[([1, 0, 1], [7, 8]), ([1], [9])]" "[b1, b2]" "[2, 2]", unfolded rows]
  obtain arrays pr' where "read_arrays zeroed_env word_kind (prepare_for_chunk (Some (\<lambda>src _. Inr (rev src))) (concat [b1, b2]) ?pr)
      [2, 2] = Some (Inr (arrays, pr'))" "concat (map rows arrays) = [Some 7, None, Some 8, Some 9]"
    using match b1 b2 by (force simp del: read_arrays.simps)
  then show ?thesis
    using b1 b2 by (intro exI [of _ "[b1, b2]"] exI [of _ arrays] exI [of _ pr'] conjI) (simp_all del: read_arrays.simps)
qed

text \<open>
  C37. A dictionary encoded column chunk of byte arrays is read back: the chunk is a dictionary page
  with every distinct value once, and a data page with the definition levels and the run length
  encoded indices. The reader meets the dictionary page first, which holds no rows, keeps the
  dictionary in its scan state, and resolves the indices of the data page against it, whatever the
  batch sizes and the codec.
\<close>

theorem dictionary_chunk_round_trip:
  assumes "env_ok env" "codec_ok codec compress" "ss_remaining (pr_state pr) = 0"
    and "cd_max_rep_level (pr_descr pr) = 0" "cd_max_def_level (pr_descr pr) = max_def"
    and "levels_match max_def (ls, vs)" "\<forall>v \<in> set vs. length v < 2 ^ 32"
    and "write_dictionary_chunk encode_byte_arrays compress max_def sz (ls, vs) = Inr bytes"
    and "length bytes < 2 ^ 64" "sum_list ns \<le> length (level_rows max_def (ls, vs))"
  shows "\<exists>arrays pr'. read_arrays env binary_kind (prepare_for_chunk codec bytes pr) ns = Some (Inr (arrays, pr'))
    \<and> map (\<lambda>a. length (rows a)) arrays = ns
    \<and> concat (map rows arrays) = take (sum_list ns) (level_rows max_def (ls, vs))"
  using assms
  by (intro written_dictionary_chunk [where dec_holds = "bytes_holds holds_byte_arrays",
        OF _ _ byte_array_codec.plain_codec_axioms _ _ binary_column.column_contract_axioms])
     (simp_all add: binary_kind_def)

lemma dictionary_page_header_bound: "length (compact (write_format_page_header (dictionary_page_of compress n body))) \<le> 200"
  using compact_bounds(1) [of "write_format_page_header (dictionary_page_of compress n body)"]
  by (simp add: write_format_page_header_def dictionary_page_of_def page_header_of_def opt_field_def DICTIONARY_PAGE_def
      write_format_dictionary_page_header_def)

theorem dictionary_chunk_round_trip_witness:
  "\<exists>bytes arrays pr'. write_dictionary_chunk encode_byte_arrays rev 1 length ([1, 0, 1, 1], [[7], [8, 9], [7]]) = Inr bytes
    \<and> read_arrays zeroed_env binary_kind (prepare_for_chunk (Some (\<lambda>src _. Inr (rev src))) bytes
        (page_reader_new binary_kind (flat_descr BYTE_ARRAY 1))) [1, 3] = Some (Inr (arrays, pr'))
    \<and> concat (map rows arrays) = [Some [7], None, Some [8, 9], Some [7]]"
proof -
  let ?vs = "[[7], [8, 9], [7]] :: byte list list" and ?ls = "[1, 0, 1, 1] :: i16 list"
  have env: "env_ok zeroed_env" by (simp add: env_ok_def zeroed_env_def scalar_lib_ok)
  have codec: "codec_ok (Some (\<lambda>src _. Inr (rev src))) rev" by (simp add: codec_ok_def)
  have match: "levels_match 1 (?ls, ?vs)" by (simp add: levels_match_def level_ok_def)
  obtain e where e: "dict_put length ?vs dict_encoder_new = Inr e" "dict_inv e ?vs" "di_uniques e = [[7], [8, 9]]"
    using dict_put_inv [OF dict_inv_new, of length ?vs]
    by (auto simp: dict_put_def dict_put_one_def intern_def storage_push_def dict_encoder_new_def)
  obtain dict where dict: "write_dict encode_byte_arrays e = Inr dict" "length dict = 11"
    using e(3) by (simp add: write_dict_def encode_byte_arrays_def encode_byte_array_def plain_encoder_new_def
        plain_flush_new [unfolded plain_encoder_new_def, simplified])
  have n: "num_entries e = 2" "length (di_indices e) = 3" using e(2,3) by (auto simp: num_entries_def dict_inv_def dest: map_eq_imp_length_eq)
  obtain indices e' where idx: "write_indices e = Inr (indices, e')" "length indices \<le> 1 + max_buffer_size (dict_bit_width e) 3"
    by (rule write_indices_denotes [OF e(2)]) (use n in auto)
  have "dict_bit_width e \<le> 64" by (simp add: dict_bit_width_def)
  then have idx_len: "length indices < 100" using idx(2) by (simp add: max_buffer_size_def Let_def ceil_8)
  have ls: "length ?ls = 4" by simp
  obtain levels where levels: "write_levels 1 ?ls = Inr levels" "length levels \<le> 4 + max_buffer_size (level_bit_width 1) 4"
    using write_levels_ok [of ?ls 1, unfolded ls] match by (auto simp: levels_match_def)
  have levels_len: "length levels < 100"
    using levels(2) level_bit_width_le [of 1] by (simp add: max_buffer_size_def Let_def ceil_8 del: level_bit_width_le)
  let ?p1 = "page_bytes (dictionary_page_of rev 2 dict) rev dict"
  let ?p2 = "page_bytes (data_page_of rev RLE_DICTIONARY 4 (levels @ indices)) rev (levels @ indices)"
  have "page_fits rev 2 dict" "page_fits rev 4 (levels @ indices)" using dict(2) idx_len levels_len by (simp_all add: page_fits_def)
  then have written: "write_dictionary_chunk encode_byte_arrays rev 1 length (?ls, ?vs) = Inr (?p1 @ ?p2)"
    unfolding write_dictionary_chunk_def prod.case ls
    using e(1) dict(1) idx(1) levels(1) n by (simp add: write_page_def Let_def del: list.size)
  have len: "length (?p1 @ ?p2) < 2 ^ 64"
    using dictionary_page_header_bound [of rev 2 dict] data_page_header_bound [of rev RLE_DICTIONARY 4 "levels @ indices"]
      dict(2) idx_len levels_len by (simp add: page_bytes_def)
  let ?pr = "page_reader_new binary_kind (flat_descr BYTE_ARRAY 1) :: (unit, unit, byte list) page_reader"
  have pr: "ss_remaining (pr_state ?pr) = 0" "cd_max_rep_level (pr_descr ?pr) = 0" "cd_max_def_level (pr_descr ?pr) = 1"
    by (simp_all add: page_reader_new_def flat_descr_def)
  have rows: "level_rows 1 (?ls, ?vs) = [Some [7], None, Some [8, 9], Some [7]]" by (simp add: level_rows_def)
  from dictionary_chunk_round_trip [OF env codec pr match _ written len, of "[1, 3]", unfolded rows]
  obtain arrays pr' where "read_arrays zeroed_env binary_kind (prepare_for_chunk (Some (\<lambda>src _. Inr (rev src))) (?p1 @ ?p2) ?pr)
      [1, 3] = Some (Inr (arrays, pr'))" "concat (map rows arrays) = [Some [7], None, Some [8, 9], Some [7]]"
    by (force simp del: read_arrays.simps)
  then show ?thesis
    using written by (intro exI [of _ "?p1 @ ?p2"] exI [of _ arrays] exI [of _ pr'] conjI)
qed

end
