(* ===== verification/Spec2Isabelle.thy ===== *)
theory Spec2Isabelle
  imports Exec_Stack Rewrites Bit_Batch Column_Chunk
begin

text \<open>
  A verification of the expression layer, the pipeline driver and the Parquet column reader of the
  GlareDB query engine. Paths are below \<open>src/crates/glaredb_core/src\<close> and
  \<open>src/crates/glaredb_ext_parquet/src\<close>, the latter written \<open>parquet/\<close>.

  \<^bold>\<open>The program.\<close> The engine binds SQL to logical expressions, rewrites them in its
  optimizer, plans them to physical expressions and evaluates these on batches of arrays. A query runs
  as pipelines of operators; per partition, a stack of instructions decides which operator is polled
  next. The Parquet extension reads column chunks: Thrift page headers, compressed pages with
  repetition and definition levels, and values in one of several encodings. It also contains the
  encoders. All of it returns \<open>Result\<close> and may panic: in every theory a fallible operation has the
  type \<open>'a result\<close>, an error value \<open>DbError\<close> or a \<open>Panic\<close> (failed assertion, \<open>unwrap\<close>, index or
  checked arithmetic; debug assertions count), or the result.

  \<^bold>\<open>The pipeline driver.\<close>
  \<^item> \<open>Exec_Stack\<close>: \<open>ExecutionStack\<close> in \<open>execution/execution_stack.rs\<close>. The record \<open>execution_stack\<close> and
    the functions \<open>pop_next\<close>, \<open>after_execute\<close>, \<open>after_finalize\<close> are the struct and its methods; the
    polls of operators are arguments. Runs are the step relation \<open>stack_step\<close>, an interpretation of
    \<open>invariant_system\<close>. Shown: no reachable stack panics, no operator is polled after it is exhausted
    or finalized, and \<open>Finished\<close> is reported only after the sink was finalized.

  \<^bold>\<open>The expression layer.\<close>
  \<^item> \<open>Bitmap\<close>: \<open>arrays/bitmap/view.rs\<close>, \<open>arrays/array/validity.rs\<close>, \<open>arrays/array/selection.rs\<close>. Bitmaps
    over bytes and the validity mask with its three representations; both interpret the locale
    \<open>bit_store\<close>, a refinement of lists of booleans.
  \<^item> \<open>Datatypes\<close>: \<open>arrays/datatype.rs\<close> and \<open>arrays/scalar/\<close>. Data types, scalars at their machine widths,
    integer conversions, decimal precision, the target type of an implicit cast.
  \<^item> \<open>Expr\<close>: \<open>expr/mod.rs\<close> and the expression structs. The tree, its traversals, the test for constant
    foldability, column replacement.
  \<^item> \<open>Signatures\<close>: \<open>functions/candidate.rs\<close>, \<open>functions/implicit.rs\<close>, \<open>expr/cast_expr.rs\<close>. Exact and best
    signature, implicit casts, literal refinement. The table of casts and the sort of the candidates
    are arguments; the theorems hold for every sort by score.
  \<^item> \<open>Operators\<close>: \<open>functions/scalar/builtin/\<close> (\<open>comparison.rs\<close>, \<open>arith/\<close>, \<open>negate.rs\<close>, \<open>boolean.rs\<close>) and
    \<open>plan_as_scalar_function\<close> of \<open>expr/physical/planner.rs\<close>. The function sets of the operators and the
    binding of decimal operands, which inserts casts. Shown: bound decimal operands have one type.
  \<^item> \<open>Like\<close>: \<open>functions/scalar/builtin/string/like.rs\<close> and the pattern tests of
    \<open>optimizer/expr_rewrite/like.rs\<close>. The \<open>regex\<close> crate is a parameter with the hypothesis
    \<open>regex_matches\<close>, the documented meaning of the expressions that are built.
  \<^item> \<open>Physical\<close>: \<open>expr/physical/\<close>. The planner, the evaluation of a batch under a selection with whatever
    the output buffer holds, CASE, and the short-circuiting filter. Scalar functions and casts that
    are not modelled are row functions of a \<open>function_library\<close>, of which nothing is assumed.
    \<open>eval_row\<close> is the specification on one row.
  \<^item> \<open>Semantics\<close>: the value \<open>sem\<close> of a logical expression on a row; the planner refines it. The relations
    \<open>refines\<close> and \<open>keeps\<close> on expressions are what rewrites have to satisfy.
  \<^item> \<open>Rewrites\<close>: \<open>optimizer/expr_rewrite/\<close> and \<open>optimizer/selection_reorder.rs\<close>. The contract of a rule is
    the locale \<open>sound_rewrite\<close>; it is interpreted for the unnesting of conjunctions, which needs no
    condition, and met by the other rules under conditions that the theorem names. The OR
    distribution does not meet it: a disjunct can be lost, which is a theorem as well.

  \<^bold>\<open>The Parquet column reader.\<close>
  \<^item> \<open>Bit_Util\<close>, \<open>Bit_Batch\<close>: \<open>parquet/util/bit_util.rs\<close>, \<open>parquet/util/bit_pack.rs\<close>. Bit writer and
    reader denote lists of bits; round trips, variable length integers, and the batched read with
    unpack kernels equal to reading value by value. The locale \<open>bit_source\<close> is shared with \<open>Rle\<close>.
  \<^item> \<open>Rle\<close>, \<open>Rle_Encoder\<close>, \<open>Levels\<close>: \<open>parquet/column/encoding/rle_bit_packed.rs\<close>,
    \<open>parquet/encodings/rle.rs\<close>, \<open>parquet/encodings/levels.rs\<close>. The run length and bit packing hybrid, its
    decoder on the grammar of the format, the encoder's invariant and size bound, levels of pages.
  \<^item> \<open>Delta\<close>, \<open>Delta_Encoder\<close>: \<open>parquet/column/encoding/delta_binary_packed.rs\<close> and the
    \<open>DeltaBitPackEncoder\<close>. Round trip, and where the decoder departs from the format: repeated reads
    overlap, pages that end at a block boundary fail.
  \<^item> \<open>Column_Decoders\<close>, \<open>Column_Encoders\<close>, \<open>Byte_Arrays\<close>: \<open>parquet/column/value_reader/\<close>,
    \<open>parquet/column/encoding/\<close>, \<open>parquet/encodings/encoding/\<close>. Value readers satisfy the locale
    \<open>value_source\<close>, page decoders \<open>page_source\<close> (a \<open>sublocale\<close> gives the second for every value reader
    under the plain decoder), encoders \<open>plain_codec\<close>; each is interpreted for the types of the code.
  \<^item> \<open>Thrift\<close>, \<open>Page_Header\<close>, \<open>Column_Statistics\<close>: \<open>parquet/thrift.rs\<close>, \<open>parquet/format.rs\<close>,
    \<open>parquet/metadata/statistics.rs\<close>. The compact protocol reader, page header structs and statistics.
  \<^item> \<open>Page_Reader\<close>, \<open>Column_Chunk\<close>: \<open>parquet/column/page_reader.rs\<close>, \<open>parquet/column/column_reader.rs\<close>. The
    reader of a chunk. The locale \<open>column_contract\<close> joins it to the page decoders; the chunk round
    trips compose all of the above.

  \<^bold>\<open>Formats.\<close> A writer of Thrift structs hands its values to the \<open>thrift\<close> crate; \<open>compact\<close> states the
  compact format of such values, and \<open>page_bytes\<close>, \<open>write_plain_page\<close> and \<open>write_dictionary_chunk\<close> state
  the layout of pages and chunks. They are specifications of the file format, in terms of the modelled
  encoders, and correspond to no function of the source, which has no page writer.

  \<^bold>\<open>Bounds and fuel.\<close> Recursions end by a measure, with three exceptions. \<open>plan_scalar\<close> recurses on what
  binding returns and has a bound on its depth, which stands for the stack; from \<open>sem_measure e + 1\<close> on
  the bound changes nothing (\<open>plan_scalar_depth\<close>). \<open>read_fields\<close> has as fuel the bytes that are left,
  plus one, and reads a byte per round. \<open>read_loop\<close> has as fuel the bytes of the chunk that are left plus
  the rows that are asked for; every round uses up some of them, and \<open>column_read\<close> is shown to return on
  every chunk. \<open>usize\<close> values are naturals where the code cannot wrap them; widths are kept where
  wrapping or truncation matters (bit streams, levels, delta arithmetic, decimal precision, statistics).

  \<^bold>\<open>Parameters.\<close> Outside of the sources, and arguments here: the \<open>regex\<close> crate (\<open>regex_matches\<close>), the
  \<open>thrift\<close> crate's skipping of fields (\<open>thrift_lib_ok\<close>), decompression codecs (\<open>codec_ok\<close>), the memory
  that an allocator returns (arbitrary). Every theorem with such a hypothesis comes with an instance
  in which it holds.

  \<^bold>\<open>Not modelled.\<close> The SQL parser and binder, logical plans and the optimizer passes on them, the
  operators themselves with their locks and wakers, the bodies of most scalar functions and casts,
  aggregates, raw memory layouts and the sort and hash tables over them, Parquet file metadata,
  schemas and row group pruning, CSV, the catalog, the runtime, input and output, and the language
  bindings. Floating point values are opaque bit patterns. Arrays are lists of values, so aliasing of
  buffers is not visible.
\<close>

end
